(* ===== verification/Prelude.thy ===== *)
theory Prelude
  imports Main "HOL-Library.Word"
begin

text \<open>
  What the components share: the machine types of the C code, the ways a C function can
  go wrong, results that carry such a fault, and generic lemmas on words and lists.

  \<^item> A byte is a HOL \<open>char\<close>, so that string literals can be used for C strings.
  \<^item> \<open>uint8_t\<close>, \<open>uint32_t\<close>, \<open>int\<close>, \<open>size_t\<close>, \<open>ssize_t\<close>, \<open>loff_t\<close> and \<open>long\<close> are words of
    8, 32 or 64 bits (the targets of the repository are 64-bit Linux). Signed values
    are read with \<open>sint\<close>; a negative error code such as \<open>-EINVAL\<close> is a negated word.
  \<^item> A pointer to dynamic memory is \<open>None\<close> (NULL) or \<open>Some\<close> block number; a heap maps
    the block numbers in use to their contents.
  \<^item> \<open>fault\<close> lists the undefined or unrecoverable behaviour the model makes visible.
\<close>

section \<open>Machine types\<close>

type_synonym byte = char
type_synonym u8 = "8 word"
type_synonym u32 = "32 word"
type_synonym cint = "32 word"
type_synonym size_t = "64 word"
type_synonym ssize_t = "64 word"
type_synonym loff_t = "64 word"
type_synonym ptr = "nat option"
type_synonym heap = "nat \<rightharpoonup> byte list"

abbreviation NL :: byte where
  "NL \<equiv> CHR 0x0A"

section \<open>Faults and results\<close>

datatype fault =
    NullDeref        \<comment> \<open>a NULL pointer is dereferenced\<close>
  | UseAfterFree     \<comment> \<open>a block that is not allocated is accessed\<close>
  | BadFree          \<comment> \<open>a block that is not allocated is freed\<close>
  | OutOfBounds      \<comment> \<open>an access outside an array or a block\<close>
  | SelfDeadlock     \<comment> \<open>a thread waits for a mutex it holds itself\<close>
  | Exit int         \<comment> \<open>the process ends with this status\<close>

type_synonym 'a res = "fault + 'a"

definition bindR :: "'a res \<Rightarrow> ('a \<Rightarrow> 'b res) \<Rightarrow> 'b res" where
  "bindR r f = (case r of Inl e \<Rightarrow> Inl e | Inr x \<Rightarrow> f x)"

lemma bindR_simps [simp]:
  "bindR (Inl e) f = Inl e"
  "bindR (Inr x) f = f x"
  by (simp_all add: bindR_def)

lemma bindR_Inr_iff: "bindR r f = Inr y \<longleftrightarrow> (\<exists>x. r = Inr x \<and> f x = Inr y)"
  by (cases r) auto

lemma bindR_cong [fundef_cong]:
  "r = r' \<Longrightarrow> (\<And>x. r' = Inr x \<Longrightarrow> f x = g x) \<Longrightarrow> bindR r f = bindR r' g"
  by (cases r') auto

text \<open>Running an operation that returns a value over a list of arguments.\<close>

fun runR :: "('s \<Rightarrow> 'e \<Rightarrow> ('s \<times> 'r) res) \<Rightarrow> 's \<Rightarrow> 'e list \<Rightarrow> ('s \<times> 'r list) res" where
  "runR f s [] = Inr (s, [])"
| "runR f s (x # xs) =
     bindR (f s x) (\<lambda>(s1, r). bindR (runR f s1 xs) (\<lambda>(s2, rs). Inr (s2, r # rs)))"

section \<open>Calls that may not return\<close>

text \<open>\<open>None\<close> is a call that does not return, \<open>Some\<close> one that ends with a fault or a result.\<close>

type_synonym 'a call = "'a res option"

definition bindO :: "'a call \<Rightarrow> ('a \<Rightarrow> 'b call) \<Rightarrow> 'b call" where
  "bindO m f = Option.bind m (\<lambda>r. case r of Inl e \<Rightarrow> Some (Inl e) | Inr x \<Rightarrow> f x)"

lemma bindO_simps [simp]:
  "bindO None f = None"
  "bindO (Some (Inl e)) f = Some (Inl e)"
  "bindO (Some (Inr x)) f = f x"
  by (simp_all add: bindO_def)

lemma bindO_mono [partial_function_mono]:
  assumes "mono_option m" and "\<And>y. mono_option (\<lambda>g. f y g)"
  shows "mono_option (\<lambda>g. bindO (m g) (\<lambda>y. f y g))"
  unfolding bindO_def
proof (rule bind_mono [OF assms(1)])
  show "mono_option (\<lambda>g. case r of Inl e \<Rightarrow> Some (Inl e) | Inr x \<Rightarrow> f x g)" for r
    by (cases r) (simp_all add: assms(2) option.const_mono)
qed

lemma bindO_Inr_iff: "bindO m f = Some (Inr y) \<longleftrightarrow> (\<exists>x. m = Some (Inr x) \<and> f x = Some (Inr y))"
  by (cases m; cases "the m") auto

text \<open>Running an operation over a list of arguments.\<close>

fun run_calls :: "('o \<Rightarrow> 's \<Rightarrow> 's call) \<Rightarrow> 'o list \<Rightarrow> 's \<Rightarrow> 's call" where
  "run_calls step [] s = Some (Inr s)"
| "run_calls step (p # ps) s = bindO (step p s) (run_calls step ps)"

lemma bindO_cong [fundef_cong]:
  "m = m' \<Longrightarrow> (\<And>x. m' = Some (Inr x) \<Longrightarrow> f x = g x) \<Longrightarrow> bindO m f = bindO m' g"
  by (cases m'; cases "the m'") (auto simp: bindO_def)

lemma run_calls_append: "run_calls step (ps @ qs) s = bindO (run_calls step ps s) (run_calls step qs)"
proof (induction ps arbitrary: s)
  case (Cons p ps)
  then show ?case by (cases "step p s"; cases "the (step p s)") simp_all
qed simp

section \<open>Lists\<close>

definition keep_last :: "nat \<Rightarrow> 'a list \<Rightarrow> 'a list" where
  "keep_last n xs = drop (length xs - n) xs"

lemma length_keep_last [simp]: "length (keep_last n xs) = min n (length xs)"
  by (simp add: keep_last_def)

lemma keep_last_Nil [simp]: "keep_last n [] = []"
  by (simp add: keep_last_def)

lemma keep_last_small: "length xs \<le> n \<Longrightarrow> keep_last n xs = xs"
  by (simp add: keep_last_def)

lemma keep_last_append: "keep_last n (keep_last n xs @ ys) = keep_last n (xs @ ys)"
proof (cases "n \<le> length xs")
  case True
  have "length ys + (length xs - n) = length xs + length ys - n"
    using True by simp
  with True show ?thesis
    by (simp only: keep_last_def length_append length_drop drop_append drop_drop) simp
next
  case False
  then show ?thesis by (simp add: keep_last_small)
qed

lemma keep_last_snoc_full: "length xs = n \<Longrightarrow> 0 < n \<Longrightarrow> keep_last n (xs @ [x]) = tl xs @ [x]"
  by (simp add: keep_last_def drop_Suc)

lemma map_keep_last: "map f (keep_last n xs) = keep_last n (map f xs)"
  by (simp add: keep_last_def drop_map)

lemma set_keep_last: "set (keep_last n xs) \<subseteq> set xs"
  by (simp add: keep_last_def set_drop_subset)

lemma rotate_overwrite:
  assumes "i < length xs"
  shows "rotate (Suc i) (xs[i := e]) = tl (rotate i xs) @ [e]"
proof -
  have "rotate i (xs[i := e]) = e # drop (Suc i) xs @ take i xs"
    using assms by (simp add: rotate_drop_take Cons_nth_drop_Suc [symmetric])
  moreover have "rotate i xs = xs ! i # drop (Suc i) xs @ take i xs"
    using assms by (simp add: rotate_drop_take Cons_nth_drop_Suc)
  ultimately show ?thesis by simp
qed

lemma take_Suc_update: "i < length xs \<Longrightarrow> take (Suc i) (xs[i := e]) = take i xs @ [e]"
  by (simp add: take_Suc_conv_app_nth)

lemma sum_take_le: "sum_list (take n xs) \<le> sum_list (xs :: nat list)"
  by (metis append_take_drop_id le_add1 sum_list_append)

lemma sum_take_Suc: "n < length xs \<Longrightarrow> sum_list (take (Suc n) xs) = sum_list (take n xs) + (xs ! n :: nat)"
  by (simp add: take_Suc_conv_app_nth)

text \<open>Where the \<open>n\<close>-th element of a concatenation lies, given the lengths of the parts.\<close>

fun locate :: "nat list \<Rightarrow> nat \<Rightarrow> (nat \<times> nat) option" where
  "locate [] n = None"
| "locate (s # ss) n =
     (if n < s then Some (0, n) else map_option (apfst Suc) (locate ss (n - s)))"

lemma locate_None_iff: "locate ss n = None \<longleftrightarrow> sum_list ss \<le> n"
  by (induction ss n rule: locate.induct) auto

lemma locate_SomeD:
  "locate ss n = Some (i, k) \<Longrightarrow> i < length ss \<and> k < ss ! i \<and> n = sum_list (take i ss) + k"
  by (induction ss n arbitrary: i rule: locate.induct) (fastforce split: if_splits)+

lemma locate_SomeI:
  "i < length ss \<Longrightarrow> k < ss ! i \<Longrightarrow> locate ss (sum_list (take i ss) + k) = Some (i, k)"
proof (induction ss arbitrary: i)
  case Nil
  then show ?case by simp
next
  case (Cons s ss)
  show ?case
  proof (cases i)
    case 0
    with Cons.prems show ?thesis by simp
  next
    case (Suc j)
    with Cons.prems have "locate ss (sum_list (take j ss) + k) = Some (j, k)"
      by (intro Cons.IH) auto
    with Suc show ?thesis by simp
  qed
qed

lemma locate_append_zeros: "locate (ss @ replicate m 0) n = locate ss n"
proof (induction ss n rule: locate.induct)
  case (1 n)
  show ?case by (induction m) auto
qed auto

lemma drop_concat_locate:
  "locate (map length bs) n = Some (i, k) \<Longrightarrow>
     drop n (concat bs) = drop k (bs ! i) @ concat (drop (Suc i) bs)"
proof (induction bs arbitrary: n i)
  case Nil
  then show ?case by simp
next
  case (Cons b bs)
  then show ?case by (cases "n < length b") auto
qed

section \<open>Words\<close>

lemma unat_of_nat_64: "n < 2 ^ 64 \<Longrightarrow> unat (of_nat n :: 64 word) = n"
  by (simp add: unat_of_nat)

lemma of_nat_le_64: "n < 2 ^ 64 \<Longrightarrow> (of_nat n \<le> (w :: 64 word)) \<longleftrightarrow> n \<le> unat w"
  by (simp add: word_le_nat_alt unat_of_nat_64)

lemma of_nat_unat_id: "of_nat (unat w) = (w :: 'a :: len word)"
  by simp

lemma unat_less_8: "unat (w :: 8 word) < 256"
  using unsigned_less [of w] by simp

lemma unat_less_32: "unat (w :: 32 word) < 2 ^ 32"
  using unsigned_less [of w] by simp

lemma unat_less_64: "unat (w :: 64 word) < 2 ^ 64"
  using unsigned_less [of w] by simp

lemma unat_ucast_8_64 [simp]: "unat (ucast (w :: 8 word) :: 64 word) = unat w"
  using unat_less_8 [of w] by (simp add: unsigned_ucast_eq take_bit_nat_eq_self)

lemma unat_ucast_32_64 [simp]: "unat (ucast (w :: 32 word) :: 64 word) = unat w"
  using unat_less_32 [of w] by (simp add: unsigned_ucast_eq take_bit_nat_eq_self)

lemma unat_ucast_64_32: "unat (w :: 64 word) < 2 ^ 32 \<Longrightarrow> unat (ucast w :: 32 word) = unat w"
  by (simp add: unsigned_ucast_eq take_bit_nat_eq_self)

lemma unat_ucast_64_8: "unat (w :: 64 word) < 256 \<Longrightarrow> unat (ucast w :: 8 word) = unat w"
  by (simp add: unsigned_ucast_eq take_bit_nat_eq_self)

lemma unat_of_nat_8: "n < 256 \<Longrightarrow> unat (of_nat n :: 8 word) = n"
  by (simp add: unat_of_nat)

lemma unat_add_64:
  "unat x + unat y < 2 ^ 64 \<Longrightarrow> unat (x + y :: 64 word) = unat x + unat y"
  by (simp add: unat_word_ariths)

lemma sint_eq_unat_32:
  assumes "unat (x :: 32 word) < 2 ^ 31"
  shows "sint x = int (unat x)"
proof -
  have "int (unat x) < int (2 ^ 31)"
    using assms by (simp only: of_nat_less_iff)
  then have "uint x < 2 ^ 31" by simp
  moreover have "- (2 ^ 31) \<le> uint x"
    by (rule order_trans [of _ 0]) simp_all
  ultimately have "signed_take_bit 31 (uint x) = uint x"
    by (intro signed_take_bit_int_eq_self)
  then show ?thesis by (simp add: sint_uint)
qed

lemma sint_eq_unat_64:
  assumes "unat (x :: 64 word) < 2 ^ 63"
  shows "sint x = int (unat x)"
proof -
  have "int (unat x) < int (2 ^ 63)"
    using assms by (simp only: of_nat_less_iff)
  then have "uint x < 2 ^ 63" by simp
  moreover have "- (2 ^ 63) \<le> uint x"
    by (rule order_trans [of _ 0]) simp_all
  ultimately have "signed_take_bit 63 (uint x) = uint x"
    by (intro signed_take_bit_int_eq_self)
  then show ?thesis by (simp add: sint_uint)
qed

lemma unat_Suc_8: "unat (x :: 8 word) < 255 \<Longrightarrow> unat (x + 1) = Suc (unat x)"
  by (simp add: unat_word_ariths)

lemma unat_Suc_64: "x < (y :: 64 word) \<Longrightarrow> unat (x + 1) = Suc (unat x)"
  using unat_less_64 [of y] by (simp add: unat_word_ariths word_less_nat_alt)

end
