(* ===== verification/Circular_Buffer.thy ===== *)
theory Circular_Buffer
  imports Prelude
begin

text \<open>
  The circular buffer of \<open>aesd-char-driver/aesd-circular-buffer.c\<close> and \<open>.h\<close>: ten slots
  for the most recent write operations. The structs are records, the array \<open>entry\<close> is a
  list (of length ten, see \<open>cb_inv\<close>), a pointer to a slot is its index in the array.
  The operations are proved against the list of live entries, oldest first
  (\<open>cb_items\<close>); the interface the device relies on is the locale \<open>bounded_log\<close>.
\<close>

section \<open>Data\<close>

definition AESDCHAR_MAX_WRITE_OPERATIONS_SUPPORTED :: nat where
  "AESDCHAR_MAX_WRITE_OPERATIONS_SUPPORTED = 10"

record aesd_buffer_entry =
  buffptr :: ptr
  esize :: size_t

record aesd_circular_buffer =
  entry :: "aesd_buffer_entry list"
  in_offs :: u8
  out_offs :: u8
  full :: bool

section \<open>Operations\<close>

definition get_entry_at_virtual_offset :: "aesd_circular_buffer \<Rightarrow> u8 \<Rightarrow> nat" where
  "get_entry_at_virtual_offset buffer voffset =
     (let offset = (ucast (out_offs buffer) :: size_t);
          offset = offset + ucast voffset;
          offset = offset mod of_nat AESDCHAR_MAX_WRITE_OPERATIONS_SUPPORTED
      in unat offset)"

text \<open>The number of entries both summing loops visit.\<close>

definition num_entries :: "aesd_circular_buffer \<Rightarrow> size_t" where
  "num_entries buffer =
     (if full buffer then of_nat AESDCHAR_MAX_WRITE_OPERATIONS_SUPPORTED
      else ucast (in_offs buffer))"

text \<open>
  The body shared by the two loops that add up entry sizes from position \<open>pos\<close> to
  \<open>bound\<close>. The counter stays at or below \<open>bound\<close>, which is at most 255 in one loop and
  was checked against the number of entries in the other, so it never wraps.
\<close>

function sum_sizes_loop :: "aesd_circular_buffer \<Rightarrow> nat \<Rightarrow> nat \<Rightarrow> size_t \<Rightarrow> size_t" where
  "sum_sizes_loop buffer bound pos retVal =
     (if pos < bound
      then sum_sizes_loop buffer bound (Suc pos)
             (retVal + esize (entry buffer ! get_entry_at_virtual_offset buffer (of_nat pos)))
      else retVal)"
  by pat_completeness auto
termination
  by (relation "measure (\<lambda>(b, bound, pos, r). bound - pos)") auto

declare sum_sizes_loop.simps [simp del]

definition aesd_circular_buffer_get_size :: "aesd_circular_buffer \<Rightarrow> size_t" where
  "aesd_circular_buffer_get_size buffer = sum_sizes_loop buffer (unat (num_entries buffer)) 0 0"

definition aesd_circular_buffer_find_fpos_for_virtual_entry_offset ::
    "aesd_circular_buffer \<Rightarrow> size_t \<Rightarrow> cint" where
  "aesd_circular_buffer_find_fpos_for_virtual_entry_offset buffer entryOffset =
     (if entryOffset > num_entries buffer then -1
      else ucast (sum_sizes_loop buffer (unat entryOffset) 0 0))"

text \<open>The argument is a \<open>size_t\<close>, the parameter it is passed to a \<open>uint8_t\<close>.\<close>

definition aesd_circular_buffer_find_entry_at_position ::
    "aesd_circular_buffer \<Rightarrow> size_t \<Rightarrow> nat" where
  "aesd_circular_buffer_find_entry_at_position buffer pos =
     get_entry_at_virtual_offset buffer (ucast pos)"

text \<open>The search loop: returns the final \<open>entryOffset\<close> and \<open>totalPassed\<close>.\<close>

function find_loop :: "aesd_circular_buffer \<Rightarrow> size_t \<Rightarrow> u8 \<Rightarrow> size_t \<Rightarrow> u8 \<times> size_t" where
  "find_loop buffer char_offset entryOffset totalPassed =
     (if totalPassed \<le> char_offset
         \<and> entryOffset < of_nat AESDCHAR_MAX_WRITE_OPERATIONS_SUPPORTED
      then find_loop buffer char_offset (entryOffset + 1)
             (totalPassed + esize (entry buffer ! get_entry_at_virtual_offset buffer entryOffset))
      else (entryOffset, totalPassed))"
  by pat_completeness auto
termination
  by (relation "measure (\<lambda>(b, c, eo, t). 10 - unat eo)")
     (auto simp: AESDCHAR_MAX_WRITE_OPERATIONS_SUPPORTED_def word_less_nat_alt unat_Suc_8)

declare find_loop.simps [simp del]

text \<open>\<open>None\<close> is the NULL result; otherwise the slot and \<open>*entry_offset_byte_rtn\<close>.\<close>

definition aesd_circular_buffer_find_entry_offset_for_fpos ::
    "aesd_circular_buffer \<Rightarrow> size_t \<Rightarrow> (nat \<times> size_t) option" where
  "aesd_circular_buffer_find_entry_offset_for_fpos buffer char_offset =
     (let inAndOutSame = (in_offs buffer = out_offs buffer) in
      if inAndOutSame \<and> \<not> full buffer then None
      else
        (let (entryOffset, totalPassed) = find_loop buffer char_offset 0 0 in
         if totalPassed \<le> char_offset then None
         else
           (let e = get_entry_at_virtual_offset buffer (entryOffset - 1);
                totalPassed = totalPassed - esize (entry buffer ! e)
            in Some (e, char_offset - totalPassed))))"

text \<open>
  Returns the new buffer and the pointer of the overwritten slot. Writing the array at an
  index that is out of range is undefined in C.
\<close>

definition aesd_circular_buffer_add_entry ::
    "aesd_circular_buffer \<Rightarrow> aesd_buffer_entry \<Rightarrow> (aesd_circular_buffer \<times> ptr) res" where
  "aesd_circular_buffer_add_entry buffer add_entry =
     (if \<not> unat (in_offs buffer) < length (entry buffer) then Inl OutOfBounds
      else
        (let retVal = buffptr (entry buffer ! unat (in_offs buffer));
             buffer = buffer\<lparr>entry := (entry buffer)[unat (in_offs buffer) := add_entry]\<rparr>;
             buffer = buffer\<lparr>in_offs := in_offs buffer + 1\<rparr>;
             buffer = (if in_offs buffer = of_nat AESDCHAR_MAX_WRITE_OPERATIONS_SUPPORTED
                       then buffer\<lparr>in_offs := 0\<rparr> else buffer);
             buffer = (if full buffer
                       then buffer\<lparr>out_offs := in_offs buffer\<rparr>
                       else buffer\<lparr>full := (in_offs buffer = out_offs buffer)\<rparr>)
         in Inr (buffer, retVal)))"

definition zero_entry :: aesd_buffer_entry where
  "zero_entry = \<lparr>buffptr = None, esize = 0\<rparr>"

text \<open>\<open>memset\<close> of the whole struct to zero.\<close>

definition aesd_circular_buffer_init :: "aesd_circular_buffer" where
  "aesd_circular_buffer_init =
     \<lparr>entry = replicate AESDCHAR_MAX_WRITE_OPERATIONS_SUPPORTED zero_entry,
      in_offs = 0, out_offs = 0, full = False\<rparr>"

section \<open>Invariant and abstraction\<close>

definition cb_inv :: "aesd_circular_buffer \<Rightarrow> bool" where
  "cb_inv b \<longleftrightarrow>
     length (entry b) = 10 \<and> unat (in_offs b) < 10 \<and> unat (out_offs b) < 10 \<and>
     (if full b then in_offs b = out_offs b
      else out_offs b = 0 \<and> drop (unat (in_offs b)) (entry b)
                             = replicate (10 - unat (in_offs b)) zero_entry)"

text \<open>The array read from the oldest slot on, and its live part.\<close>

definition cb_slots :: "aesd_circular_buffer \<Rightarrow> aesd_buffer_entry list" where
  "cb_slots b = rotate (unat (out_offs b)) (entry b)"

definition cb_items :: "aesd_circular_buffer \<Rightarrow> aesd_buffer_entry list" where
  "cb_items b = take (if full b then 10 else unat (in_offs b)) (cb_slots b)"

abbreviation item_sizes :: "aesd_buffer_entry list \<Rightarrow> nat list" where
  "item_sizes es \<equiv> map (\<lambda>e. unat (esize e)) es"

text \<open>The sizes add up to less than \<open>2 ^ 64\<close>, so that positions do not wrap.\<close>

definition cb_fits :: "aesd_circular_buffer \<Rightarrow> bool" where
  "cb_fits b \<longleftrightarrow> sum_list (item_sizes (cb_items b)) < 2 ^ 64"

section \<open>Slots\<close>

lemma cb_inv_length: "cb_inv b \<Longrightarrow> length (entry b) = 10"
  by (simp add: cb_inv_def)

lemma length_cb_slots: "cb_inv b \<Longrightarrow> length (cb_slots b) = 10"
  by (simp add: cb_inv_def cb_slots_def)

lemma length_cb_items:
  "cb_inv b \<Longrightarrow> length (cb_items b) = (if full b then 10 else unat (in_offs b))"
  by (auto simp: cb_items_def length_cb_slots cb_inv_def)

lemma length_cb_items_le: "cb_inv b \<Longrightarrow> length (cb_items b) \<le> 10"
  by (auto simp: length_cb_items cb_inv_def)

lemma unat_num_entries: "cb_inv b \<Longrightarrow> unat (num_entries b) = length (cb_items b)"
  by (auto simp: num_entries_def length_cb_items AESDCHAR_MAX_WRITE_OPERATIONS_SUPPORTED_def)

lemma get_entry_nat:
  "get_entry_at_virtual_offset b v = (unat (out_offs b) + unat v) mod 10"
proof -
  have "unat (out_offs b) + unat v < 2 ^ 64"
    using unat_less_8 [of "out_offs b"] unat_less_8 [of v] by simp
  then show ?thesis
    by (simp add: get_entry_at_virtual_offset_def AESDCHAR_MAX_WRITE_OPERATIONS_SUPPORTED_def
        unat_mod unat_add_64)
qed

lemma get_entry_less [simp]: "get_entry_at_virtual_offset b v < 10"
  by (simp add: get_entry_nat)

lemma entry_at_virtual:
  "cb_inv b \<Longrightarrow> unat v < 10 \<Longrightarrow> entry b ! get_entry_at_virtual_offset b v = cb_slots b ! unat v"
  by (simp add: get_entry_nat cb_slots_def nth_rotate cb_inv_length)

lemma slots_decompose:
  assumes "cb_inv b"
  shows "cb_slots b = cb_items b @ replicate (10 - length (cb_items b)) zero_entry"
proof (cases "full b")
  case True
  with assms show ?thesis by (simp add: cb_items_def length_cb_slots)
next
  case False
  with assms have "cb_slots b = entry b" and
    d: "drop (unat (in_offs b)) (entry b) = replicate (10 - unat (in_offs b)) zero_entry"
    by (simp_all add: cb_inv_def cb_slots_def)
  then show ?thesis
    using False assms by (metis append_take_drop_id cb_items_def length_cb_items)
qed

lemma item_nth:
  "cb_inv b \<Longrightarrow> i < length (cb_items b) \<Longrightarrow> cb_slots b ! i = cb_items b ! i"
  by (simp add: slots_decompose nth_append)

lemma sizes_slots:
  "cb_inv b \<Longrightarrow> item_sizes (cb_slots b)
     = item_sizes (cb_items b) @ replicate (10 - length (cb_items b)) 0"
  by (simp add: slots_decompose [of b] zero_entry_def)


section \<open>Sizes and positions\<close>

lemma sum_items_prefix:
  "cb_inv b \<Longrightarrow> k \<le> 10 \<Longrightarrow>
     sum_list (take k (item_sizes (cb_slots b))) = sum_list (take k (item_sizes (cb_items b)))"
  by (simp add: sizes_slots sum_list_replicate)

lemma unat_add_sizes:
  assumes "cb_inv b" "cb_fits b" "k < 10"
    and t: "unat t = sum_list (take k (item_sizes (cb_slots b)))"
  shows "unat (t + esize (cb_slots b ! k)) = sum_list (take (Suc k) (item_sizes (cb_slots b)))"
proof -
  let ?ss = "item_sizes (cb_slots b)"
  have "sum_list (take (Suc k) ?ss) = unat t + unat (esize (cb_slots b ! k))"
    using assms by (simp add: sum_take_Suc length_cb_slots)
  moreover have "sum_list (take (Suc k) ?ss) < 2 ^ 64"
    using assms sum_take_le [of "Suc k" "item_sizes (cb_items b)"]
    by (simp add: sum_items_prefix cb_fits_def del: take_Suc)
  ultimately show ?thesis by (simp add: unat_add_64)
qed

lemma sum_sizes_loop_sum:
  "cb_inv b \<Longrightarrow> cb_fits b \<Longrightarrow> pos \<le> bound \<Longrightarrow> bound \<le> 10 \<Longrightarrow>
     unat r = sum_list (take pos (item_sizes (cb_slots b))) \<Longrightarrow>
     unat (sum_sizes_loop b bound pos r) = sum_list (take bound (item_sizes (cb_slots b)))"
proof (induction b bound pos r rule: sum_sizes_loop.induct)
  case (1 b bound pos r)
  show ?case
  proof (cases "pos < bound")
    case True
    have slot: "entry b ! get_entry_at_virtual_offset b (of_nat pos) = cb_slots b ! pos"
      using True "1.prems" by (simp add: entry_at_virtual unat_of_nat_8)
    have "unat (r + esize (cb_slots b ! pos)) = sum_list (take (Suc pos) (item_sizes (cb_slots b)))"
      using True "1.prems" by (intro unat_add_sizes) auto
    with True "1.prems" "1.IH" show ?thesis
      by (simp add: sum_sizes_loop.simps [of b bound pos r] slot)
  next
    case False
    with "1.prems" show ?thesis by (subst sum_sizes_loop.simps) simp
  qed
qed

lemma get_size_sum:
  assumes "cb_inv b" "cb_fits b"
  shows "unat (aesd_circular_buffer_get_size b) = sum_list (item_sizes (cb_items b))"
  using assms length_cb_items_le [of b]
  by (simp add: aesd_circular_buffer_get_size_def sum_sizes_loop_sum unat_num_entries
      sum_items_prefix)

lemma find_fpos_sum:
  assumes "cb_inv b" "cb_fits b" "unat k \<le> length (cb_items b)"
    and "sum_list (item_sizes (cb_items b)) < 2 ^ 32"
  shows "unat (aesd_circular_buffer_find_fpos_for_virtual_entry_offset b k)
           = sum_list (take (unat k) (item_sizes (cb_items b)))"
proof -
  let ?r = "sum_sizes_loop b (unat k) 0 0"
  have le: "unat k \<le> 10"
    using assms length_cb_items_le [of b] by simp
  then have r: "unat ?r = sum_list (take (unat k) (item_sizes (cb_items b)))"
    using assms by (simp add: sum_sizes_loop_sum sum_items_prefix)
  also have "\<dots> < 2 ^ 32"
    using assms(4) sum_take_le [of "unat k" "item_sizes (cb_items b)"] by simp
  finally have "unat (ucast ?r :: 32 word) = unat ?r"
    by (simp add: unat_ucast_64_32)
  moreover have "\<not> k > num_entries b"
    using assms by (simp add: word_less_nat_alt unat_num_entries)
  ultimately show ?thesis
    by (simp add: aesd_circular_buffer_find_fpos_for_virtual_entry_offset_def r)
qed

lemma find_fpos_invalid:
  "cb_inv b \<Longrightarrow> length (cb_items b) < unat k \<Longrightarrow>
     aesd_circular_buffer_find_fpos_for_virtual_entry_offset b k = -1"
  by (simp add: aesd_circular_buffer_find_fpos_for_virtual_entry_offset_def word_less_nat_alt
      unat_num_entries)

section \<open>Search\<close>

lemma find_loop_locate:
  "cb_inv b \<Longrightarrow> cb_fits b \<Longrightarrow> unat eo \<le> 10 \<Longrightarrow> t \<le> c \<Longrightarrow>
     unat t = sum_list (take (unat eo) (item_sizes (cb_slots b))) \<Longrightarrow>
     (case locate (drop (unat eo) (item_sizes (cb_slots b))) (unat c - unat t) of
        None \<Rightarrow> snd (find_loop b c eo t) \<le> c
      | Some (i, k) \<Rightarrow>
          unat (fst (find_loop b c eo t)) = unat eo + Suc i \<and>
          unat (snd (find_loop b c eo t)) = unat c - k + unat (esize (cb_slots b ! (unat eo + i))))"
proof (induction b c eo t rule: find_loop.induct)
  case (1 b c eo t)
  note inv = "1.prems"
  let ?ss = "item_sizes (cb_slots b)"
  let ?s = "esize (cb_slots b ! unat eo)"
  show ?case
  proof (cases "unat eo < 10")
    case False
    with inv show ?thesis
      by (simp add: find_loop.simps [of b c eo t] length_cb_slots word_less_nat_alt
          AESDCHAR_MAX_WRITE_OPERATIONS_SUPPORTED_def)
  next
    case True
    then have eo: "unat (eo + 1) = Suc (unat eo)" by (simp add: unat_Suc_8)
    have slot: "entry b ! get_entry_at_virtual_offset b eo = cb_slots b ! unat eo"
      using True inv by (simp add: entry_at_virtual)
    have loop: "find_loop b c eo t = find_loop b c (eo + 1) (t + ?s)"
      using True inv by (simp add: find_loop.simps [of b c eo t] slot word_less_nat_alt
          AESDCHAR_MAX_WRITE_OPERATIONS_SUPPORTED_def)
    have sum: "unat (t + ?s) = sum_list (take (unat (eo + 1)) ?ss)"
      using True inv eo by (simp add: unat_add_sizes)
    have len: "unat eo < length ?ss"
      using True inv by (simp add: length_cb_slots)
    have tot: "unat (t + ?s) = unat t + unat ?s"
      using sum inv len eo by (simp add: sum_take_Suc)
    have dr: "drop (unat eo) ?ss = unat ?s # drop (unat (eo + 1)) ?ss"
      using len eo by (simp add: Cons_nth_drop_Suc [symmetric])
    show ?thesis
    proof (cases "t + ?s \<le> c")
      case False
      then have lt: "unat c - unat t < unat ?s"
        using tot inv(4) unfolding word_le_nat_alt by linarith
      from False have "find_loop b c (eo + 1) (t + ?s) = (eo + 1, t + ?s)"
        by (simp add: find_loop.simps [of b c "eo + 1"])
      with lt inv show ?thesis
        by (simp add: loop dr eo tot word_le_nat_alt)
    next
      case le: True
      have diff: "unat c - unat t - unat ?s = unat c - unat (t + ?s)"
        using tot by simp
      have nl: "\<not> unat c - unat t < unat ?s"
        using le tot by (simp add: word_le_nat_alt)
      have "case locate (drop (unat (eo + 1)) ?ss) (unat c - unat (t + ?s)) of
          None \<Rightarrow> snd (find_loop b c (eo + 1) (t + ?s)) \<le> c
        | Some (i, k) \<Rightarrow>
            unat (fst (find_loop b c (eo + 1) (t + ?s))) = unat (eo + 1) + Suc i \<and>
            unat (snd (find_loop b c (eo + 1) (t + ?s)))
              = unat c - k + unat (esize (cb_slots b ! (unat (eo + 1) + i)))"
        using "1.IH" [unfolded slot] True inv le sum eo
        by (simp add: word_less_nat_alt AESDCHAR_MAX_WRITE_OPERATIONS_SUPPORTED_def)
      then show ?thesis
        by (auto simp: loop dr nl diff eo tot split: option.splits)
    qed
  qed
qed

text \<open>The search computes \<open>locate\<close> on the sizes of the live entries.\<close>

lemma find_entry_locate:
  assumes inv: "cb_inv b" "cb_fits b"
  shows "aesd_circular_buffer_find_entry_offset_for_fpos b c =
    map_option (\<lambda>(i, k). (get_entry_at_virtual_offset b (of_nat i), of_nat k))
      (locate (item_sizes (cb_items b)) (unat c))"
proof (cases "in_offs b = out_offs b \<and> \<not> full b")
  case True
  with inv have "cb_items b = []"
    by (simp add: cb_items_def cb_inv_def)
  with True show ?thesis
    by (simp add: aesd_circular_buffer_find_entry_offset_for_fpos_def)
next
  case False
  obtain eo tot where loop: "find_loop b c 0 0 = (eo, tot)" by (cases "find_loop b c 0 0")
  have loc: "locate (item_sizes (cb_slots b)) (unat c) = locate (item_sizes (cb_items b)) (unat c)"
    using inv by (simp add: sizes_slots locate_append_zeros)
  have spec: "case locate (item_sizes (cb_items b)) (unat c) of
      None \<Rightarrow> tot \<le> c
    | Some (i, k) \<Rightarrow> unat eo = Suc i \<and> unat tot = unat c - k + unat (esize (cb_slots b ! i))"
    using find_loop_locate [OF inv, of 0 0 c] by (auto simp: loop loc split: option.splits)
  show ?thesis
  proof (cases "locate (item_sizes (cb_items b)) (unat c)")
    case None
    with spec False show ?thesis
      by (simp add: aesd_circular_buffer_find_entry_offset_for_fpos_def loop)
  next
    case (Some ik)
    obtain i k where ik: "ik = (i, k)" by (cases ik)
    have at: "i < length (cb_items b)" "k < unat (esize (cb_items b ! i))"
      "unat c = sum_list (take i (item_sizes (cb_items b))) + k"
      using locate_SomeD [OF Some [unfolded ik]] by auto
    then have i: "i < 10" using length_cb_items_le [OF inv(1)] by simp
    let ?s = "esize (cb_slots b ! i)"
    from Some ik spec have eo: "unat eo = Suc i" and tot: "unat tot = unat c - k + unat ?s"
      by auto
    have "eo - 1 = of_nat i"
      using eo i by (metis add_diff_cancel_right' of_nat_Suc of_nat_unat_id add.commute)
    moreover have "unat tot > unat c"
      using tot at item_nth [OF inv(1) at(1)] by simp
    moreover have "c - (tot - ?s) = of_nat k"
    proof -
      have "tot = of_nat (unat c - k) + ?s"
        using tot by (metis of_nat_add of_nat_unat_id)
      moreover have "c = of_nat (unat c - k) + of_nat k"
        using at by (metis le_add2 le_add_diff_inverse2 of_nat_add of_nat_unat_id)
      ultimately show ?thesis by (metis add_diff_cancel_left' add_diff_cancel_right')
    qed
    moreover have "entry b ! get_entry_at_virtual_offset b (of_nat i) = cb_slots b ! i"
      using i inv by (simp add: entry_at_virtual unat_of_nat_8)
    ultimately show ?thesis
      using Some ik False
      by (simp add: aesd_circular_buffer_find_entry_offset_for_fpos_def loop word_le_nat_alt)
  qed
qed

section \<open>Adding entries\<close>

lemma cb_inv_init: "cb_inv aesd_circular_buffer_init"
  by (simp add: cb_inv_def aesd_circular_buffer_init_def AESDCHAR_MAX_WRITE_OPERATIONS_SUPPORTED_def)

lemma cb_items_init: "cb_items aesd_circular_buffer_init = []"
  by (simp add: cb_items_def aesd_circular_buffer_init_def)

lemma in_offs_wrap:
  assumes "unat (i :: u8) < 10"
  shows "unat (if i + 1 = 10 then 0 else i + 1) = Suc (unat i) mod 10"
proof -
  have "i + 1 = 10 \<longleftrightarrow> unat i = 9"
    using assms by (simp add: word_unat_eq_iff unat_Suc_8)
  with assms show ?thesis by (simp add: unat_Suc_8)
qed

lemma in_offs_wrap_0:
  assumes "unat (i :: u8) < 10"
  shows "(if i + 1 = 10 then 0 else i + 1) = 0 \<longleftrightarrow> unat i = 9"
proof -
  define j where "j = (if i + 1 = 10 then 0 else i + 1)"
  have "unat j = Suc (unat i) mod 10"
    unfolding j_def by (rule in_offs_wrap [OF assms])
  moreover have "Suc (unat i) mod 10 = 0 \<longleftrightarrow> unat i = 9"
    using assms by presburger
  ultimately have "j = 0 \<longleftrightarrow> unat i = 9"
    by (simp flip: unat_0_iff)
  then show ?thesis unfolding j_def .
qed

definition ring_evicts :: "aesd_circular_buffer \<Rightarrow> ptr" where
  "ring_evicts b = (if full b then buffptr (hd (cb_items b)) else None)"

lemma add_entry_full:
  assumes inv: "cb_inv b" and full: "full b"
  shows "\<exists>b'. aesd_circular_buffer_add_entry b e = Inr (b', ring_evicts b) \<and> cb_inv b' \<and>
     full b' \<and> cb_items b' = tl (cb_items b) @ [e]"
proof -
  let ?i = "unat (in_offs b)"
  let ?in = "if in_offs b + 1 = 10 then 0 else in_offs b + 1"
  let ?b = "b\<lparr>entry := (entry b)[?i := e], in_offs := ?in, out_offs := ?in\<rparr>"
  have i: "?i < 10" "length (entry b) = 10" and same: "out_offs b = in_offs b"
    using assms by (auto simp: cb_inv_def)
  have un: "unat ?in = Suc ?i mod 10"
    using in_offs_wrap [OF i(1)] .
  have "entry b ! ?i = hd (cb_slots b)"
    using i same by (simp add: cb_slots_def hd_rotate_conv_nth flip: length_0_conv)
  then have "aesd_circular_buffer_add_entry b e = Inr (?b, ring_evicts b)"
    using full i length_cb_slots [OF inv]
    by (simp add: aesd_circular_buffer_add_entry_def AESDCHAR_MAX_WRITE_OPERATIONS_SUPPORTED_def
        ring_evicts_def cb_items_def)
  moreover have "cb_inv ?b"
    using i full un by (simp add: cb_inv_def)
  moreover have "cb_items ?b = tl (cb_items b) @ [e]"
  proof -
    have "cb_items ?b = rotate (Suc ?i mod 10) ((entry b)[?i := e])"
      using full un i by (simp add: cb_items_def cb_slots_def)
    also have "\<dots> = rotate (Suc ?i) ((entry b)[?i := e])"
      using i rotate_conv_mod [of "Suc ?i" "(entry b)[?i := e]"] by simp
    also have "\<dots> = tl (rotate ?i (entry b)) @ [e]"
      using i by (intro rotate_overwrite) simp
    finally show ?thesis
      using full i same by (simp add: cb_items_def cb_slots_def)
  qed
  ultimately show ?thesis using full by auto
qed

lemma add_entry_room:
  assumes inv: "cb_inv b" and room: "\<not> full b"
  shows "\<exists>b'. aesd_circular_buffer_add_entry b e = Inr (b', ring_evicts b) \<and> cb_inv b' \<and>
     cb_items b' = cb_items b @ [e]"
proof -
  let ?i = "unat (in_offs b)"
  let ?in = "if in_offs b + 1 = 10 then 0 else in_offs b + 1"
  let ?b = "b\<lparr>entry := (entry b)[?i := e], in_offs := ?in, full := (?in = 0)\<rparr>"
  have i: "?i < 10" "length (entry b) = 10" and out: "out_offs b = 0"
    and free: "drop ?i (entry b) = replicate (10 - ?i) zero_entry"
    using assms by (auto simp: cb_inv_def)
  have un: "unat ?in = Suc ?i mod 10"
    using in_offs_wrap [OF i(1)] .
  have zero: "?in = 0 \<longleftrightarrow> ?i = 9"
    using in_offs_wrap_0 [OF i(1)] .
  have "entry b ! ?i = zero_entry"
    using free i by (metis diff_is_0_eq hd_drop_conv_nth hd_replicate not_le replicate_empty)
  then have "aesd_circular_buffer_add_entry b e = Inr (?b, ring_evicts b)"
    using room i out
    by (simp add: aesd_circular_buffer_add_entry_def AESDCHAR_MAX_WRITE_OPERATIONS_SUPPORTED_def
        ring_evicts_def zero_entry_def)
  moreover have "cb_items ?b = cb_items b @ [e] \<and> cb_inv ?b"
  proof (cases "?i = 9")
    case True
    with i room out zero take_Suc_update [of 9 "entry b" e] show ?thesis
      by (simp add: cb_items_def cb_slots_def cb_inv_def)
  next
    case False
    with i un zero have "unat ?in = Suc ?i" "?in \<noteq> 0" "?i < 9" by auto
    moreover have "drop (Suc ?i) (entry b) = replicate (9 - ?i) zero_entry"
      using free by (simp add: drop_Suc tl_drop [symmetric])
    ultimately show ?thesis
      using i room out by (simp add: cb_items_def cb_slots_def cb_inv_def take_Suc_update)
  qed
  ultimately show ?thesis by blast
qed

text \<open>
  One statement for both cases: the oldest of ten entries makes room, and its pointer is
  what the caller has to free.
\<close>

lemma add_entry_keep_last:
  assumes "cb_inv b"
  shows "\<exists>b'. aesd_circular_buffer_add_entry b e = Inr (b', ring_evicts b) \<and> cb_inv b' \<and>
     cb_items b' = keep_last 10 (cb_items b @ [e])"
proof (cases "full b")
  case True
  then have "length (cb_items b) = 10"
    using assms by (simp add: length_cb_items)
  then show ?thesis
    using add_entry_full [OF assms True, of e] by (auto simp: keep_last_snoc_full)
next
  case False
  then have "length (cb_items b @ [e]) \<le> 10"
    using assms by (simp add: length_cb_items cb_inv_def)
  then show ?thesis
    using add_entry_room [OF assms False, of e] by (simp add: keep_last_small)
qed

section \<open>The interface of a bounded log\<close>

text \<open>
  What a client of the buffer relies on: an operation \<open>add\<close> that never fails under the
  invariant, keeps the last \<open>cap\<close> elements and hands back the resource (\<open>res_of\<close>) of
  the element it drops. The lemmas are about whole histories of additions.
\<close>

locale bounded_log =
  fixes inv :: "'b \<Rightarrow> bool"
    and items :: "'b \<Rightarrow> 'e list"
    and add :: "'b \<Rightarrow> 'e \<Rightarrow> ('b \<times> 'r option) res"
    and start :: 'b
    and cap :: nat
    and res_of :: "'e \<Rightarrow> 'r option"
  assumes cap_pos: "0 < cap"
    and inv_start: "inv start"
    and items_start: "items start = []"
    and items_bound: "inv b \<Longrightarrow> length (items b) \<le> cap"
    and add_law: "inv b \<Longrightarrow>
      \<exists>b'. add b e = Inr (b', if length (items b) = cap then res_of (hd (items b)) else None) \<and>
           inv b' \<and> items b' = keep_last cap (items b @ [e])"
begin

lemma run_items:
  "inv b \<Longrightarrow> \<exists>b' rs. runR add b es = Inr (b', rs) \<and> inv b' \<and>
     items b' = keep_last cap (items b @ es)"
proof (induction es arbitrary: b)
  case Nil
  then show ?case by (simp add: keep_last_small items_bound)
next
  case (Cons e es)
  obtain b1 r where 1: "add b e = Inr (b1, r)" "inv b1" "items b1 = keep_last cap (items b @ [e])"
    using add_law [OF Cons.prems, of e] by blast
  obtain b2 rs where 2: "runR add b1 es = Inr (b2, rs)" "inv b2"
    "items b2 = keep_last cap (items b1 @ es)"
    using Cons.IH [OF 1(2)] by blast
  have "items b2 = keep_last cap (items b @ e # es)"
    using 1 2 by (simp add: keep_last_append)
  then show ?case using 1 2 by simp
qed

lemma run_from_start:
  "\<exists>b' rs. runR add start es = Inr (b', rs) \<and> items b' = keep_last cap es"
  using run_items [OF inv_start, of es] by (auto simp: items_start)

text \<open>
  Conservation: the resources handed back, in order, followed by those still stored, are
  the resources stored before followed by those added. None is lost, none returned twice.
\<close>

lemma add_conserves:
  assumes "inv b" "add b e = Inr (b', r)"
  shows "map res_of (items b @ [e])
           = (if length (items b) = cap then [r] else []) @ map res_of (items b')"
proof (cases "length (items b) = cap")
  case True
  then obtain x xs where ne: "items b = x # xs" using cap_pos by (cases "items b") auto
  have "r = res_of (hd (items b))" "items b' = tl (items b) @ [e]"
    using add_law [OF assms(1), of e] assms(2) True cap_pos by (auto simp: keep_last_snoc_full)
  then show ?thesis using True ne by simp
next
  case False
  then have "length (items b @ [e]) \<le> cap"
    using items_bound [OF assms(1)] by simp
  then show ?thesis
    using add_law [OF assms(1), of e] assms(2) False by (auto simp: keep_last_small)
qed

lemma run_conserves:
  "inv b \<Longrightarrow> runR add b es = Inr (b', rs) \<Longrightarrow> \<forall>e \<in> set (items b @ es). res_of e \<noteq> None \<Longrightarrow>
     map res_of (items b @ es) = filter (\<lambda>r. r \<noteq> None) rs @ map res_of (items b')"
proof (induction es arbitrary: b rs)
  case Nil
  then show ?case by simp
next
  case (Cons e es)
  obtain b1 r where 1: "add b e = Inr (b1, r)" "inv b1" "items b1 = keep_last cap (items b @ [e])"
    and r: "r = (if length (items b) = cap then res_of (hd (items b)) else None)"
    using add_law [OF Cons.prems(1), of e] by blast
  obtain rs1 where 2: "runR add b1 es = Inr (b', rs1)" "rs = r # rs1"
    using Cons.prems(2) 1(1) by (auto simp: bindR_Inr_iff)
  have "set (items b1 @ es) \<subseteq> set (items b @ e # es)"
    using set_keep_last [of cap "items b @ [e]"] by (auto simp: 1(3))
  then have IH: "map res_of (items b1 @ es) = filter (\<lambda>r. r \<noteq> None) rs1 @ map res_of (items b')"
    using Cons.prems(3) by (intro Cons.IH [OF 1(2) 2(1)]) blast
  have "r \<noteq> None \<longleftrightarrow> length (items b) = cap"
    using r Cons.prems(3) cap_pos by (cases "items b") auto
  then have flt: "filter (\<lambda>r. r \<noteq> None) rs
      = (if length (items b) = cap then [r] else []) @ filter (\<lambda>r. r \<noteq> None) rs1"
    using 2(2) by simp
  have "map res_of (items b @ e # es) = map res_of (items b @ [e]) @ map res_of es"
    by simp
  also have "\<dots> = (if length (items b) = cap then [r] else []) @ map res_of (items b1 @ es)"
    unfolding add_conserves [OF Cons.prems(1) 1(1)] by simp
  finally show ?case
    by (simp only: IH flt append_assoc)
qed

end

interpretation ring: bounded_log cb_inv cb_items aesd_circular_buffer_add_entry
  aesd_circular_buffer_init 10 buffptr
proof unfold_locales
  fix b e
  assume inv: "cb_inv b"
  show "\<exists>b'. aesd_circular_buffer_add_entry b e
      = Inr (b', if length (cb_items b) = 10 then buffptr (hd (cb_items b)) else None) \<and>
    cb_inv b' \<and> cb_items b' = keep_last 10 (cb_items b @ [e])"
  proof -
    have "length (cb_items b) = 10 \<longleftrightarrow> full b"
      using inv by (auto simp: length_cb_items cb_inv_def)
    then show ?thesis
      using add_entry_keep_last [OF inv, of e] by (simp add: ring_evicts_def)
  qed
qed (simp_all add: cb_inv_init cb_items_init length_cb_items_le)

section \<open>Properties\<close>

text \<open>Two buffers for the witnesses: three entries of 2, 3 and 1 bytes, and ten of 2 bytes.\<close>

definition sample_buffer :: aesd_circular_buffer where
  "sample_buffer =
     \<lparr>entry = [\<lparr>buffptr = Some 1, esize = 2\<rparr>, \<lparr>buffptr = Some 2, esize = 3\<rparr>,
               \<lparr>buffptr = Some 3, esize = 1\<rparr>] @ replicate 7 zero_entry,
      in_offs = 3, out_offs = 0, full = False\<rparr>"

definition sample_full :: aesd_circular_buffer where
  "sample_full =
     \<lparr>entry = map (\<lambda>i. \<lparr>buffptr = Some i, esize = 2\<rparr>) [0..<10],
      in_offs = 4, out_offs = 4, full = True\<rparr>"

lemma sample_buffer_facts:
  "cb_inv sample_buffer"
  "cb_items sample_buffer = [\<lparr>buffptr = Some 1, esize = 2\<rparr>, \<lparr>buffptr = Some 2, esize = 3\<rparr>,
     \<lparr>buffptr = Some 3, esize = 1\<rparr>]"
  by code_simp+

lemma sample_buffer_fits: "cb_fits sample_buffer"
  by (simp add: cb_fits_def sample_buffer_facts)

lemma sample_full_facts:
  "cb_inv sample_full" "full sample_full"
  "map buffptr (cb_items sample_full) = map Some [4, 5, 6, 7, 8, 9, 0, 1, 2, 3]"
  "item_sizes (cb_items sample_full) = [2, 2, 2, 2, 2, 2, 2, 2, 2, 2]"
  by code_simp+

lemma sample_full_fits: "cb_fits sample_full"
  by (simp add: cb_fits_def sample_full_facts)

text \<open>
  C15. Adding an entry never fails under the buffer's invariant, keeps the invariant,
  leaves the ten most recent entries in order, and returns the pointer of the entry it
  overwrites exactly when the buffer was full (NULL otherwise).
\<close>

theorem add_entry_refines_bounded_log:
  assumes "cb_inv b"
  shows "\<exists>b'. aesd_circular_buffer_add_entry b e
      = Inr (b', if full b then buffptr (hd (cb_items b)) else None) \<and>
    cb_inv b' \<and> cb_items b' = keep_last 10 (cb_items b @ [e])"
  using add_entry_keep_last [OF assms, of e] by (simp add: ring_evicts_def)

theorem add_entry_refines_bounded_log_witness:
  "\<exists>b'. aesd_circular_buffer_add_entry sample_full zero_entry = Inr (b', Some 4) \<and>
     map buffptr (cb_items b') = map Some [5, 6, 7, 8, 9, 0, 1, 2, 3] @ [None]"
proof -
  have "hd (map buffptr (cb_items sample_full)) = buffptr (hd (cb_items sample_full))"
    using sample_full_facts by (intro list.map_sel) auto
  then have "buffptr (hd (cb_items sample_full)) = Some 4"
    by (simp add: sample_full_facts)
  then show ?thesis
    using add_entry_refines_bounded_log [OF sample_full_facts(1), of zero_entry] sample_full_facts
    by (auto simp: map_keep_last keep_last_def zero_entry_def)
qed

text \<open>
  A whole history of additions to a freshly initialised buffer: the buffer ends with
  the last ten entries added, and the pointers it returned for freeing, followed by the
  pointers it still stores, are the pointers added, in order. No buffer is lost and none
  is handed out for freeing while it is still stored.
\<close>

theorem history_conserves_buffers:
  assumes "\<forall>e \<in> set es. buffptr e \<noteq> None"
  shows "\<exists>b rs. runR aesd_circular_buffer_add_entry aesd_circular_buffer_init es = Inr (b, rs) \<and>
    cb_inv b \<and> cb_items b = keep_last 10 es \<and>
    map buffptr es = filter (\<lambda>p. p \<noteq> None) rs @ map buffptr (cb_items b)"
proof -
  obtain b rs where run: "runR aesd_circular_buffer_add_entry aesd_circular_buffer_init es = Inr (b, rs)"
    "cb_inv b" "cb_items b = keep_last 10 (cb_items aesd_circular_buffer_init @ es)"
    using ring.run_items [OF cb_inv_init, of es] by blast
  moreover have "map buffptr es = filter (\<lambda>p. p \<noteq> None) rs @ map buffptr (cb_items b)"
    using ring.run_conserves [OF cb_inv_init run(1)] assms by (simp add: cb_items_init)
  ultimately show ?thesis by (auto simp: cb_items_init)
qed

theorem history_conserves_buffers_witness:
  "\<exists>b rs. runR aesd_circular_buffer_add_entry aesd_circular_buffer_init
       (map (\<lambda>i. \<lparr>buffptr = Some i, esize = 1\<rparr>) [0..<12]) = Inr (b, rs) \<and>
     length (cb_items b) = 10"
  using history_conserves_buffers [of "map (\<lambda>i. \<lparr>buffptr = Some i, esize = 1\<rparr>) [0..<12]"]
  by auto

lemma sum_list_le_times: "\<forall>x \<in> set xs. x \<le> (k :: nat) \<Longrightarrow> sum_list xs \<le> length xs * k"
  by (induction xs) auto

text \<open>The read index and the write index after a history of additions.\<close>

lemma add_entry_in_offs:
  "cb_inv b \<Longrightarrow> aesd_circular_buffer_add_entry b e = Inr (b', p) \<Longrightarrow>
     unat (in_offs b') = (unat (in_offs b) + 1) mod 10"
proof -
  assume "cb_inv b" "aesd_circular_buffer_add_entry b e = Inr (b', p)"
  then have "in_offs b' = (if in_offs b + 1 = 10 then 0 else in_offs b + 1)" "unat (in_offs b) < 10"
    by (auto simp: aesd_circular_buffer_add_entry_def AESDCHAR_MAX_WRITE_OPERATIONS_SUPPORTED_def Let_def
        cb_inv_def split: if_splits)
  with in_offs_wrap [of "in_offs b"] show ?thesis by (simp only: Suc_eq_plus1)
qed

lemma history_in_offs:
  "cb_inv b \<Longrightarrow> runR aesd_circular_buffer_add_entry b es = Inr (b', ps) \<Longrightarrow>
     unat (in_offs b') = (unat (in_offs b) + length es) mod 10 \<and> length ps = length es"
proof (induction es arbitrary: b ps)
  case Nil
  then show ?case by (simp add: cb_inv_def)
next
  case (Cons e es)
  obtain b1 p ps1 where 1: "aesd_circular_buffer_add_entry b e = Inr (b1, p)"
    "runR aesd_circular_buffer_add_entry b1 es = Inr (b', ps1)" "ps = p # ps1"
    using Cons.prems(2) by (auto simp: bindR_Inr_iff)
  have "cb_inv b1" using add_entry_keep_last [OF Cons.prems(1), of e] 1(1) by auto
  from Cons.IH [OF this 1(2)] add_entry_in_offs [OF Cons.prems(1) 1(1)] show ?case
    by (simp add: 1(3) mod_simps) 
qed

text \<open>What a lookup finds lies inside the entry it names.\<close>

lemma find_entry_inside:
  assumes inv: "cb_inv b" "cb_fits b"
    and found: "aesd_circular_buffer_find_entry_offset_for_fpos b c = Some (slot, off)"
  shows "slot < length (entry b) \<and> off < esize (entry b ! slot)"
proof -
  obtain i k where ik: "locate (item_sizes (cb_items b)) (unat c) = Some (i, k)"
    "slot = get_entry_at_virtual_offset b (of_nat i)" "off = of_nat k"
    using found by (auto simp: find_entry_locate [OF inv])
  have at: "i < length (cb_items b)" "k < unat (esize (cb_items b ! i))"
    using locate_SomeD [OF ik(1)] by auto
  then have i: "i < 10" using length_cb_items_le [OF inv(1)] by simp
  have "unat (of_nat k :: size_t) = k"
    using at(2) unat_less_64 [of "esize (cb_items b ! i)"] by (intro unat_of_nat_64) simp
  moreover have "entry b ! slot = cb_items b ! i"
    using i inv at(1) by (simp add: ik(2) entry_at_virtual unat_of_nat_8 item_nth)
  ultimately show ?thesis
    using at(2) by (simp add: ik(2,3) word_less_nat_alt cb_inv_length [OF inv(1)])
qed

text \<open>
  C20. The buffer keeps its type. After any history of additions of entries of less than
  \<open>2 ^ 60\<close> bytes the array has its ten slots, both indices are slots of it, the write index
  has gone round once for every ten additions, the buffer is full from the tenth addition
  on, and every slot that a lookup gives, by position or by number, is one of the array;
  the offset that comes with it lies inside the entry.
\<close>

theorem buffer_stays_well_formed:
  assumes "\<forall>e \<in> set es. unat (esize e) < 2 ^ 60"
  shows "\<exists>b ps. runR aesd_circular_buffer_add_entry aesd_circular_buffer_init es = Inr (b, ps) \<and>
    length ps = length es \<and> length (entry b) = 10 \<and> unat (in_offs b) = length es mod 10 \<and>
    unat (out_offs b) = (if full b then length es mod 10 else 0) \<and> (full b \<longleftrightarrow> 10 \<le> length es) \<and>
    (\<forall>pos. aesd_circular_buffer_find_entry_at_position b pos < length (entry b)) \<and>
    (\<forall>c slot off. aesd_circular_buffer_find_entry_offset_for_fpos b c = Some (slot, off) \<longrightarrow>
       slot < length (entry b) \<and> off < esize (entry b ! slot))"
proof -
  obtain b ps where run: "runR aesd_circular_buffer_add_entry aesd_circular_buffer_init es = Inr (b, ps)"
    and inv: "cb_inv b" and items: "cb_items b = keep_last 10 es"
    using ring.run_items [OF cb_inv_init, of es] by (auto simp: cb_items_init)
  have "sum_list (item_sizes (cb_items b)) \<le> length (cb_items b) * 2 ^ 60"
    using assms set_keep_last [of 10 es] sum_list_le_times [of "item_sizes (cb_items b)" "2 ^ 60"]
    unfolding items by (fastforce intro: less_imp_le)
  then have fits: "cb_fits b" using length_cb_items_le [OF inv] by (simp add: cb_fits_def)
  have len: "length (cb_items b) = min 10 (length es)" by (simp add: items keep_last_def)
  moreover have "full b \<longleftrightarrow> 10 \<le> length es"
    using len inv by (auto simp: length_cb_items cb_inv_def split: if_splits)
  ultimately show ?thesis
    using run inv history_in_offs [OF cb_inv_init run] find_entry_inside [OF inv fits]
    by (auto simp: cb_inv_def aesd_circular_buffer_init_def aesd_circular_buffer_find_entry_at_position_def)
qed

theorem buffer_stays_well_formed_witness:
  "\<exists>b ps. runR aesd_circular_buffer_add_entry aesd_circular_buffer_init
       (map (\<lambda>i. \<lparr>buffptr = Some i, esize = 3\<rparr>) [0..<23]) = Inr (b, ps) \<and>
     length (entry b) = 10 \<and> full b \<and> unat (in_offs b) = 3 \<and> unat (out_offs b) = 3"
proof -
  let ?es = "map (\<lambda>i. \<lparr>buffptr = Some i, esize = (3 :: size_t)\<rparr>) [0..<23]"
  have "length ?es = 23" "\<forall>e \<in> set ?es. unat (esize e) < 2 ^ 60" by auto
  with buffer_stays_well_formed [of ?es] show ?thesis by (auto simp del: map_upt_Suc)
qed

text \<open>
  C23. The search for a file position. Let \<open>bs\<close> be the contents of the live entries,
  oldest first. The result is NULL exactly when the position is at or past the end of
  all contents; otherwise it is the slot of a live entry and an offset inside it, and the
  byte there is the byte of the concatenated contents at that position.
\<close>

theorem find_entry_is_concat_index:
  assumes "cb_inv b" and "cb_fits b" and "map length bs = item_sizes (cb_items b)"
  shows "case aesd_circular_buffer_find_entry_offset_for_fpos b c of
      None \<Rightarrow> length (concat bs) \<le> unat c
    | Some (slot, off) \<Rightarrow> unat c < length (concat bs) \<and>
        (\<exists>j < length bs. slot = (unat (out_offs b) + j) mod 10 \<and> entry b ! slot = cb_items b ! j \<and>
           unat off < length (bs ! j) \<and> drop (unat c) (concat bs)
             = drop (unat off) (bs ! j) @ concat (drop (Suc j) bs))"
proof -
  have len: "length bs = length (cb_items b)" and tot: "length (concat bs) = sum_list (item_sizes (cb_items b))"
    using assms(3) by (metis length_map, metis length_concat)
  show ?thesis
  proof (cases "locate (item_sizes (cb_items b)) (unat c)")
    case None
    then have "length (concat bs) \<le> unat c"
      using tot locate_None_iff [of "item_sizes (cb_items b)" "unat c"] by simp
    then show ?thesis
      using assms None by (simp add: find_entry_locate)
  next
    case (Some ik)
    obtain j k where ik: "ik = (j, k)" by (cases ik)
    have at: "j < length (cb_items b)" "k < length (bs ! j)" "unat c < length (concat bs)"
      using locate_SomeD [OF Some [unfolded ik]] Some locate_None_iff [of "item_sizes (cb_items b)" "unat c"]
      by (auto simp: tot len simp flip: assms(3))
    have j: "j < 10"
      using at length_cb_items_le [OF assms(1)] by simp
    have k: "unat (of_nat k :: size_t) = k"
      using locate_SomeD [OF Some [unfolded ik]] unat_less_64 [of "esize (cb_items b ! j)"]
      by (intro unat_of_nat_64) auto
    have "entry b ! get_entry_at_virtual_offset b (of_nat j) = cb_items b ! j"
      using j at assms(1) by (simp add: entry_at_virtual unat_of_nat_8 item_nth)
    then show ?thesis
      using Some ik at j k len assms drop_concat_locate [of bs "unat c" j k]
      by (simp add: find_entry_locate get_entry_nat unat_of_nat_8) blast
  qed
qed

theorem find_entry_is_concat_index_witness:
  "aesd_circular_buffer_find_entry_offset_for_fpos sample_buffer 4 = Some (1, 2) \<and>
   drop 4 (concat [''ab'', ''cde'', ''f'']) = drop 2 ''cde'' @ ''f''"
proof -
  have "aesd_circular_buffer_find_entry_offset_for_fpos sample_buffer 4 = Some (1, 2)"
    by code_simp
  then show ?thesis
    using find_entry_is_concat_index [of sample_buffer "[''ab'', ''cde'', ''f'']" 4]
      sample_buffer_facts sample_buffer_fits by simp
qed

text \<open>
  The size of the buffer is the number of bytes in all live entries, whether or not
  the buffer is full.
\<close>

theorem get_size_is_total_length:
  assumes "cb_inv b" and "cb_fits b" and "map length bs = item_sizes (cb_items b)"
  shows "unat (aesd_circular_buffer_get_size b) = length (concat bs)"
  using assms by (simp add: get_size_sum length_concat)

theorem get_size_is_total_length_witness:
  "unat (aesd_circular_buffer_get_size sample_buffer) = length (concat [''ab'', ''cde'', ''f''])"
  using get_size_is_total_length [OF sample_buffer_facts(1) sample_buffer_fits, of "[''ab'', ''cde'', ''f'']"]
  by (simp add: sample_buffer_facts)

text \<open>
  The file position of a write command: for the number of any stored write it is the
  number of bytes before that write, a non-negative \<open>int\<close>; a number above the number of
  stored writes gives -1.
\<close>

theorem fpos_of_write_command:
  assumes "cb_inv b" and "cb_fits b" and "map length bs = item_sizes (cb_items b)"
    and "length (concat bs) < 2 ^ 31"
  shows "sint (aesd_circular_buffer_find_fpos_for_virtual_entry_offset b k)
    = (if unat k \<le> length bs then int (length (concat (take (unat k) bs))) else -1)"
proof (cases "unat k \<le> length bs")
  case True
  let ?p = "aesd_circular_buffer_find_fpos_for_virtual_entry_offset b k"
  have tot: "length (concat bs) = sum_list (item_sizes (cb_items b))"
    using assms(3) by (metis length_concat)
  have p: "unat ?p = sum_list (take (unat k) (item_sizes (cb_items b)))"
    using find_fpos_sum [OF assms(1,2), of k] True assms(4) tot arg_cong [OF assms(3), of length]
    by simp
  also have "\<dots> = length (concat (take (unat k) bs))"
    by (simp add: length_concat take_map flip: assms(3))
  finally have "unat ?p = length (concat (take (unat k) bs))" .
  moreover have "unat ?p < 2 ^ 31"
    using p sum_take_le [of "unat k" "item_sizes (cb_items b)"] assms(4) tot by linarith
  ultimately show ?thesis using True by (simp add: sint_eq_unat_32)
next
  case False
  then show ?thesis
    using find_fpos_invalid [OF assms(1), of k] arg_cong [OF assms(3), of length] by simp
qed

theorem fpos_of_write_command_witness:
  "sint (aesd_circular_buffer_find_fpos_for_virtual_entry_offset sample_buffer 2) = 5 \<and>
   sint (aesd_circular_buffer_find_fpos_for_virtual_entry_offset sample_buffer 4) = -1"
  using fpos_of_write_command [OF sample_buffer_facts(1) sample_buffer_fits,
      of "[''ab'', ''cde'', ''f'']" 2]
    fpos_of_write_command [OF sample_buffer_facts(1) sample_buffer_fits,
      of "[''ab'', ''cde'', ''f'']" 4]
  by (simp add: sample_buffer_facts)

text \<open>
  The range check of the write-command lookup is off by one: the number equal to the
  count of stored writes passes it although the last valid number is one less. In a full
  buffer the position returned for it is the end of the data, and the entry looked up
  for it is the oldest one.
\<close>

theorem one_past_last_command_accepted:
  assumes "cb_inv b" and "cb_fits b" and "full b" and "sum_list (item_sizes (cb_items b)) < 2 ^ 31"
  shows "sint (aesd_circular_buffer_find_fpos_for_virtual_entry_offset b 10)
      = int (unat (aesd_circular_buffer_get_size b)) \<and>
    aesd_circular_buffer_find_entry_at_position b 10
      = aesd_circular_buffer_find_entry_at_position b 0"
proof -
  have len: "length (cb_items b) = 10"
    using assms by (simp add: length_cb_items)
  have "unat (aesd_circular_buffer_find_fpos_for_virtual_entry_offset b 10)
      = sum_list (item_sizes (cb_items b))"
    using find_fpos_sum [OF assms(1,2), of 10] assms(4) len by simp
  then show ?thesis
    using assms by (simp add: sint_eq_unat_32 get_size_sum get_entry_nat
        aesd_circular_buffer_find_entry_at_position_def)
qed

theorem one_past_last_command_accepted_witness:
  "sint (aesd_circular_buffer_find_fpos_for_virtual_entry_offset sample_full 10) = 20"
proof -
  have "unat (aesd_circular_buffer_get_size sample_full) = 20" by code_simp
  then show ?thesis
    using one_past_last_command_accepted [OF sample_full_facts(1) sample_full_fits]
    by (simp add: sample_full_facts)
qed

end
