(* ===== verification/Char_Device.thy ===== *)
theory Char_Device
  imports Circular_Buffer
begin

text \<open>
  The character device of \<open>aesd-char-driver/main.c\<close>, \<open>aesdchar.h\<close> and \<open>aesd_ioctl.h\<close>:
  the device structure, the kernel services it calls, and its file operations. The device
  is the single \<open>aesd_device\<close>; the state \<open>kstate\<close> is that structure together with the
  kernel heap.

  The kernel is not part of the sources. What it may answer is the parameter
  \<open>kernel_env\<close>: the \<open>n\<close>-th call into the kernel (counted by \<open>clock\<close>) may be interrupted,
  may fail, or may copy only a part. Blocks get fresh numbers from \<open>next_block\<close>; a fresh
  block has arbitrary contents (\<open>kmalloc_junk\<close>). Debug output is left out.
\<close>

section \<open>Constants\<close>

definition ENOMEM :: ssize_t where "ENOMEM = 12"
definition EFAULT :: ssize_t where "EFAULT = 14"
definition EINVAL :: ssize_t where "EINVAL = 22"
definition ENOTTY :: ssize_t where "ENOTTY = 25"
definition ERESTARTSYS :: ssize_t where "ERESTARTSYS = 512"

lemmas errno_defs = ENOMEM_def EFAULT_def EINVAL_def ENOTTY_def ERESTARTSYS_def

definition SEEK_SET :: cint where "SEEK_SET = 0"
definition SEEK_CUR :: cint where "SEEK_CUR = 1"
definition SEEK_END :: cint where "SEEK_END = 2"

lemmas seek_defs = SEEK_SET_def SEEK_CUR_def SEEK_END_def

text \<open>
  The command number, in the encoding of \<open>asm-generic/ioctl.h\<close>: 8 bits of number, 8 bits
  of type, 14 bits of size, 2 bits of direction.
\<close>

record aesd_seekto =
  write_cmd :: u32
  write_cmd_offset :: u32

definition IOC_NR :: "u32 \<Rightarrow> u32" where
  "IOC_NR cmd = take_bit 8 cmd"

definition IOC_TYPE :: "u32 \<Rightarrow> u32" where
  "IOC_TYPE cmd = take_bit 8 (drop_bit 8 cmd)"

definition IOWR :: "u32 \<Rightarrow> u32 \<Rightarrow> u32 \<Rightarrow> u32" where
  "IOWR type nr sz = push_bit 30 3 + push_bit 16 sz + push_bit 8 type + nr"

definition AESD_IOC_MAGIC :: u32 where
  "AESD_IOC_MAGIC = 0x16"

text \<open>\<open>sizeof (struct aesd_seekto)\<close> is 8: two 32-bit fields.\<close>

definition AESDCHAR_IOCSEEKTO :: u32 where
  "AESDCHAR_IOCSEEKTO = IOWR AESD_IOC_MAGIC 1 8"

definition AESDCHAR_IOC_MAXNR :: u32 where
  "AESDCHAR_IOC_MAXNR = 1"

lemmas ioc_defs = IOC_NR_def IOC_TYPE_def IOWR_def AESD_IOC_MAGIC_def AESDCHAR_IOCSEEKTO_def
  AESDCHAR_IOC_MAXNR_def

section \<open>State\<close>

record aesd_entry_stage =
  buffPtr :: ptr
  stage_size :: size_t
  endIdx :: size_t

record aesd_dev =
  stage :: aesd_entry_stage
  entryMutex :: bool
  buff :: aesd_circular_buffer
  buffMutex :: bool
  lseekPos :: loff_t

record kstate = aesd_dev +
  kheap :: heap
  next_block :: nat
  clock :: nat

text \<open>An open file: \<open>private_data\<close> is NULL until \<open>open\<close> has set it to the device.\<close>

datatype devref = TheDevice

record struct_file =
  private_data :: "devref option"
  f_pos :: loff_t

section \<open>The kernel\<close>

record kernel_env =
  KMALLOC_MAX_SIZE :: size_t
  lock_interrupted :: "nat \<Rightarrow> bool"
  kmalloc_fails :: "nat \<Rightarrow> bool"
  kmalloc_junk :: "nat \<Rightarrow> nat \<Rightarrow> byte"
  not_copied :: "nat \<Rightarrow> size_t \<Rightarrow> size_t"
  user_seekto :: "nat \<Rightarrow> size_t \<Rightarrow> aesd_seekto option"

text \<open>
  What the kernel documents: the largest allocation is positive, ten of them fit an \<open>int\<close>
  (it is 4 MiB with 4 KiB pages), and \<open>copy_to_user\<close> returns the number of bytes it did
  not copy, at most the number asked for.
\<close>

definition env_ok :: "kernel_env \<Rightarrow> bool" where
  "env_ok env \<longleftrightarrow> 0 < unat (KMALLOC_MAX_SIZE env) \<and> 10 * unat (KMALLOC_MAX_SIZE env) < 2 ^ 31 \<and>
     (\<forall>n k. unat (not_copied env n k) \<le> unat k)"

text \<open>A kernel that is not short of memory and delivers no signals.\<close>

definition quiet :: "kernel_env \<Rightarrow> bool" where
  "quiet env \<longleftrightarrow> (\<forall>n. \<not> lock_interrupted env n \<and> \<not> kmalloc_fails env n)"

definition tick :: "kstate \<Rightarrow> kstate" where
  "tick s = s\<lparr>clock := Suc (clock s)\<rparr>"

text \<open>
  \<open>mutex_lock_interruptible\<close>: True when a signal arrived instead. A mutex that is held
  here is held by the caller itself, since the operations run one after the other.
\<close>

definition lock_buff :: "kernel_env \<Rightarrow> kstate \<Rightarrow> (bool \<times> kstate) res" where
  "lock_buff env s =
     (if lock_interrupted env (clock s) then Inr (True, tick s)
      else if buffMutex s then Inl SelfDeadlock
      else Inr (False, (tick s)\<lparr>buffMutex := True\<rparr>))"

definition unlock_buff :: "kstate \<Rightarrow> kstate" where
  "unlock_buff s = s\<lparr>buffMutex := False\<rparr>"

definition lock_entry :: "kernel_env \<Rightarrow> kstate \<Rightarrow> (bool \<times> kstate) res" where
  "lock_entry env s =
     (if lock_interrupted env (clock s) then Inr (True, tick s)
      else if entryMutex s then Inl SelfDeadlock
      else Inr (False, (tick s)\<lparr>entryMutex := True\<rparr>))"

definition unlock_entry :: "kstate \<Rightarrow> kstate" where
  "unlock_entry s = s\<lparr>entryMutex := False\<rparr>"

definition kmalloc :: "kernel_env \<Rightarrow> kstate \<Rightarrow> ptr \<times> kstate" where
  "kmalloc env s =
     (if kmalloc_fails env (clock s) then (None, tick s)
      else (Some (next_block s),
            (tick s)\<lparr>kheap := (kheap s)(next_block s \<mapsto>
                       map (kmalloc_junk env (clock s)) [0..<unat (KMALLOC_MAX_SIZE env)]),
                     next_block := Suc (next_block s)\<rparr>))"

definition kfree :: "heap \<Rightarrow> ptr \<Rightarrow> heap res" where
  "kfree h p = (case p of None \<Rightarrow> Inr h
     | Some a \<Rightarrow> if h a = None then Inl BadFree else Inr (h(a := None)))"

definition kread :: "heap \<Rightarrow> ptr \<Rightarrow> nat \<Rightarrow> nat \<Rightarrow> byte list res" where
  "kread h p off n = (case p of None \<Rightarrow> Inl NullDeref
     | Some a \<Rightarrow> (case h a of None \<Rightarrow> Inl UseAfterFree
         | Some blk \<Rightarrow> if off + n \<le> length blk then Inr (take n (drop off blk)) else Inl OutOfBounds))"

definition kwrite :: "heap \<Rightarrow> ptr \<Rightarrow> nat \<Rightarrow> byte \<Rightarrow> heap res" where
  "kwrite h p k c = (case p of None \<Rightarrow> Inl NullDeref
     | Some a \<Rightarrow> (case h a of None \<Rightarrow> Inl UseAfterFree
         | Some blk \<Rightarrow> if k < length blk then Inr (h(a \<mapsto> blk[k := c])) else Inl OutOfBounds))"

section \<open>Open, release, seek\<close>

definition aesd_open :: "struct_file \<Rightarrow> kstate \<Rightarrow> (ssize_t \<times> struct_file \<times> kstate) res" where
  "aesd_open filp s = Inr (0, filp\<lparr>private_data := Some TheDevice\<rparr>, s)"

definition aesd_release :: "struct_file \<Rightarrow> kstate \<Rightarrow> (ssize_t \<times> struct_file \<times> kstate) res" where
  "aesd_release filp s = Inr (0, filp\<lparr>private_data := Some TheDevice\<rparr>, s\<lparr>lseekPos := 0\<rparr>)"

definition aesd_llseek ::
    "kernel_env \<Rightarrow> struct_file \<Rightarrow> loff_t \<Rightarrow> cint \<Rightarrow> kstate \<Rightarrow> (loff_t \<times> kstate) res" where
  "aesd_llseek env filp off whence s =
     (if private_data filp = None then Inl NullDeref
      else bindR (lock_buff env s) (\<lambda>(interrupted, s).
        if interrupted then Inr (- ERESTARTSYS, s)
        else
          (let s = (if whence = SEEK_SET then s\<lparr>lseekPos := off\<rparr>
                    else if whence = SEEK_CUR then s\<lparr>lseekPos := lseekPos s + off\<rparr>
                    else if whence = SEEK_END
                    then s\<lparr>lseekPos := aesd_circular_buffer_get_size (buff s)\<rparr>
                    else s);
               retVal = lseekPos s
           in Inr (retVal, unlock_buff s))))"

text \<open>
  \<open>basePos + st.write_cmd_offset\<close> adds an \<open>int\<close> and a \<open>uint32_t\<close>: 32-bit unsigned
  arithmetic, then converted to \<open>loff_t\<close> without a sign.
\<close>

definition aesd_ioctl ::
    "kernel_env \<Rightarrow> struct_file \<Rightarrow> u32 \<Rightarrow> size_t \<Rightarrow> kstate \<Rightarrow> (ssize_t \<times> kstate) res" where
  "aesd_ioctl env filp cmd arg s =
     (if IOC_TYPE cmd \<noteq> AESD_IOC_MAGIC \<or> IOC_NR cmd > AESDCHAR_IOC_MAXNR
      then Inr (- ENOTTY, s)
      else if cmd = AESDCHAR_IOCSEEKTO then
        (case user_seekto env (clock s) arg of
           None \<Rightarrow> Inr (- EFAULT, tick s)
         | Some st \<Rightarrow>
             if private_data filp = None then Inl NullDeref
             else bindR (lock_buff env (tick s)) (\<lambda>(interrupted, s).
               if interrupted then Inr (- ERESTARTSYS, s)
               else
                 (let basePos = aesd_circular_buffer_find_fpos_for_virtual_entry_offset (buff s)
                                  (ucast (write_cmd st)) in
                  if sint basePos < 0 then Inr (- EINVAL, unlock_buff s)
                  else
                    (let e = entry (buff s) !
                           aesd_circular_buffer_find_entry_at_position (buff s) (ucast (write_cmd st))
                     in if esize e < ucast (write_cmd_offset st) then Inr (- EINVAL, unlock_buff s)
                        else Inr (0, unlock_buff
                               (s\<lparr>lseekPos := ucast (basePos + write_cmd_offset st)\<rparr>))))))
      else Inr (- ENOTTY, s))"

section \<open>Read\<close>

text \<open>Returns the result, the bytes that reached the user buffer, and the new states.\<close>

definition aesd_read ::
    "kernel_env \<Rightarrow> struct_file \<Rightarrow> size_t \<Rightarrow> kstate \<Rightarrow> (ssize_t \<times> byte list \<times> struct_file \<times> kstate) res" where
  "aesd_read env filp count s =
     (if private_data filp = None then Inl NullDeref
      else bindR (lock_buff env s) (\<lambda>(interrupted, s).
        if interrupted then Inr (- ERESTARTSYS, [], filp, s)
        else
          (let actualPos = f_pos filp + lseekPos s in
           case aesd_circular_buffer_find_entry_offset_for_fpos (buff s) actualPos of
             None \<Rightarrow> Inr (0, [], filp, unlock_buff s)
           | Some (slot, entryOffset) \<Rightarrow>
               (let e = entry (buff s) ! slot;
                    entrySize = esize e - entryOffset;
                    sizeToRead = (if entrySize < count then entrySize else count) in
                bindR (kread (kheap s) (buffptr e) (unat entryOffset) (unat sizeToRead)) (\<lambda>bytes.
                  (let notCopied = not_copied env (clock s) sizeToRead;
                       s = tick s;
                       retVal = sizeToRead - notCopied
                   in Inr (retVal, take (unat retVal) bytes,
                           filp\<lparr>f_pos := f_pos filp + retVal\<rparr>, unlock_buff s)))))))"

section \<open>Write\<close>

text \<open>The byte-wise copy of \<open>StorePartial\<close>, from index \<open>i\<close> on.\<close>

function store_loop ::
    "heap \<Rightarrow> ptr \<Rightarrow> nat \<Rightarrow> byte list \<Rightarrow> nat \<Rightarrow> nat \<Rightarrow> heap res" where
  "store_loop h p base buf i count =
     (if i < count then
        (if \<not> i < length buf then Inl OutOfBounds
         else bindR (kwrite h p (base + i) (buf ! i)) (\<lambda>h. store_loop h p base buf (Suc i) count))
      else Inr h)"
  by pat_completeness auto
termination
  by (relation "measure (\<lambda>(h, p, base, buf, i, count). count - i)") auto

declare store_loop.simps [simp del]

text \<open>
  \<open>buf\<close> is the user memory from the pointer on. The test for a NULL device is not
  modelled: its only caller has used the device before.
\<close>

definition StorePartial ::
    "kernel_env \<Rightarrow> byte list \<Rightarrow> size_t \<Rightarrow> kstate \<Rightarrow> (ssize_t \<times> kstate) res" where
  "StorePartial env buf count s =
     (if count = 0 then Inr (0, s)
      else
        (let (allocated, s) =
           (case buffPtr (stage s) of
              Some a \<Rightarrow> (True, s)
            | None \<Rightarrow>
                (case kmalloc env s of
                   (None, s) \<Rightarrow> (False, s)
                 | (Some a, s) \<Rightarrow> (True, s\<lparr>stage := (stage s)\<lparr>buffPtr := Some a\<rparr>\<rparr>))) in
         if \<not> allocated then Inr (- ENOMEM, s)
         else if endIdx (stage s) + count > stage_size (stage s) then Inr (- ENOMEM, s)
         else
           bindR (store_loop (kheap s) (buffPtr (stage s)) (unat (endIdx (stage s))) buf 0 (unat count))
             (\<lambda>h. Inr (0, s\<lparr>kheap := h,
                            stage := (stage s)\<lparr>endIdx := endIdx (stage s) + count\<rparr>\<rparr>))))"

text \<open>The early return for a missing buffer leaves the mutex locked, as in the code.\<close>

definition FlushPartial :: "kernel_env \<Rightarrow> kstate \<Rightarrow> (ssize_t \<times> kstate) res" where
  "FlushPartial env s =
     bindR (lock_buff env s) (\<lambda>(interrupted, s).
       if interrupted then Inr (- ENOMEM, s)
       else if buffPtr (stage s) = None then Inr (- ENOMEM, s)
       else
         (let newEntry = \<lparr>buffptr = buffPtr (stage s), esize = endIdx (stage s)\<rparr> in
          bindR (aesd_circular_buffer_add_entry (buff s) newEntry) (\<lambda>(b, freePtr).
            bindR (kfree (kheap s) freePtr) (\<lambda>h.
              Inr (0, unlock_buff
                (s\<lparr>buff := b, kheap := h, stage := (stage s)\<lparr>buffPtr := None, endIdx := 0\<rparr>\<rparr>))))))"

text \<open>
  The loop over the input. \<open>count\<close> was checked against \<open>KMALLOC_MAX_SIZE\<close>, so that the
  indices never wrap. The result is \<open>None\<close> after the jump to the error exit, else the
  final \<open>inputBaseIdx\<close>.
\<close>

function write_loop ::
    "kernel_env \<Rightarrow> byte list \<Rightarrow> nat \<Rightarrow> nat \<Rightarrow> nat \<Rightarrow> kstate \<Rightarrow> (nat option \<times> kstate) res" where
  "write_loop env buf count inputIdx inputBaseIdx s =
     (if inputBaseIdx + inputIdx < count then
        (if \<not> inputBaseIdx + inputIdx < length buf then Inl OutOfBounds
         else if buf ! (inputBaseIdx + inputIdx) = NL then
           bindR (StorePartial env (drop inputBaseIdx buf) (of_nat (Suc inputIdx)) s) (\<lambda>(r, s).
             if r \<noteq> 0 then Inr (None, s)
             else bindR (FlushPartial env s) (\<lambda>(_, s).
               write_loop env buf count 0 (inputBaseIdx + Suc inputIdx) s))
         else write_loop env buf count (Suc inputIdx) inputBaseIdx s)
      else Inr (Some inputBaseIdx, s))"
  by pat_completeness auto
termination
  by (relation "measure (\<lambda>(env, buf, count, i, b, s). count - (b + i))") auto

declare write_loop.simps [simp del]

definition aesd_write ::
    "kernel_env \<Rightarrow> struct_file \<Rightarrow> byte list \<Rightarrow> size_t \<Rightarrow> kstate \<Rightarrow> (ssize_t \<times> kstate) res" where
  "aesd_write env filp buf count s =
     (if private_data filp = None then Inl NullDeref
      else
        (let s = s\<lparr>stage := (stage s)\<lparr>stage_size := KMALLOC_MAX_SIZE env\<rparr>\<rparr> in
         bindR (lock_entry env s) (\<lambda>(interrupted, s).
           if interrupted then Inr (- ERESTARTSYS, s)
           else if count > stage_size (stage s)
                 \<or> endIdx (stage s) + count > stage_size (stage s)
           then Inr (- ENOMEM, unlock_entry s)
           else
             bindR (write_loop env buf (unat count) 0 0 s) (\<lambda>(r, s).
               case r of
                 None \<Rightarrow> Inr (- ENOMEM, unlock_entry s)
               | Some inputBaseIdx \<Rightarrow>
                   if inputBaseIdx < unat count then
                     bindR (StorePartial env (drop inputBaseIdx buf)
                              (count - of_nat inputBaseIdx) s)
                       (\<lambda>(_, s). Inr (count, unlock_entry s))
                   else Inr (count, unlock_entry s)))))"

section \<open>Invariant and abstraction\<close>

text \<open>The blocks the device owns: one per live entry, and the staging buffer.\<close>

definition owned :: "'a aesd_dev_scheme \<Rightarrow> ptr list" where
  "owned s = map buffptr (cb_items (buff s)) @
     (if buffPtr (stage s) = None then [] else [buffPtr (stage s)])"

definition block_ok :: "kernel_env \<Rightarrow> heap \<Rightarrow> ptr \<Rightarrow> bool" where
  "block_ok env h p \<longleftrightarrow>
     (\<exists>a blk. p = Some a \<and> h a = Some blk \<and> length blk = unat (KMALLOC_MAX_SIZE env))"

definition dev_inv :: "kernel_env \<Rightarrow> kstate \<Rightarrow> bool" where
  "dev_inv env s \<longleftrightarrow>
     cb_inv (buff s) \<and>
     (\<forall>e \<in> set (cb_items (buff s)).
        block_ok env (kheap s) (buffptr e) \<and>
        0 < unat (esize e) \<and> unat (esize e) \<le> unat (KMALLOC_MAX_SIZE env)) \<and>
     (if buffPtr (stage s) = None then endIdx (stage s) = 0
      else block_ok env (kheap s) (buffPtr (stage s)) \<and>
           unat (endIdx (stage s)) \<le> unat (KMALLOC_MAX_SIZE env)) \<and>
     distinct (owned s) \<and> set (owned s) = Some ` dom (kheap s) \<and>
     (\<forall>a \<in> dom (kheap s). a < next_block s)"

definition idle :: "'a aesd_dev_scheme \<Rightarrow> bool" where
  "idle s \<longleftrightarrow> \<not> entryMutex s \<and> \<not> buffMutex s"

definition block_bytes :: "heap \<Rightarrow> ptr \<Rightarrow> nat \<Rightarrow> byte list" where
  "block_bytes h p n = (case p of None \<Rightarrow> [] | Some a \<Rightarrow>
     (case h a of None \<Rightarrow> [] | Some blk \<Rightarrow> take n blk))"

text \<open>What a client sees: the stored writes, oldest first, and the unfinished one.\<close>

definition dev_lines :: "kstate \<Rightarrow> byte list list" where
  "dev_lines s = map (\<lambda>e. block_bytes (kheap s) (buffptr e) (unat (esize e))) (cb_items (buff s))"

definition dev_partial :: "kstate \<Rightarrow> byte list" where
  "dev_partial s = block_bytes (kheap s) (buffPtr (stage s)) (unat (endIdx (stage s)))"

text \<open>
  Splitting input at newlines: the complete lines, the first continuing \<open>cur\<close>, and the
  bytes after the last newline.
\<close>

fun split_lines :: "byte list \<Rightarrow> byte list \<Rightarrow> byte list list \<times> byte list" where
  "split_lines cur [] = ([], cur)"
| "split_lines cur (c # cs) =
     (if c = NL then (let (ls, r) = split_lines [] cs in ((cur @ [c]) # ls, r))
      else split_lines (cur @ [c]) cs)"

lemma split_lines_concat: "split_lines cur cs = (ls, r) \<Longrightarrow> concat ls @ r = cur @ cs"
  by (induction cur cs arbitrary: ls r rule: split_lines.induct)
     (fastforce split: if_splits prod.splits)+

lemma split_lines_ends:
  "split_lines cur cs = (ls, r) \<Longrightarrow> \<forall>l \<in> set ls. l \<noteq> [] \<and> last l = NL"
  by (induction cur cs arbitrary: ls r rule: split_lines.induct)
     (fastforce split: if_splits prod.splits)+

lemma split_lines_rest:
  "split_lines cur cs = (ls, r) \<Longrightarrow> NL \<notin> set cur \<Longrightarrow> NL \<notin> set r"
  by (induction cur cs arbitrary: ls r rule: split_lines.induct)
     (fastforce split: if_splits prod.splits)+

section \<open>The heap\<close>

lemma block_bytes_simps [simp]:
  "block_bytes h None n = []"
  "h a = Some blk \<Longrightarrow> block_bytes h (Some a) n = take n blk"
  "h a = None \<Longrightarrow> block_bytes h (Some a) n = []"
  by (simp_all add: block_bytes_def)

lemma block_bytes_upd_other: "p \<noteq> Some a \<Longrightarrow> block_bytes (h(a := x)) p n = block_bytes h p n"
  by (cases p) (auto simp: block_bytes_def)

lemma block_ok_upd_other: "p \<noteq> Some a \<Longrightarrow> block_ok env (h(a := x)) p = block_ok env h p"
  by (auto simp: block_ok_def)

lemma list_update_copy:
  "k < length xs \<Longrightarrow> take k xs @ [c] @ drop (Suc k) xs = xs[k := c]"
  by (simp add: upd_conv_take_nth_drop)

lemma store_loop_copy:
  "h a = Some blk \<Longrightarrow> base + count \<le> length blk \<Longrightarrow> count \<le> length buf \<Longrightarrow> i \<le> count \<Longrightarrow>
     store_loop h (Some a) base buf i count
       = Inr (h(a \<mapsto> take (base + i) blk @ take (count - i) (drop i buf) @ drop (base + count) blk))"
proof (induction h "Some a" base buf i count arbitrary: blk rule: store_loop.induct)
  case (1 h base buf i count)
  show ?case
  proof (cases "i < count")
    case False
    with "1.prems" have "i = count" by simp
    then show ?thesis
      using "1.prems" by (subst store_loop.simps) (simp add: fun_upd_idem)
  next
    case True
    then have i: "base + i < length blk" "i < length buf" using "1.prems" by simp_all
    have wr: "kwrite h (Some a) (base + i) (buf ! i) = Inr (h(a \<mapsto> blk[base + i := buf ! i]))"
      using "1.prems"(1) i by (simp add: kwrite_def)
    have "store_loop h (Some a) base buf i count
        = store_loop (h(a \<mapsto> blk[base + i := buf ! i])) (Some a) base buf (Suc i) count"
      using True i by (subst store_loop.simps) (simp add: wr)
    also have "\<dots> = Inr (h(a \<mapsto> take (base + Suc i) (blk[base + i := buf ! i])
        @ take (count - Suc i) (drop (Suc i) buf) @ drop (base + count) (blk[base + i := buf ! i])))"
      using "1.hyps" [OF True _ wr, of "blk[base + i := buf ! i]"] "1.prems" True i by simp
    also have "take (base + Suc i) (blk[base + i := buf ! i]) = take (base + i) blk @ [buf ! i]"
      using i by (simp add: take_Suc_update)
    also have "drop (base + count) (blk[base + i := buf ! i]) = drop (base + count) blk"
      using True by simp
    also have "(take (base + i) blk @ [buf ! i]) @ take (count - Suc i) (drop (Suc i) buf) @ drop (base + count) blk
        = take (base + i) blk @ take (count - i) (drop i buf) @ drop (base + count) blk"
      using True i by (simp add: Cons_nth_drop_Suc [symmetric] take_Cons' )
    finally show ?thesis .
  qed
qed

section \<open>Storing a partial line\<close>

text \<open>What no step of a write touches.\<close>

definition frame :: "kstate \<Rightarrow> kstate \<Rightarrow> bool" where
  "frame s s' \<longleftrightarrow> lseekPos s' = lseekPos s \<and> entryMutex s' = entryMutex s \<and>
     buffMutex s' = buffMutex s \<and> stage_size (stage s') = stage_size (stage s)"

lemma frame_refl [simp]: "frame s s"
  by (simp add: frame_def)

lemma frame_trans [trans]: "frame s t \<Longrightarrow> frame t u \<Longrightarrow> frame s u"
  by (simp add: frame_def)

lemma frame_tick [simp]: "frame s (tick s)"
  by (simp add: frame_def tick_def)

lemma tick_simps [simp]:
  "stage (tick s) = stage s" "buff (tick s) = buff s" "kheap (tick s) = kheap s"
  "next_block (tick s) = next_block s" "lseekPos (tick s) = lseekPos s"
  "entryMutex (tick s) = entryMutex s" "buffMutex (tick s) = buffMutex s"
  by (simp_all add: tick_def)

lemma dev_inv_cong:
  "buff s' = buff s \<Longrightarrow> kheap s' = kheap s \<Longrightarrow> next_block s' = next_block s \<Longrightarrow>
   buffPtr (stage s') = buffPtr (stage s) \<Longrightarrow> endIdx (stage s') = endIdx (stage s) \<Longrightarrow>
   dev_inv env s' = dev_inv env s"
  by (simp add: dev_inv_def owned_def)

lemma dev_lines_cong:
  "buff s' = buff s \<Longrightarrow> kheap s' = kheap s \<Longrightarrow> dev_lines s' = dev_lines s"
  by (simp add: dev_lines_def)

lemma dev_partial_cong:
  "stage s' = stage s \<Longrightarrow> kheap s' = kheap s \<Longrightarrow> dev_partial s' = dev_partial s"
  by (simp add: dev_partial_def)

lemma dev_inv_tick [simp]: "dev_inv env (tick s) = dev_inv env s"
  by (rule dev_inv_cong) simp_all

lemma dev_lines_tick [simp]: "dev_lines (tick s) = dev_lines s"
  by (rule dev_lines_cong) simp_all

lemma dev_partial_tick [simp]: "dev_partial (tick s) = dev_partial s"
  by (rule dev_partial_cong) simp_all

lemma item_ptr_not_stage:
  "dev_inv env s \<Longrightarrow> buffPtr (stage s) = Some a \<Longrightarrow> e \<in> set (cb_items (buff s)) \<Longrightarrow> buffptr e \<noteq> Some a"
  by (force simp: dev_inv_def owned_def)

lemma item_ptr_in_dom:
  "dev_inv env s \<Longrightarrow> e \<in> set (cb_items (buff s)) \<Longrightarrow> buffptr e \<in> Some ` dom (kheap s)"
  by (fastforce simp: dev_inv_def block_ok_def)

text \<open>The allocation of a staging buffer.\<close>

definition stage_alloc :: "kernel_env \<Rightarrow> kstate \<Rightarrow> kstate" where
  "stage_alloc env s =
     (let s = snd (kmalloc env s)
      in s\<lparr>stage := (stage s)\<lparr>buffPtr := Some (next_block s - 1)\<rparr>\<rparr>)"

lemma stage_alloc_simps:
  assumes "\<not> kmalloc_fails env (clock s)"
  shows "kmalloc env s = (Some (next_block s), snd (kmalloc env s))"
    and "buffPtr (stage (stage_alloc env s)) = Some (next_block s)"
    and "endIdx (stage (stage_alloc env s)) = endIdx (stage s)"
    and "frame s (stage_alloc env s)"
    and "buff (stage_alloc env s) = buff s"
    and "kheap (stage_alloc env s) = (kheap s)(next_block s \<mapsto>
           map (kmalloc_junk env (clock s)) [0..<unat (KMALLOC_MAX_SIZE env)])"
    and "next_block (stage_alloc env s) = Suc (next_block s)"
  using assms by (simp_all add: stage_alloc_def kmalloc_def frame_def)

lemma dev_inv_stage_alloc:
  assumes inv: "dev_inv env s" and none: "buffPtr (stage s) = None"
    and ok: "\<not> kmalloc_fails env (clock s)"
  shows "dev_inv env (stage_alloc env s) \<and> dev_lines (stage_alloc env s) = dev_lines s \<and>
     dev_partial (stage_alloc env s) = dev_partial s"
proof -
  let ?n = "next_block s"
  have fresh: "?n \<notin> dom (kheap s)"
    using inv by (auto simp: dev_inv_def)
  have other: "buffptr e \<noteq> Some ?n" if "e \<in> set (cb_items (buff s))" for e
    using item_ptr_in_dom [OF inv that] fresh by auto
  have own: "owned (stage_alloc env s) = owned s @ [Some ?n]"
    using none by (simp add: owned_def stage_alloc_simps [OF ok])
  have "distinct (owned (stage_alloc env s))"
    and "set (owned (stage_alloc env s)) = Some ` dom (kheap (stage_alloc env s))"
    using inv fresh by (auto simp: own dev_inv_def stage_alloc_simps [OF ok])
  moreover have "endIdx (stage s) = 0"
    using inv none by (simp add: dev_inv_def)
  ultimately have "dev_inv env (stage_alloc env s)"
    using inv other by (auto simp: dev_inv_def stage_alloc_simps [OF ok] block_ok_upd_other)
      (auto simp: block_ok_def less_Suc_eq)
  moreover have "dev_lines (stage_alloc env s) = dev_lines s"
    using other by (auto simp: dev_lines_def stage_alloc_simps [OF ok] block_bytes_upd_other)
  moreover have "dev_partial (stage_alloc env s) = dev_partial s"
    using none \<open>endIdx (stage s) = 0\<close> by (simp add: dev_partial_def stage_alloc_simps [OF ok])
  ultimately show ?thesis by simp
qed

lemma StorePartial_stored:
  assumes inv: "dev_inv env s" and some: "buffPtr (stage s) = Some a"
    and size: "stage_size (stage s) = KMALLOC_MAX_SIZE env"
    and c: "0 < unat count" "unat count \<le> length buf"
      "unat (endIdx (stage s)) + unat count \<le> unat (KMALLOC_MAX_SIZE env)"
  shows "\<exists>s'. StorePartial env buf count s = Inr (0, s') \<and> dev_inv env s' \<and> frame s s' \<and>
    dev_lines s' = dev_lines s \<and> dev_partial s' = dev_partial s @ take (unat count) buf \<and>
    buffPtr (stage s') = Some a \<and>
    unat (endIdx (stage s')) = unat (endIdx (stage s)) + unat count \<and> buff s' = buff s"
proof -
  let ?n = "unat (endIdx (stage s))"
  let ?m = "unat count"
  obtain blk where blk: "kheap s a = Some blk" "length blk = unat (KMALLOC_MAX_SIZE env)"
    using inv some by (auto simp: dev_inv_def block_ok_def)
  let ?blk = "take ?n blk @ take ?m buf @ drop (?n + ?m) blk"
  have add: "unat (endIdx (stage s) + count) = ?n + ?m"
    using c(3) unat_less_64 [of "KMALLOC_MAX_SIZE env"] by (intro unat_add_64) simp
  have len: "length ?blk = length blk"
    using c blk by simp
  let ?s = "s\<lparr>kheap := (kheap s)(a \<mapsto> ?blk), stage := (stage s)\<lparr>endIdx := endIdx (stage s) + count\<rparr>\<rparr>"
  have "store_loop (kheap s) (Some a) ?n buf 0 ?m = Inr ((kheap s)(a \<mapsto> ?blk))"
    using store_loop_copy [of "kheap s" a blk ?n ?m buf 0] c blk by simp
  moreover have "count \<noteq> 0" "\<not> endIdx (stage s) + count > stage_size (stage s)"
    using c add size by (auto simp: word_less_nat_alt)
  ultimately have "StorePartial env buf count s = Inr (0, ?s)"
    using some by (simp add: StorePartial_def)
  moreover have other: "buffptr e \<noteq> Some a" if "e \<in> set (cb_items (buff s))" for e
    using item_ptr_not_stage [OF inv some that] .
  moreover have "dev_inv env ?s"
  proof -
    have "owned ?s = owned s" using some by (simp add: owned_def)
    moreover have "dom (kheap ?s) = dom (kheap s)" using blk by auto
    ultimately show ?thesis
      using inv some other add c len blk
      by (auto simp: dev_inv_def block_ok_upd_other) (auto simp: block_ok_def)
  qed
  moreover have "dev_lines ?s = dev_lines s"
    using other by (auto simp: dev_lines_def block_bytes_upd_other)
  moreover have "dev_partial ?s = dev_partial s @ take ?m buf"
    using some blk add c by (simp add: dev_partial_def)
  ultimately show ?thesis
    using some add by (intro exI [of _ ?s]) (simp add: frame_def)
qed

text \<open>Both outcomes: the allocation failed and nothing happened, or the bytes are stored.\<close>

lemma StorePartial_cases:
  assumes inv: "dev_inv env s"
    and size: "stage_size (stage s) = KMALLOC_MAX_SIZE env"
    and c: "0 < unat count" "unat count \<le> length buf"
      "unat (endIdx (stage s)) + unat count \<le> unat (KMALLOC_MAX_SIZE env)"
  obtains
    (failed) "StorePartial env buf count s = Inr (- ENOMEM, tick s)"
      "buffPtr (stage s) = None" "kmalloc_fails env (clock s)"
  | (stored) s' where "StorePartial env buf count s = Inr (0, s')" "dev_inv env s'" "frame s s'"
      "dev_lines s' = dev_lines s" "dev_partial s' = dev_partial s @ take (unat count) buf"
      "buffPtr (stage s') \<noteq> None"
      "unat (endIdx (stage s')) = unat (endIdx (stage s)) + unat count" "buff s' = buff s"
proof (cases "buffPtr (stage s)")
  case (Some a)
  show thesis
    using StorePartial_stored [OF inv Some size c] that(2) by force
next
  case None
  have c0: "count \<noteq> 0" using c by auto
  show thesis
  proof (cases "kmalloc_fails env (clock s)")
    case True
    then have "StorePartial env buf count s = Inr (- ENOMEM, tick s)"
      using None c0 by (simp add: StorePartial_def kmalloc_def)
    with None True that(1) show thesis by blast
  next
    case ok: False
    note simps = stage_alloc_simps [OF ok]
    let ?s = "stage_alloc env s"
    have eq: "StorePartial env buf count s = StorePartial env buf count ?s"
      using None ok by (simp add: StorePartial_def kmalloc_def stage_alloc_def c0)
    have alloc: "dev_inv env ?s" "dev_lines ?s = dev_lines s" "dev_partial ?s = dev_partial s"
      using dev_inv_stage_alloc [OF inv None ok] by blast+
    have sz: "stage_size (stage ?s) = KMALLOC_MAX_SIZE env"
      using simps(4) size by (simp add: frame_def)
    have fits: "unat (endIdx (stage ?s)) + unat count \<le> unat (KMALLOC_MAX_SIZE env)"
      using c(3) simps(3) by simp
    obtain s' where s': "StorePartial env buf count ?s = Inr (0, s')" "dev_inv env s'" "frame ?s s'"
      "dev_lines s' = dev_lines ?s" "dev_partial s' = dev_partial ?s @ take (unat count) buf"
      "buffPtr (stage s') = Some (next_block s)"
      "unat (endIdx (stage s')) = unat (endIdx (stage ?s)) + unat count" "buff s' = buff ?s"
      using StorePartial_stored [OF alloc(1) simps(2) sz c(1,2) fits] by blast
    show thesis
    proof (rule that(2))
      show "StorePartial env buf count s = Inr (0, s')" using eq s'(1) by simp
      show "frame s s'" using simps(4) s'(3) by (rule frame_trans)
    qed (simp_all add: s' alloc simps)
  qed
qed

section \<open>Flushing\<close>

lemma sum_items_bound:
  assumes "dev_inv env s" "env_ok env"
  shows "sum_list (item_sizes (cb_items (buff s))) < 2 ^ 31"
proof -
  let ?es = "cb_items (buff s)"
  have "sum_list (item_sizes ?es) \<le> sum_list (map (\<lambda>e. unat (KMALLOC_MAX_SIZE env)) ?es)"
    using assms(1) by (intro sum_list_mono) (simp add: dev_inv_def)
  also have "\<dots> = length ?es * unat (KMALLOC_MAX_SIZE env)"
    by (simp add: sum_list_triv)
  also have "\<dots> \<le> 10 * unat (KMALLOC_MAX_SIZE env)"
    using assms(1) length_cb_items_le [of "buff s"] by (simp add: dev_inv_def)
  also have "\<dots> < 2 ^ 31"
    using assms(2) by (simp add: env_ok_def)
  finally show ?thesis .
qed

lemma dev_fits: "dev_inv env s \<Longrightarrow> env_ok env \<Longrightarrow> cb_fits (buff s)"
  using sum_items_bound [of env s] by (simp add: cb_fits_def)

text \<open>Freeing what the ring evicts leaves the blocks of the other owners as they are.\<close>

lemma kfree_evicted:
  assumes "set ((if evicts then [r] else []) @ kept) = Some ` dom K" "distinct ((if evicts then [r] else []) @ kept)"
    and "\<not> evicts \<longrightarrow> r = None"
  shows "\<exists>h. kfree K r = Inr h \<and> Some ` dom h = set kept \<and> dom h \<subseteq> dom K \<and>
    (\<forall>p \<in> set kept. block_ok env h p = block_ok env K p \<and> (\<forall>n. block_bytes h p n = block_bytes K p n))"
proof (cases evicts)
  case True
  then have "r \<in> Some ` dom K" using assms(1) by (metis list.set_intros(1) append_Cons)
  then obtain x where x: "r = Some x" "x \<in> dom K" by auto
  have kept: "Some x \<notin> set kept" "insert (Some x) (set kept) = Some ` dom K"
    using assms(1,2) x(1) True by auto
  have "Some ` dom (K(x := None)) = Some ` dom K - {Some x}" by auto
  also have "\<dots> = set kept" unfolding kept(2) [symmetric] using kept(1) by blast
  finally have "Some ` dom (K(x := None)) = set kept" .
  moreover have "p \<noteq> Some x" if "p \<in> set kept" for p using kept(1) that by metis
  ultimately show ?thesis
    using x by (intro exI [of _ "K(x := None)"]) (auto simp: kfree_def block_ok_upd_other block_bytes_upd_other)
next
  case False
  with assms show ?thesis by (auto simp: kfree_def)
qed

text \<open>After a flush the staging buffer is an entry, and the oldest of ten entries is freed.\<close>

lemma FlushPartial_flushed:
  assumes inv: "dev_inv env s" and some: "buffPtr (stage s) = Some a"
    and pos: "0 < unat (endIdx (stage s))"
    and nomutex: "\<not> buffMutex s" and noint: "\<not> lock_interrupted env (clock s)"
  shows "\<exists>s'. FlushPartial env s = Inr (0, s') \<and> dev_inv env s' \<and> frame s s' \<and>
    dev_lines s' = keep_last 10 (dev_lines s @ [dev_partial s]) \<and> dev_partial s' = [] \<and>
    buffPtr (stage s') = None \<and> endIdx (stage s') = 0"
proof -
  let ?e = "\<lparr>buffptr = Some a, esize = endIdx (stage s)\<rparr>"
  let ?items = "cb_items (buff s)"
  let ?r = "ring_evicts (buff s)"
  have cb: "cb_inv (buff s)" using inv by (simp add: dev_inv_def)
  obtain b where b: "aesd_circular_buffer_add_entry (buff s) ?e = Inr (b, ?r)"
    "cb_inv b" "cb_items b = keep_last 10 (?items @ [?e])"
    using add_entry_keep_last [OF cb, of ?e] by blast
  let ?kept = "map buffptr (cb_items b)"
  have own: "owned s = (if length ?items = 10 then [?r] else []) @ ?kept"
    using ring.add_conserves [OF cb b(1)] some by (simp add: owned_def)
  have dom: "set (owned s) = Some ` dom (kheap s)" "distinct (owned s)"
    using inv by (simp_all add: dev_inv_def)
  obtain h where h: "kfree (kheap s) ?r = Inr h" "Some ` dom h = set ?kept" "dom h \<subseteq> dom (kheap s)"
    "\<forall>p \<in> set ?kept. block_ok env h p = block_ok env (kheap s) p \<and>
       (\<forall>n. block_bytes h p n = block_bytes (kheap s) p n)"
  proof -
    have "length ?items \<noteq> 10 \<longrightarrow> ?r = None" using cb by (auto simp: ring_evicts_def length_cb_items)
    from kfree_evicted [of "length ?items = 10" ?r ?kept "kheap s" env, folded own, OF dom this]
    show thesis by (elim exE conjE) (rule that)
  qed
  let ?s = "unlock_buff ((tick s)\<lparr>buffMutex := True, buff := b, kheap := h,
              stage := (stage s)\<lparr>buffPtr := None, endIdx := 0\<rparr>\<rparr>)"
  have "FlushPartial env s = Inr (0, ?s)"
    using some nomutex noint b(1) h(1) by (simp add: FlushPartial_def lock_buff_def)
  moreover have sub: "set (cb_items b) \<subseteq> set (?items @ [?e])"
    using set_keep_last [of 10 "?items @ [?e]"] b(3) by simp
  moreover have "dev_inv env ?s"
  proof -
    have "\<forall>e \<in> set (?items @ [?e]). block_ok env (kheap s) (buffptr e) \<and> 0 < unat (esize e) \<and>
        unat (esize e) \<le> unat (KMALLOC_MAX_SIZE env)"
      using inv some pos by (simp add: dev_inv_def)
    then have "\<forall>e \<in> set (cb_items b). block_ok env h (buffptr e) \<and> 0 < unat (esize e) \<and>
        unat (esize e) \<le> unat (KMALLOC_MAX_SIZE env)"
      using sub h(4) by (metis (no_types, lifting) in_set_conv_nth length_map nth_map subsetD)
    moreover have "owned ?s = ?kept" by (simp add: owned_def unlock_buff_def)
    moreover have "distinct ?kept" using own dom(2) by (metis distinct_append)
    moreover have "\<forall>a \<in> dom h. a < next_block s"
    proof -
      have "\<forall>a \<in> dom (kheap s). a < next_block s" using inv by (simp add: dev_inv_def)
      then show ?thesis using h(3) by (meson subsetD)
    qed
    ultimately show ?thesis
      using b(2) h(2) by (simp add: dev_inv_def unlock_buff_def)
  qed
  moreover have "dev_lines ?s = keep_last 10 (dev_lines s @ [dev_partial s])"
  proof -
    have "dev_lines ?s = map (\<lambda>e. block_bytes (kheap s) (buffptr e) (unat (esize e))) (cb_items b)"
      using h(4) by (simp add: dev_lines_def unlock_buff_def)
    also have "\<dots> = keep_last 10 (dev_lines s @ [dev_partial s])"
      using some by (simp add: b(3) map_keep_last dev_lines_def dev_partial_def)
    finally show ?thesis .
  qed
  ultimately show ?thesis
    using nomutex by (intro exI [of _ ?s]) (simp add: frame_def unlock_buff_def dev_partial_def)
qed

lemma FlushPartial_interrupted:
  "lock_interrupted env (clock s) \<Longrightarrow> FlushPartial env s = Inr (- ENOMEM, tick s)"
  by (simp add: FlushPartial_def lock_buff_def)

section \<open>The write loop\<close>

text \<open>Everything a reader can still get, and the unfinished line, as one byte sequence.\<close>

definition dev_stream :: "kstate \<Rightarrow> byte list" where
  "dev_stream s = concat (dev_lines s) @ dev_partial s"

lemma concat_keep_last: "\<exists>d. concat xs = d @ concat (keep_last n xs)"
  by (metis append_take_drop_id concat_append keep_last_def)

lemma stream_after_flush:
  "dev_lines s' = keep_last 10 (dev_lines s @ [dev_partial s]) \<Longrightarrow> dev_partial s' = [] \<Longrightarrow>
     \<exists>d. dev_stream s = d @ dev_stream s'"
  using concat_keep_last [of "dev_lines s @ [dev_partial s]" 10] by (simp add: dev_stream_def)

text \<open>A flush never faults when a partial line is there; no byte is lost but for evicted lines.\<close>

lemma FlushPartial_cases:
  assumes "dev_inv env s" "buffPtr (stage s) \<noteq> None" "0 < unat (endIdx (stage s))" "\<not> buffMutex s"
  obtains (interrupted) "FlushPartial env s = Inr (- ENOMEM, tick s)" "lock_interrupted env (clock s)"
  | (flushed) s' where "FlushPartial env s = Inr (0, s')" "dev_inv env s'" "frame s s'"
      "dev_lines s' = keep_last 10 (dev_lines s @ [dev_partial s])" "dev_partial s' = []"
      "endIdx (stage s') = 0"
proof (cases "lock_interrupted env (clock s)")
  case True
  then show thesis using FlushPartial_interrupted that(1) by blast
next
  case False
  from assms(2) obtain a where a: "buffPtr (stage s) = Some a" by auto
  show thesis
    using FlushPartial_flushed [OF assms(1) a assms(3,4) False] that(2) by blast
qed

text \<open>The turns of the write loop.\<close>

lemma write_loop_done: "\<not> b + i < count \<Longrightarrow> write_loop env buf count i b s = Inr (Some b, s)"
  by (subst write_loop.simps) simp

lemma write_loop_char:
  "b + i < count \<Longrightarrow> b + i < length buf \<Longrightarrow> buf ! (b + i) \<noteq> NL \<Longrightarrow>
     write_loop env buf count i b s = write_loop env buf count (Suc i) b s"
  by (subst write_loop.simps) simp

lemma write_loop_line:
  "b + i < count \<Longrightarrow> b + i < length buf \<Longrightarrow> buf ! (b + i) = NL \<Longrightarrow>
     StorePartial env (drop b buf) (of_nat (Suc i)) s = Inr (0, s1) \<Longrightarrow> FlushPartial env s1 = Inr (r, s2) \<Longrightarrow>
     write_loop env buf count i b s = write_loop env buf count 0 (b + Suc i) s2"
  by (subst write_loop.simps) simp

lemma write_loop_stop:
  "b + i < count \<Longrightarrow> b + i < length buf \<Longrightarrow> buf ! (b + i) = NL \<Longrightarrow>
     StorePartial env (drop b buf) (of_nat (Suc i)) s = Inr (- ENOMEM, s1) \<Longrightarrow>
     write_loop env buf count i b s = Inr (None, s1)"
  by (subst write_loop.simps) (simp add: ENOMEM_def)

text \<open>The length of a line that is found fits its type and the room of the stage.\<close>

lemma line_count:
  assumes "b + i < count" "count \<le> length buf" "unat e + (count - b) \<le> unat (K :: size_t)"
  shows "unat (of_nat (Suc i) :: size_t) = Suc i" "0 < unat (of_nat (Suc i) :: size_t)"
    "unat (of_nat (Suc i) :: size_t) \<le> length (drop b buf)" "unat e + unat (of_nat (Suc i) :: size_t) \<le> unat K"
proof -
  show c: "unat (of_nat (Suc i) :: size_t) = Suc i"
    using assms(1,3) unat_less_64 [of K] by (intro unat_of_nat_64) linarith
  show "0 < unat (of_nat (Suc i) :: size_t)" "unat (of_nat (Suc i) :: size_t) \<le> length (drop b buf)"
    "unat e + unat (of_nat (Suc i) :: size_t) \<le> unat K"
    unfolding c using assms by auto
qed

lemma flush_safe:
  assumes "dev_inv env s" "buffPtr (stage s) \<noteq> None" "0 < unat (endIdx (stage s))" "\<not> buffMutex s"
  shows "\<exists>r s' d. FlushPartial env s = Inr (r, s') \<and> dev_inv env s' \<and> frame s s' \<and>
    dev_stream s = d @ dev_stream s' \<and> unat (endIdx (stage s')) \<le> unat (endIdx (stage s))"
proof (rule FlushPartial_cases [OF assms])
  assume "FlushPartial env s = Inr (- ENOMEM, tick s)"
  then show ?thesis using assms(1) by (auto simp: dev_stream_def)
next
  fix s'
  assume "FlushPartial env s = Inr (0, s')" "dev_inv env s'" "frame s s'"
    "dev_lines s' = keep_last 10 (dev_lines s @ [dev_partial s])" "dev_partial s' = []" "endIdx (stage s') = 0"
  then show ?thesis using stream_after_flush [of s' s] by auto
qed

text \<open>A line goes through the stage: it cannot be staged, or it is flushed, or stays behind a failed flush.\<close>

lemma line_staged_and_flushed:
  assumes inv: "dev_inv env s" "stage_size (stage s) = KMALLOC_MAX_SIZE env" "\<not> buffMutex s"
    and n: "b + i < count" "count \<le> length buf" "unat (endIdx (stage s)) + (count - b) \<le> unat (KMALLOC_MAX_SIZE env)"
  obtains (failed) "StorePartial env (drop b buf) (of_nat (Suc i)) s = Inr (- ENOMEM, tick s)"
      "kmalloc_fails env (clock s)"
  | (stored) s1 r s2 d where "StorePartial env (drop b buf) (of_nat (Suc i)) s = Inr (0, s1)"
      "FlushPartial env s1 = Inr (r, s2)" "dev_inv env s2" "frame s s2"
      "dev_stream s @ take (Suc i) (drop b buf) = d @ dev_stream s2"
      "stage_size (stage s2) = KMALLOC_MAX_SIZE env" "\<not> buffMutex s2"
      "unat (endIdx (stage s2)) + (count - (b + Suc i)) \<le> unat (KMALLOC_MAX_SIZE env)"
proof (rule StorePartial_cases [OF inv(1,2) line_count(2-4) [OF n]])
  fix s1
  assume st: "StorePartial env (drop b buf) (of_nat (Suc i)) s = Inr (0, s1)" "dev_inv env s1" "frame s s1"
    "dev_lines s1 = dev_lines s" "dev_partial s1 = dev_partial s @ take (unat (of_nat (Suc i) :: size_t)) (drop b buf)"
    "buffPtr (stage s1) \<noteq> None"
    "unat (endIdx (stage s1)) = unat (endIdx (stage s)) + unat (of_nat (Suc i) :: size_t)"
  note c = line_count(1) [OF n]
  have s1: "stage_size (stage s1) = KMALLOC_MAX_SIZE env" "\<not> buffMutex s1" "0 < unat (endIdx (stage s1))"
    using st(3,7) c inv(2,3) by (simp_all add: frame_def)
  obtain r s2 d where fl: "FlushPartial env s1 = Inr (r, s2)" "dev_inv env s2" "frame s1 s2"
    "dev_stream s1 = d @ dev_stream s2" "unat (endIdx (stage s2)) \<le> unat (endIdx (stage s1))"
    using flush_safe [OF st(2,6) s1(3,2)] by blast
  have "dev_stream s @ take (Suc i) (drop b buf) = d @ dev_stream s2"
    using fl(4) st(4,5) c by (simp add: dev_stream_def)
  moreover have "stage_size (stage s2) = KMALLOC_MAX_SIZE env" "\<not> buffMutex s2"
    "unat (endIdx (stage s2)) + (count - (b + Suc i)) \<le> unat (KMALLOC_MAX_SIZE env)"
    using fl(3,5) s1(1,2) st(7) c n by (auto simp: frame_def)
  ultimately show thesis
    using that(2) [OF st(1) fl(1,2) frame_trans [OF st(3) fl(3)]] by blast
qed (rule that(1))

lemma write_loop_safe:
  "dev_inv env s \<Longrightarrow> stage_size (stage s) = KMALLOC_MAX_SIZE env \<Longrightarrow> \<not> buffMutex s \<Longrightarrow>
   count \<le> length buf \<Longrightarrow> b + i \<le> count \<Longrightarrow>
   unat (endIdx (stage s)) + (count - b) \<le> unat (KMALLOC_MAX_SIZE env) \<Longrightarrow>
   \<exists>r s' k d. write_loop env buf count i b s = Inr (r, s') \<and> dev_inv env s' \<and> frame s s' \<and>
     b + k \<le> count \<and> dev_stream s @ take k (drop b buf) = d @ dev_stream s' \<and>
     unat (endIdx (stage s')) + (count - (b + k)) \<le> unat (KMALLOC_MAX_SIZE env) \<and>
     r \<in> {None, Some (b + k)} \<and> (r = None \<longrightarrow> (\<exists>n. kmalloc_fails env n))"
proof (induction env buf count i b s rule: write_loop.induct)
  case (1 env buf count i b s)
  note pre = "1.prems"
  consider "\<not> b + i < count" | "b + i < count" "buf ! (b + i) \<noteq> NL" | "b + i < count" "buf ! (b + i) = NL" by blast
  then show ?case
  proof cases
    case 1
    with pre show ?thesis
      by (intro exI [of _ "Some b"] exI [of _ s] exI [of _ 0] exI [of _ "[]"]) (simp add: write_loop_done)
  next
    case 2
    with pre(4) "1.IH"(2) [OF 2(1) _ 2(2) pre(1-4) _ pre(6)] show ?thesis
      by (simp add: write_loop_char Suc_le_eq)
  next
    case nl: 3
    then have len: "b + i < length buf" using pre(4) by simp
    show ?thesis
    proof (cases rule: line_staged_and_flushed [OF pre(1-3) nl(1) pre(4,6), case_names failed stored])
      case failed
      with write_loop_stop [OF nl(1) len nl(2) failed(1)] pre show ?thesis
        by (intro exI [of _ None] exI [of _ "tick s"] exI [of _ 0] exI [of _ "[]"]) (auto simp: dev_stream_def)
    next
      case (stored s1 r2 s2 d)
      have ok: "\<not> \<not> b + i < length buf" "\<not> (0 :: ssize_t) \<noteq> 0" "b + Suc i + 0 \<le> count" using len nl by simp_all
      obtain r s' k d2 where IH: "write_loop env buf count 0 (b + Suc i) s2 = Inr (r, s')"
        "dev_inv env s'" "frame s2 s'" "b + Suc i + k \<le> count"
        "dev_stream s2 @ take k (drop (b + Suc i) buf) = d2 @ dev_stream s'"
        "unat (endIdx (stage s')) + (count - (b + Suc i + k)) \<le> unat (KMALLOC_MAX_SIZE env)"
        "r \<in> {None, Some (b + Suc i + k)}" "r = None \<longrightarrow> (\<exists>n. kmalloc_fails env n)"
        using "1.IH"(1) [OF nl(1) ok(1) nl(2) stored(1) refl ok(2) stored(2) refl stored(3,6,7) pre(4) ok(3) stored(8)]
        by blast
      have "take (Suc i + k) (drop b buf) = take (Suc i) (drop b buf) @ take k (drop (b + Suc i) buf)"
        by (metis add.commute drop_drop take_add)
      then have "dev_stream s @ take (Suc i + k) (drop b buf) = (d @ d2) @ dev_stream s'"
        using stored(5) IH(5) by (metis append.assoc)
      with IH write_loop_line [OF nl(1) len nl(2) stored(1,2)] frame_trans [OF stored(4) IH(3)] show ?thesis
        by (intro exI [of _ r] exI [of _ s'] exI [of _ "Suc i + k"] exI [of _ "d @ d2"]) (auto simp: add.assoc)
    qed
  qed
qed

text \<open>With a quiet kernel the loop stores exactly the complete lines of its input.\<close>

lemma split_lines_at_end:
  "b + i = length buf \<Longrightarrow> split_lines (p @ take i (drop b buf)) (drop (b + i) buf) = ([], p @ drop b buf)"
  by simp

lemma line_flushed:
  assumes inv: "dev_inv env s" "stage_size (stage s) = KMALLOC_MAX_SIZE env" "\<not> buffMutex s" and q: "quiet env"
    and n: "b + i < count" "count \<le> length buf" "unat (endIdx (stage s)) + (count - b) \<le> unat (KMALLOC_MAX_SIZE env)"
  obtains s1 s2 where "StorePartial env (drop b buf) (of_nat (Suc i)) s = Inr (0, s1)"
    "FlushPartial env s1 = Inr (0, s2)" "dev_inv env s2" "frame s s2"
    "dev_lines s2 = keep_last 10 (dev_lines s @ [dev_partial s @ take (Suc i) (drop b buf)])"
    "dev_partial s2 = []" "endIdx (stage s2) = 0"
proof (rule StorePartial_cases [OF inv(1,2) line_count(2-4) [OF n]])
  fix s1
  assume st: "StorePartial env (drop b buf) (of_nat (Suc i)) s = Inr (0, s1)" "dev_inv env s1" "frame s s1"
    "dev_lines s1 = dev_lines s" "dev_partial s1 = dev_partial s @ take (unat (of_nat (Suc i) :: size_t)) (drop b buf)"
    "buffPtr (stage s1) \<noteq> None"
    "unat (endIdx (stage s1)) = unat (endIdx (stage s)) + unat (of_nat (Suc i) :: size_t)"
  have s1: "0 < unat (endIdx (stage s1))" "\<not> buffMutex s1"
    using st(3,7) line_count(1) [OF n] inv(3) by (simp_all add: frame_def)
  show thesis
  proof (rule FlushPartial_cases [OF st(2,6) s1])
    fix s2
    assume "FlushPartial env s1 = Inr (0, s2)" "dev_inv env s2" "frame s1 s2"
      "dev_lines s2 = keep_last 10 (dev_lines s1 @ [dev_partial s1])" "dev_partial s2 = []" "endIdx (stage s2) = 0"
    with st line_count(1) [OF n] show thesis by (intro that [of s1 s2]) (auto intro: frame_trans)
  qed (use q in \<open>simp add: quiet_def\<close>)
qed (use q in \<open>simp add: quiet_def\<close>)

lemma write_loop_lines:
  "dev_inv env s \<Longrightarrow> quiet env \<Longrightarrow> stage_size (stage s) = KMALLOC_MAX_SIZE env \<Longrightarrow> \<not> buffMutex s \<Longrightarrow>
   count = length buf \<Longrightarrow> b + i \<le> count \<Longrightarrow>
   unat (endIdx (stage s)) + (count - b) \<le> unat (KMALLOC_MAX_SIZE env) \<Longrightarrow>
   split_lines (dev_partial s @ take i (drop b buf)) (drop (b + i) buf) = (ls, r) \<Longrightarrow>
   \<exists>b' s'. write_loop env buf count i b s = Inr (Some b', s') \<and> dev_inv env s' \<and> frame s s' \<and>
     b' \<le> count \<and> dev_lines s' = keep_last 10 (dev_lines s @ ls) \<and>
     dev_partial s' @ drop b' buf = r \<and>
     unat (endIdx (stage s')) + (count - b') \<le> unat (KMALLOC_MAX_SIZE env)"
proof (induction env buf count i b s arbitrary: ls rule: write_loop.induct)
  case (1 env buf count i b s)
  note pre = "1.prems"
  have short: "length (dev_lines s) \<le> 10"
    using pre(1) length_cb_items_le [of "buff s"] by (simp add: dev_inv_def dev_lines_def)
  show ?case
  proof (cases "b + i < count")
    case False
    then have "ls = [] \<and> dev_partial s @ drop b buf = r"
      using pre(5,6,8) by (simp add: split_lines_at_end)
    with False pre short show ?thesis by (auto simp: keep_last_small write_loop_done)
  next
    case lt: True
    then have len: "b + i < length buf" using pre(5) by simp
    have cons: "drop (b + i) buf = buf ! (b + i) # drop (b + Suc i) buf"
      using len by (simp add: Cons_nth_drop_Suc)
    have snoc: "take (Suc i) (drop b buf) = take i (drop b buf) @ [buf ! (b + i)]"
      using len by (simp add: take_Suc_conv_app_nth)
    show ?thesis
    proof (cases "buf ! (b + i) = NL")
      case False
      have "split_lines (dev_partial s @ take (Suc i) (drop b buf)) (drop (b + Suc i) buf) = (ls, r)"
        using pre(8) False by (simp add: cons snoc)
      then show ?thesis
        using "1.IH"(2) [OF lt _ False pre(1-5) _ pre(7)] len lt by (simp add: write_loop_char [OF lt len False])
    next
      case nl: True
      let ?line = "dev_partial s @ take (Suc i) (drop b buf)"
      obtain ls' where ls': "split_lines [] (drop (b + Suc i) buf) = (ls', r)" "ls = ?line # ls'"
        using pre(8) nl by (auto simp: cons snoc split: prod.splits)
      have "count \<le> length buf" using pre(5) by simp
      from line_flushed [OF pre(1,3,4,2) lt this pre(7)] obtain s1 s2 where
        fl: "StorePartial env (drop b buf) (of_nat (Suc i)) s = Inr (0, s1)" "FlushPartial env s1 = Inr (0, s2)"
          "dev_inv env s2" "frame s s2" "dev_lines s2 = keep_last 10 (dev_lines s @ [?line])"
          "dev_partial s2 = []" "endIdx (stage s2) = 0" .
      have pre2: "stage_size (stage s2) = KMALLOC_MAX_SIZE env" "\<not> buffMutex s2"
        "unat (endIdx (stage s2)) + (count - (b + Suc i)) \<le> unat (KMALLOC_MAX_SIZE env)"
        using fl(4,7) pre lt by (auto simp: frame_def)
      have "split_lines (dev_partial s2 @ take 0 (drop (b + Suc i) buf)) (drop (b + Suc i + 0) buf) = (ls', r)"
        using ls' fl(6) by simp
      then obtain b' s' where IH: "write_loop env buf count 0 (b + Suc i) s2 = Inr (Some b', s')"
        "dev_inv env s'" "frame s2 s'" "b' \<le> count" "dev_lines s' = keep_last 10 (dev_lines s2 @ ls')"
        "dev_partial s' @ drop b' buf = r"
        "unat (endIdx (stage s')) + (count - b') \<le> unat (KMALLOC_MAX_SIZE env)"
        using "1.IH"(1) [OF lt _ nl fl(1) refl _ fl(2) refl fl(3) pre(2) pre2(1,2) pre(5) _ pre2(3)] len lt
        by auto
      have "dev_lines s' = keep_last 10 (dev_lines s @ ls)"
        using IH(5) fl(5) ls'(2) by (simp add: keep_last_append)
      with IH write_loop_line [OF lt len nl fl(1,2)] frame_trans [OF fl(4) IH(3)] show ?thesis by auto
    qed
  qed
qed

end
