(* ===== verification/Device_Ops.thy ===== *)
theory Device_Ops
  imports Char_Device
begin

text \<open>
  What the file operations of the character device do to the stored writes
  (\<open>dev_lines\<close>), the unfinished write (\<open>dev_partial\<close>) and the position, and that they
  never fault: one section per operation of \<open>aesd_fops\<close>, each with its properties.
\<close>

section \<open>Fields the abstraction does not see\<close>

lemma dev_inv_fields [simp]:
  "dev_inv env (s\<lparr>entryMutex := m\<rparr>) = dev_inv env s"
  "dev_inv env (s\<lparr>buffMutex := m\<rparr>) = dev_inv env s"
  "dev_inv env (s\<lparr>lseekPos := p\<rparr>) = dev_inv env s"
  "dev_inv env (s\<lparr>stage := (stage s)\<lparr>stage_size := z\<rparr>\<rparr>) = dev_inv env s"
  "dev_inv env (unlock_buff s) = dev_inv env s"
  "dev_inv env (unlock_entry s) = dev_inv env s"
  by (simp_all add: dev_inv_def owned_def unlock_buff_def unlock_entry_def)

lemma dev_lines_fields [simp]:
  "dev_lines (s\<lparr>entryMutex := m\<rparr>) = dev_lines s"
  "dev_lines (s\<lparr>buffMutex := m\<rparr>) = dev_lines s"
  "dev_lines (s\<lparr>lseekPos := p\<rparr>) = dev_lines s"
  "dev_lines (s\<lparr>stage := g\<rparr>) = dev_lines s"
  "dev_lines (unlock_buff s) = dev_lines s"
  "dev_lines (unlock_entry s) = dev_lines s"
  by (auto intro: dev_lines_cong simp: unlock_buff_def unlock_entry_def)

lemma dev_partial_fields [simp]:
  "dev_partial (s\<lparr>entryMutex := m\<rparr>) = dev_partial s"
  "dev_partial (s\<lparr>buffMutex := m\<rparr>) = dev_partial s"
  "dev_partial (s\<lparr>lseekPos := p\<rparr>) = dev_partial s"
  "dev_partial (s\<lparr>stage := (stage s)\<lparr>stage_size := z\<rparr>\<rparr>) = dev_partial s"
  "dev_partial (unlock_buff s) = dev_partial s"
  "dev_partial (unlock_entry s) = dev_partial s"
  by (auto simp: dev_partial_def unlock_buff_def unlock_entry_def)

lemma dev_stream_fields [simp]:
  "dev_stream (tick s) = dev_stream s"
  "dev_stream (unlock_buff s) = dev_stream s"
  "dev_stream (unlock_entry s) = dev_stream s"
  "dev_stream (s\<lparr>entryMutex := m\<rparr>) = dev_stream s"
  by (simp_all add: dev_stream_def)

lemma length_dev_lines: "length (dev_lines s) = length (cb_items (buff s))"
  by (simp add: dev_lines_def)

lemma lengths_dev_lines:
  assumes "dev_inv env s"
  shows "map length (dev_lines s) = item_sizes (cb_items (buff s))"
proof -
  have "length (block_bytes (kheap s) (buffptr e) (unat (esize e))) = unat (esize e)"
    if "e \<in> set (cb_items (buff s))" for e
    using assms that by (auto simp: dev_inv_def block_ok_def)
  then show ?thesis by (simp add: dev_lines_def)
qed

lemma length_dev_partial: "dev_inv env s \<Longrightarrow> length (dev_partial s) = unat (endIdx (stage s))"
  by (auto simp: dev_inv_def dev_partial_def block_ok_def split: if_splits)

lemma dev_lines_nonempty: "dev_inv env s \<Longrightarrow> l \<in> set (dev_lines s) \<Longrightarrow> l \<noteq> []"
  by (fastforce simp: dev_lines_def dev_inv_def block_ok_def)

lemma dev_lines_total: "dev_inv env s \<Longrightarrow> env_ok env \<Longrightarrow> length (concat (dev_lines s)) < 2 ^ 31"
  using sum_items_bound [of env s] by (simp add: length_concat lengths_dev_lines)

lemma dev_inv_cb: "dev_inv env s \<Longrightarrow> cb_inv (buff s)"
  by (simp add: dev_inv_def)

section \<open>Write\<close>

text \<open>The state in which the loop of \<open>aesd_write\<close> starts.\<close>

definition write_entered :: "kernel_env \<Rightarrow> kstate \<Rightarrow> kstate" where
  "write_entered env s =
     (tick (s\<lparr>stage := (stage s)\<lparr>stage_size := KMALLOC_MAX_SIZE env\<rparr>\<rparr>))\<lparr>entryMutex := True\<rparr>"

lemma write_entered_simps [simp]:
  "stage_size (stage (write_entered env s)) = KMALLOC_MAX_SIZE env"
  "endIdx (stage (write_entered env s)) = endIdx (stage s)"
  "buffPtr (stage (write_entered env s)) = buffPtr (stage s)"
  "buffMutex (write_entered env s) = buffMutex s"
  "lseekPos (write_entered env s) = lseekPos s"
  "clock (write_entered env s) = Suc (clock s)"
  "dev_inv env (write_entered env s) = dev_inv env s"
  "dev_lines (write_entered env s) = dev_lines s"
  "dev_partial (write_entered env s) = dev_partial s"
  "dev_stream (write_entered env s) = dev_stream s"
  by (simp_all add: write_entered_def dev_stream_def) (simp add: tick_def)

definition fits_stage :: "kernel_env \<Rightarrow> kstate \<Rightarrow> size_t \<Rightarrow> bool" where
  "fits_stage env s count \<longleftrightarrow>
     unat (endIdx (stage s)) + unat count \<le> unat (KMALLOC_MAX_SIZE env)"

lemma aesd_write_eq:
  assumes "private_data filp \<noteq> None" "idle s" "dev_inv env s" "env_ok env"
    and "\<not> lock_interrupted env (clock s)"
  shows "aesd_write env filp buf count s =
    (if \<not> fits_stage env s count then Inr (- ENOMEM, unlock_entry (write_entered env s))
     else bindR (write_loop env buf (unat count) 0 0 (write_entered env s)) (\<lambda>(r, s).
       case r of
         None \<Rightarrow> Inr (- ENOMEM, unlock_entry s)
       | Some b \<Rightarrow> if b < unat count
           then bindR (StorePartial env (drop b buf) (count - of_nat b) s)
                  (\<lambda>(_, s). Inr (count, unlock_entry s))
           else Inr (count, unlock_entry s)))"
proof -
  have K: "unat (KMALLOC_MAX_SIZE env) < 2 ^ 31" "unat (endIdx (stage s)) \<le> unat (KMALLOC_MAX_SIZE env)"
    using assms(3,4) by (auto simp: env_ok_def dev_inv_def split: if_splits)
  have "count > KMALLOC_MAX_SIZE env \<or> endIdx (stage s) + count > KMALLOC_MAX_SIZE env
      \<longleftrightarrow> \<not> fits_stage env s count"
  proof (cases "unat count \<le> unat (KMALLOC_MAX_SIZE env)")
    case True
    then have "unat (endIdx (stage s) + count) = unat (endIdx (stage s)) + unat count"
      using K by (intro unat_add_64) simp
    with True show ?thesis by (simp add: fits_stage_def word_less_nat_alt not_le)
  next
    case False
    then show ?thesis by (simp add: fits_stage_def word_less_nat_alt)
  qed
  moreover have "clock (s\<lparr>stage := g\<rparr>) = clock s" for g by simp
  ultimately show ?thesis
    using assms(1,2,5)
    by (auto simp: aesd_write_def lock_entry_def idle_def write_entered_def [symmetric])
qed

lemma write_interrupted:
  "private_data filp \<noteq> None \<Longrightarrow> lock_interrupted env (clock s) \<Longrightarrow>
   aesd_write env filp buf count s
     = Inr (- ERESTARTSYS, tick (s\<lparr>stage := (stage s)\<lparr>stage_size := KMALLOC_MAX_SIZE env\<rparr>\<rparr>))"
  by (simp add: aesd_write_def lock_entry_def)

text \<open>
  The tail of \<open>aesd_write\<close> after the loop, which ignores the result of \<open>StorePartial\<close>.
\<close>

lemma write_tail:
  assumes inv: "dev_inv env s" "stage_size (stage s) = KMALLOC_MAX_SIZE env"
    and b: "b \<le> unat count" "length buf = unat count"
    and fits: "unat (endIdx (stage s)) + (unat count - b) \<le> unat (KMALLOC_MAX_SIZE env)"
  shows "\<exists>s'. (if b < unat count
       then bindR (StorePartial env (drop b buf) (count - of_nat b) s) (\<lambda>(_, s). Inr (count, unlock_entry s))
       else Inr (count, unlock_entry s)) = Inr (count, unlock_entry s') \<and> dev_inv env s' \<and> frame s s' \<and>
     dev_lines s' = dev_lines s \<and>
     (dev_partial s' = dev_partial s @ drop b buf \<or>
      dev_partial s' = dev_partial s \<and> kmalloc_fails env (clock s) \<and> buffPtr (stage s) = None)"
proof (cases "b < unat count")
  case False
  then show ?thesis using inv b by (intro exI [of _ s]) simp
next
  case True
  let ?c = "count - of_nat b"
  have "unat (of_nat b :: size_t) = b"
    using b(1) unat_less_64 [of count] by (intro unat_of_nat_64) linarith
  then have c: "unat ?c = unat count - b"
    using b(1) by (simp add: unat_sub word_le_nat_alt)
  have pre: "0 < unat ?c" "unat ?c \<le> length (drop b buf)"
    "unat (endIdx (stage s)) + unat ?c \<le> unat (KMALLOC_MAX_SIZE env)"
    using True b fits c by simp_all
  show ?thesis
  proof (rule StorePartial_cases [OF inv pre])
    assume "StorePartial env (drop b buf) ?c s = Inr (- ENOMEM, tick s)"
      "buffPtr (stage s) = None" "kmalloc_fails env (clock s)"
    with True inv show ?thesis by (intro exI [of _ "tick s"]) simp
  next
    fix s'
    assume "StorePartial env (drop b buf) ?c s = Inr (0, s')" "dev_inv env s'" "frame s s'"
      "dev_lines s' = dev_lines s" "dev_partial s' = dev_partial s @ take (unat ?c) (drop b buf)"
    with True c b show ?thesis by (intro exI [of _ s']) simp
  qed
qed

text \<open>Any kernel: no fault, the invariant, the mutexes, and the order of the bytes.\<close>

lemma fitting_write_safe:
  assumes inv: "dev_inv env s" "idle s" "env_ok env"
    and args: "private_data filp \<noteq> None" "length buf = unat count"
    and noint: "\<not> lock_interrupted env (clock s)" and fits: "fits_stage env s count"
  shows "\<exists>r s' k d. aesd_write env filp buf count s = Inr (r, s') \<and> dev_inv env s' \<and> idle s' \<and>
     lseekPos s' = lseekPos s \<and> r \<in> {count, - ENOMEM} \<and>
     dev_stream s @ take k buf = d @ dev_stream s' \<and>
     ((\<forall>n. \<not> kmalloc_fails env n) \<longrightarrow> r = count \<and> take k buf = buf)"
proof -
  let ?s = "write_entered env s"
  note eq = aesd_write_eq [OF args(1) inv(2,1,3) noint, of buf count]
  have mut: "\<not> buffMutex ?s" using inv(2) by (simp add: idle_def)
  have room: "unat (endIdx (stage ?s)) + (unat count - 0) \<le> unat (KMALLOC_MAX_SIZE env)"
    using fits by (simp add: fits_stage_def)
  have enter: "dev_inv env ?s" "stage_size (stage ?s) = KMALLOC_MAX_SIZE env"
    "unat count \<le> length buf" "0 + 0 \<le> unat count"
    using inv(1) args(2) by simp_all
  obtain r s1 k d where loop: "write_loop env buf (unat count) 0 0 ?s = Inr (r, s1)"
    "dev_inv env s1" "frame ?s s1" "0 + k \<le> unat count"
    "dev_stream ?s @ take k (drop 0 buf) = d @ dev_stream s1"
    "unat (endIdx (stage s1)) + (unat count - (0 + k)) \<le> unat (KMALLOC_MAX_SIZE env)"
    "r \<in> {None, Some (0 + k)}"
    "r = None \<longrightarrow> (\<exists>n. kmalloc_fails env n)"
    using write_loop_safe [OF enter(1,2) mut enter(3,4) room] by blast
  have fr: "\<not> buffMutex s1" "lseekPos s1 = lseekPos s" "stage_size (stage s1) = KMALLOC_MAX_SIZE env"
    using loop(3) mut by (simp_all add: frame_def)
  show ?thesis
  proof (cases r)
    case None
    then have "aesd_write env filp buf count s = Inr (- ENOMEM, unlock_entry s1)"
      using fits loop(1) by (simp add: eq)
    with None loop fr show ?thesis
      by (intro exI [of _ "- ENOMEM"] exI [of _ "unlock_entry s1"] exI [of _ k] exI [of _ d])
         (auto simp: idle_def unlock_entry_def)
  next
    case (Some b)
    then have b: "b = k" using loop(7) by simp
    obtain s2 where tail: "(if k < unat count
        then bindR (StorePartial env (drop k buf) (count - of_nat k) s1) (\<lambda>(_, s). Inr (count, unlock_entry s))
        else Inr (count, unlock_entry s1)) = Inr (count, unlock_entry s2)" "dev_inv env s2" "frame s1 s2"
      "dev_lines s2 = dev_lines s1"
      "dev_partial s2 = dev_partial s1 @ drop k buf \<or>
       dev_partial s2 = dev_partial s1 \<and> kmalloc_fails env (clock s1) \<and> buffPtr (stage s1) = None"
      using write_tail [OF loop(2) fr(3) _ args(2), of k] loop(4,6) by auto
    have wr: "aesd_write env filp buf count s = Inr (count, unlock_entry s2)"
      using fits loop(1) Some b tail(1) by (simp add: eq)
    have ok: "idle (unlock_entry s2)" "lseekPos (unlock_entry s2) = lseekPos s"
      using tail(3) fr by (simp_all add: frame_def idle_def unlock_entry_def)
    from tail(5) show ?thesis
    proof
      assume "dev_partial s2 = dev_partial s1 @ drop k buf"
      then have "dev_stream s2 = dev_stream s1 @ drop k buf"
        using tail(4) by (simp add: dev_stream_def)
      then have "dev_stream s @ take (length buf) buf = d @ dev_stream (unlock_entry s2)"
        using loop(5) by (metis add_0 append.assoc append_take_drop_id dev_stream_fields(3) drop0
            take_all order_refl write_entered_simps(10))
      with wr ok tail(2) show ?thesis
        by (intro exI [of _ count] exI [of _ "unlock_entry s2"] exI [of _ "length buf"] exI [of _ d]) simp
    next
      assume "dev_partial s2 = dev_partial s1 \<and> kmalloc_fails env (clock s1) \<and> buffPtr (stage s1) = None"
      then have "dev_stream s @ take k buf = d @ dev_stream (unlock_entry s2)" "kmalloc_fails env (clock s1)"
        using loop(5) tail(4) by (simp_all add: dev_stream_def)
      with wr ok tail(2) show ?thesis
        by (intro exI [of _ count] exI [of _ "unlock_entry s2"] exI [of _ k] exI [of _ d]) auto
    qed
  qed
qed

lemma aesd_write_safe:
  assumes inv: "dev_inv env s" "idle s" "env_ok env"
    and args: "private_data filp \<noteq> None" "length buf = unat count"
  shows "\<exists>r s' k d. aesd_write env filp buf count s = Inr (r, s') \<and> dev_inv env s' \<and> idle s' \<and>
     lseekPos s' = lseekPos s \<and> r \<in> {count, - ENOMEM, - ERESTARTSYS} \<and>
     dev_stream s @ take k buf = d @ dev_stream s' \<and>
     (fits_stage env s count \<and> \<not> lock_interrupted env (clock s) \<and> (\<forall>n. \<not> kmalloc_fails env n)
        \<longrightarrow> r = count \<and> take k buf = buf)"
proof (cases "lock_interrupted env (clock s)")
  case True
  with inv args show ?thesis
    by (intro exI [of _ "- ERESTARTSYS"] exI [of _ "tick (s\<lparr>stage := (stage s)\<lparr>stage_size := KMALLOC_MAX_SIZE env\<rparr>\<rparr>)"]
        exI [of _ 0] exI [of _ "[]"]) (simp add: write_interrupted idle_def dev_stream_def)
next
  case noint: False
  show ?thesis
  proof (cases "fits_stage env s count")
    case False
    with inv aesd_write_eq [OF args(1) inv(2,1,3) noint, of buf count] show ?thesis
      by (intro exI [of _ "- ENOMEM"] exI [of _ "unlock_entry (write_entered env s)"] exI [of _ 0] exI [of _ "[]"])
         (simp add: idle_def unlock_entry_def dev_stream_def)
  next
    case True
    from fitting_write_safe [OF inv args noint this] show ?thesis by blast
  qed
qed

lemma aesd_write_lines:
  assumes inv: "dev_inv env s" "idle s" "env_ok env" "quiet env"
    and args: "private_data filp \<noteq> None" "length buf = unat count" "fits_stage env s count"
    and split: "split_lines (dev_partial s) buf = (ls, r)"
  shows "\<exists>s'. aesd_write env filp buf count s = Inr (count, s') \<and> dev_inv env s' \<and> idle s' \<and>
     lseekPos s' = lseekPos s \<and> dev_lines s' = keep_last 10 (dev_lines s @ ls) \<and> dev_partial s' = r"
proof -
  let ?s = "write_entered env s"
  have noint: "\<not> lock_interrupted env (clock s)" using inv(4) by (simp add: quiet_def)
  note eq = aesd_write_eq [OF args(1) inv(2,1,3) noint, of buf count]
  have mut: "\<not> buffMutex ?s" using inv(2) by (simp add: idle_def)
  have room: "unat (endIdx (stage ?s)) + (unat count - 0) \<le> unat (KMALLOC_MAX_SIZE env)"
    using args(3) by (simp add: fits_stage_def)
  obtain b s1 where loop: "write_loop env buf (unat count) 0 0 ?s = Inr (Some b, s1)"
    "dev_inv env s1" "frame ?s s1" "b \<le> unat count" "dev_lines s1 = keep_last 10 (dev_lines s @ ls)"
    "dev_partial s1 @ drop b buf = r"
    "unat (endIdx (stage s1)) + (unat count - b) \<le> unat (KMALLOC_MAX_SIZE env)"
    using write_loop_lines [of env ?s "unat count" buf 0 0 ls r] inv mut args(2) room split by auto
  have size1: "stage_size (stage s1) = KMALLOC_MAX_SIZE env"
    using loop(3) by (simp add: frame_def)
  obtain s2 where tail: "(if b < unat count
      then bindR (StorePartial env (drop b buf) (count - of_nat b) s1) (\<lambda>(_, s). Inr (count, unlock_entry s))
      else Inr (count, unlock_entry s1)) = Inr (count, unlock_entry s2)" "dev_inv env s2" "frame s1 s2"
    "dev_lines s2 = dev_lines s1" "dev_partial s2 = dev_partial s1 @ drop b buf"
    using write_tail [OF loop(2) size1 loop(4) args(2) loop(7)] inv(4) by (auto simp: quiet_def)
  have "aesd_write env filp buf count s = Inr (count, unlock_entry s2)"
    using args(3) loop(1) tail(1) by (simp add: eq)
  moreover have "idle (unlock_entry s2)" "lseekPos (unlock_entry s2) = lseekPos s"
    using tail(3) loop(3) mut by (simp_all add: frame_def idle_def unlock_entry_def)
  ultimately show ?thesis
    using tail loop by (intro exI [of _ "unlock_entry s2"]) simp
qed

section \<open>A device and a kernel for the witnesses\<close>

definition demo_env :: kernel_env where
  "demo_env = \<lparr>KMALLOC_MAX_SIZE = 32, lock_interrupted = (\<lambda>n. False), kmalloc_fails = (\<lambda>n. False),
     kmalloc_junk = (\<lambda>n i. CHR 0x00), not_copied = (\<lambda>n k. 0),
     user_seekto = (\<lambda>n arg. if arg = 0 then None
                    else if arg = 8 then Some \<lparr>write_cmd = 10, write_cmd_offset = 1\<rparr>
                    else Some \<lparr>write_cmd = 1, write_cmd_offset = 1\<rparr>)\<rparr>"

definition start_state :: kstate where
  "start_state = \<lparr>stage = \<lparr>buffPtr = None, stage_size = 0, endIdx = 0\<rparr>, entryMutex = False,
     buff = aesd_circular_buffer_init, buffMutex = False, lseekPos = 0,
     kheap = Map.empty, next_block = 0, clock = 0\<rparr>"

definition demo_file :: struct_file where
  "demo_file = \<lparr>private_data = Some TheDevice, f_pos = 0\<rparr>"

abbreviation demo_input :: "byte list" where
  "demo_input \<equiv> [CHR ''a'', CHR ''b'', NL, CHR ''c'', CHR ''d'', NL, CHR ''e'']"

lemma demo_env_ok: "env_ok demo_env" "quiet demo_env"
  by (simp_all add: env_ok_def quiet_def demo_env_def)

lemma start_state_facts:
  "idle start_state" "dev_lines start_state = []" "dev_partial start_state = []"
  "lseekPos start_state = 0" "endIdx (stage start_state) = 0" "buffPtr (stage start_state) = None"
  by (simp_all add: idle_def dev_lines_def dev_partial_def start_state_def cb_items_init)

lemma start_state_inv: "dev_inv env start_state"
  by (simp add: dev_inv_def owned_def start_state_def cb_items_init cb_inv_init)

lemma demo_split: "split_lines [] demo_input =
   ([[CHR ''a'', CHR ''b'', NL], [CHR ''c'', CHR ''d'', NL]], [CHR ''e''])"
  by simp

section \<open>Properties of write\<close>

text \<open>
  C10. With no signal and no shortage of memory, a write that fits the staging buffer
  succeeds in full: every line completed by it becomes an entry of its own (the first
  continues the unfinished line), the last ten entries are kept, and the bytes after the
  last newline are the new unfinished line. A write that does not fit is refused with
  -ENOMEM and changes neither. The position does not move, and both mutexes are free.
\<close>

theorem write_stores_lines:
  assumes "dev_inv env s" and "idle s" and "env_ok env" and "quiet env"
    and "private_data filp \<noteq> None" and "length buf = unat count"
    and "split_lines (dev_partial s) buf = (ls, r)"
  shows "\<exists>ret s'. aesd_write env filp buf count s = Inr (ret, s') \<and> dev_inv env s' \<and> idle s' \<and>
    lseekPos s' = lseekPos s \<and>
    (if length (dev_partial s) + length buf \<le> unat (KMALLOC_MAX_SIZE env)
     then ret = count \<and> dev_lines s' = keep_last 10 (dev_lines s @ ls) \<and> dev_partial s' = r
     else ret = - ENOMEM \<and> dev_lines s' = dev_lines s \<and> dev_partial s' = dev_partial s)"
proof (cases "fits_stage env s count")
  case True
  then show ?thesis
    using aesd_write_lines [OF assms(1-6) True assms(7)] assms(1,6)
    by (auto simp: fits_stage_def length_dev_partial)
next
  case False
  moreover have "\<not> lock_interrupted env (clock s)" using assms(4) by (simp add: quiet_def)
  ultimately have "aesd_write env filp buf count s = Inr (- ENOMEM, unlock_entry (write_entered env s))"
    using aesd_write_eq [OF assms(5,2,1,3), of buf count] by simp
  with False assms show ?thesis
    by (auto simp: fits_stage_def length_dev_partial idle_def unlock_entry_def)
qed

theorem write_stores_lines_witness:
  "\<exists>s'. aesd_write demo_env demo_file demo_input 7 start_state = Inr (7, s') \<and>
     dev_lines s' = [[CHR ''a'', CHR ''b'', NL], [CHR ''c'', CHR ''d'', NL]] \<and>
     dev_partial s' = [CHR ''e'']"
  using write_stores_lines [OF start_state_inv start_state_facts(1) demo_env_ok, of demo_file demo_input 7]
  by (auto simp: demo_file_def start_state_facts demo_env_def keep_last_small)

text \<open>
  C19. Whatever the kernel answers (signals at any lock, failing allocations), a write
  never faults: no NULL or freed block is accessed, no block is freed twice, nothing is
  stored outside a block, no mutex is taken twice. It keeps the invariant, leaves both
  mutexes free, and returns the count, -ENOMEM or -ERESTARTSYS. The bytes it does store
  are a prefix of the input, appended in order; bytes leave only at the old end.
\<close>

theorem write_safe_under_failures:
  assumes "dev_inv env s" and "idle s" and "env_ok env"
    and "private_data filp \<noteq> None" and "length buf = unat count"
  shows "\<exists>ret s' k evicted. aesd_write env filp buf count s = Inr (ret, s') \<and>
    dev_inv env s' \<and> idle s' \<and> ret \<in> {count, - ENOMEM, - ERESTARTSYS} \<and>
    dev_stream s @ take k buf = evicted @ dev_stream s'"
  using aesd_write_safe [OF assms] by blast

definition failing_env :: kernel_env where
  "failing_env = demo_env\<lparr>lock_interrupted := (\<lambda>n. n = 2), kmalloc_fails := (\<lambda>n. n = 3)\<rparr>"

lemma failing_env_ok: "env_ok failing_env"
  by (simp add: failing_env_def env_ok_def demo_env_def)

theorem write_safe_under_failures_witness:
  "\<exists>ret s' k evicted. aesd_write failing_env demo_file demo_input 7 start_state = Inr (ret, s') \<and>
     idle s' \<and> dev_stream start_state @ take k demo_input = evicted @ dev_stream s'"
  using write_safe_under_failures [OF start_state_inv start_state_facts(1) failing_env_ok,
      of demo_file demo_input 7] by (auto simp: demo_file_def)

text \<open>
  Signals alone lose nothing: if allocations succeed and the first lock is not
  interrupted, a write that fits returns its count and every byte of it is stored, even
  when flushes of completed lines are interrupted in between.
\<close>

theorem write_keeps_every_byte:
  assumes "dev_inv env s" and "idle s" and "env_ok env"
    and "private_data filp \<noteq> None" and "length buf = unat count"
    and "length (dev_partial s) + length buf \<le> unat (KMALLOC_MAX_SIZE env)"
    and "\<not> lock_interrupted env (clock s)" and "\<forall>n. \<not> kmalloc_fails env n"
  shows "\<exists>s' evicted. aesd_write env filp buf count s = Inr (count, s') \<and>
    dev_stream s @ buf = evicted @ dev_stream s'"
proof -
  have "fits_stage env s count"
    using assms(1,5,6) by (simp add: fits_stage_def length_dev_partial)
  then show ?thesis
    using aesd_write_safe [OF assms(1-5)] assms(7,8) by metis
qed

theorem write_keeps_every_byte_witness:
  "\<exists>s' evicted. aesd_write (demo_env\<lparr>lock_interrupted := (\<lambda>n. n = 2)\<rparr>) demo_file demo_input 7 start_state
       = Inr (7, s') \<and> demo_input = evicted @ dev_stream s'"
proof -
  let ?env = "demo_env\<lparr>lock_interrupted := (\<lambda>n. n = 2)\<rparr>"
  have "env_ok ?env" by (simp add: demo_env_def env_ok_def)
  from write_keeps_every_byte [OF start_state_inv start_state_facts(1) this, of demo_file demo_input 7]
  show ?thesis
    by (simp add: demo_file_def demo_env_def start_state_facts dev_stream_def) (simp add: start_state_def)
qed

text \<open>
  C39. The result of storing the bytes after the last newline is ignored: if no staging
  buffer exists and its allocation fails, a write without a newline reports that all its
  bytes were written although none was stored.
\<close>

theorem write_reports_lost_bytes:
  assumes "dev_inv env s" and "idle s" and "env_ok env" and "private_data filp \<noteq> None"
    and "buffPtr (stage s) = None" and "length buf = unat count" and "0 < unat count"
    and "unat count \<le> unat (KMALLOC_MAX_SIZE env)" and "NL \<notin> set buf"
    and "\<not> lock_interrupted env (clock s)" and "kmalloc_fails env (Suc (clock s))"
  shows "\<exists>s'. aesd_write env filp buf count s = Inr (count, s') \<and> dev_stream s' = dev_stream s"
proof -
  let ?s = "write_entered env s"
  have loop: "i \<le> length buf \<Longrightarrow> write_loop env buf (unat count) i 0 ?s = Inr (Some 0, ?s)" for i
  proof (induction "length buf - i" arbitrary: i)
    case 0
    then show ?case using assms(6) by (subst write_loop.simps) simp
  next
    case (Suc n)
    then have lt: "i < length buf" by simp
    then have "buf ! i \<noteq> NL" using assms(9) nth_mem [OF lt] by metis
    with lt Suc show ?case using assms(6) by (subst write_loop.simps) simp
  qed
  have "endIdx (stage s) = 0" using assms(1,5) by (simp add: dev_inv_def)
  then have fits: "fits_stage env s count" using assms(8) by (simp add: fits_stage_def)
  have "count \<noteq> 0" using assms(7) by auto
  then have "StorePartial env buf count ?s = Inr (- ENOMEM, tick ?s)"
    using assms(5,11) by (simp add: StorePartial_def kmalloc_def)
  then have "aesd_write env filp buf count s = Inr (count, unlock_entry (tick ?s))"
    using fits assms(7) loop [of 0]
    by (simp add: aesd_write_eq [OF assms(4,2,1,3,10)])
  then show ?thesis by simp
qed

theorem write_reports_lost_bytes_witness:
  "\<exists>s'. aesd_write (demo_env\<lparr>kmalloc_fails := (\<lambda>n. True)\<rparr>) demo_file ''hello'' 5 start_state
       = Inr (5, s') \<and> dev_stream s' = []"
proof -
  let ?env = "demo_env\<lparr>kmalloc_fails := (\<lambda>n. True)\<rparr>"
  have "env_ok ?env" by (simp add: demo_env_def env_ok_def)
  from write_reports_lost_bytes [OF start_state_inv start_state_facts(1) this, of demo_file "''hello''" 5]
  show ?thesis
    by (simp add: demo_file_def demo_env_def start_state_facts dev_stream_def)
qed

section \<open>Read\<close>

text \<open>The state after a read that took the lock: only the clock has moved.\<close>

definition same_device :: "kernel_env \<Rightarrow> kstate \<Rightarrow> kstate \<Rightarrow> bool" where
  "same_device env s s' \<longleftrightarrow> dev_inv env s' \<and> idle s' \<and> lseekPos s' = lseekPos s \<and>
     dev_lines s' = dev_lines s \<and> dev_partial s' = dev_partial s \<and> buff s' = buff s"

lemma locate_lines:
  "dev_inv env s \<Longrightarrow> env_ok env \<Longrightarrow>
   aesd_circular_buffer_find_entry_offset_for_fpos (buff s) c =
     map_option (\<lambda>(i, k). (get_entry_at_virtual_offset (buff s) (of_nat i), of_nat k))
       (locate (map length (dev_lines s)) (unat c))"
  by (simp add: find_entry_locate dev_inv_cb dev_fits lengths_dev_lines)

lemma lock_buff_free:
  "idle s \<Longrightarrow> \<not> lock_interrupted env (clock s) \<Longrightarrow>
     lock_buff env s = Inr (False, (tick s)\<lparr>buffMutex := True\<rparr>)"
  by (simp add: lock_buff_def idle_def)

lemma read_eof:
  assumes inv: "dev_inv env s" "idle s" "env_ok env" "private_data filp \<noteq> None"
    and noint: "\<not> lock_interrupted env (clock s)"
    and eof: "length (concat (dev_lines s)) \<le> unat (f_pos filp + lseekPos s)"
  shows "aesd_read env filp count s = Inr (0, [], filp, unlock_buff (tick s))"
proof -
  have "locate (map length (dev_lines s)) (unat (f_pos filp + lseekPos s)) = None"
    using eof by (simp add: locate_None_iff length_concat)
  moreover have "unlock_buff ((tick s)\<lparr>buffMutex := True\<rparr>) = unlock_buff (tick s)"
    by (simp add: unlock_buff_def)
  ultimately show ?thesis
    using inv noint by (simp add: aesd_read_def lock_buff_free locate_lines)
qed

lemma same_device_unlock: "dev_inv env s \<Longrightarrow> idle s \<Longrightarrow> same_device env s (unlock_buff (tick s))"
  by (simp add: same_device_def idle_def) (simp add: unlock_buff_def)

lemma read_at:
  assumes inv: "dev_inv env s" "idle s" "env_ok env" "private_data filp \<noteq> None"
    and noint: "\<not> lock_interrupted env (clock s)"
    and i: "i < length (dev_lines s)" and k: "k < length (dev_lines s ! i)"
    and pos: "unat (f_pos filp + lseekPos s) = length (concat (take i (dev_lines s))) + k"
  shows "\<exists>n ret s'. unat n = min (unat count) (length (dev_lines s ! i) - k) \<and>
    ret = n - not_copied env (Suc (clock s)) n \<and>
    aesd_read env filp count s
      = Inr (ret, take (unat ret) (drop k (dev_lines s ! i)), filp\<lparr>f_pos := f_pos filp + ret\<rparr>, s') \<and>
    same_device env s s'"
proof -
  let ?line = "dev_lines s ! i"
  let ?e = "cb_items (buff s) ! i"
  have loc: "locate (map length (dev_lines s)) (unat (f_pos filp + lseekPos s)) = Some (i, k)"
    using locate_SomeI [of i "map length (dev_lines s)" k] i k pos by (simp add: length_concat take_map)
  have i10: "i < length (cb_items (buff s))" "i < 10"
    using i length_cb_items_le [OF dev_inv_cb [OF inv(1)]] by (simp_all add: length_dev_lines)
  have slot: "entry (buff s) ! get_entry_at_virtual_offset (buff s) (of_nat i) = ?e"
    using i10 dev_inv_cb [OF inv(1)] by (simp add: entry_at_virtual unat_of_nat_8 item_nth)
  obtain a blk where blk: "buffptr ?e = Some a" "kheap s a = Some blk"
    "length blk = unat (KMALLOC_MAX_SIZE env)" "unat (esize ?e) \<le> length blk"
    using inv(1) nth_mem [OF i10(1)] by (fastforce simp: dev_inv_def block_ok_def)
  have line: "?line = take (unat (esize ?e)) blk"
    using i10 blk by (simp add: dev_lines_def)
  then have len: "length ?line = unat (esize ?e)" using blk by simp
  have uk: "unat (of_nat k :: size_t) = k"
    using k len unat_less_64 [of "esize ?e"] by (intro unat_of_nat_64) simp
  let ?sz = "esize ?e - of_nat k"
  define n where "n = (if ?sz < count then ?sz else count)"
  have sz: "unat ?sz = length ?line - k"
    using k len uk by (simp add: unat_sub word_le_nat_alt)
  then have n: "unat n = min (unat count) (length ?line - k)"
    by (simp add: n_def word_less_nat_alt min_def)
  have bytes: "kread (kheap s) (Some a) k (unat n) = Inr (take (unat n) (drop k blk))"
    using blk n k len by (simp add: kread_def)
  have pre: "take m (drop k ?line) = take m (drop k blk)" if "m \<le> unat n" for m
    using that n k len by (simp add: line drop_take)
  let ?r = "n - not_copied env (Suc (clock s)) n"
  have r: "unat ?r \<le> unat n"
    using inv(3) by (simp add: env_ok_def unat_sub word_le_nat_alt)
  let ?s = "unlock_buff (tick ((tick s)\<lparr>buffMutex := True\<rparr>))"
  have "aesd_read env filp count s
      = Inr (?r, take (unat ?r) (take (unat n) (drop k blk)), filp\<lparr>f_pos := f_pos filp + ?r\<rparr>, ?s)"
    using inv noint loc slot blk uk bytes
    by (cases "?sz < count")
       (simp_all add: aesd_read_def lock_buff_free locate_lines Let_def n_def tick_def)
  moreover have "take (unat ?r) (take (unat n) (drop k blk)) = take (unat ?r) (drop k ?line)"
    using r pre by (simp add: min_absorb1)
  moreover have "same_device env s ?s"
    using inv by (simp add: same_device_def idle_def) (simp add: unlock_buff_def)
  ultimately show ?thesis using n by auto
qed

lemma read_prefix:
  assumes inv: "dev_inv env s" "idle s" "env_ok env" "private_data filp \<noteq> None"
    and noint: "\<not> lock_interrupted env (clock s)"
  shows "\<exists>bytes s'. aesd_read env filp count s
      = Inr (of_nat (length bytes), bytes, filp\<lparr>f_pos := f_pos filp + of_nat (length bytes)\<rparr>, s') \<and>
    same_device env s s' \<and> length bytes \<le> unat count \<and>
    bytes = take (length bytes) (drop (unat (f_pos filp + lseekPos s)) (concat (dev_lines s))) \<and>
    ((\<forall>n k. not_copied env n k = 0) \<longrightarrow>
       (bytes = [] \<longleftrightarrow> count = 0 \<or> length (concat (dev_lines s)) \<le> unat (f_pos filp + lseekPos s)))"
proof -
  let ?p = "unat (f_pos filp + lseekPos s)"
  let ?ls = "dev_lines s"
  show ?thesis
  proof (cases "locate (map length ?ls) ?p")
    case None
    then have eof: "length (concat ?ls) \<le> ?p" by (simp add: locate_None_iff length_concat)
    then show ?thesis
      using read_eof [OF inv noint eof, of count] same_device_unlock [OF inv(1,2)]
      by (intro exI [of _ "[]"] exI [of _ "unlock_buff (tick s)"]) simp
  next
    case (Some ik)
    obtain i k where ik: "ik = (i, k)" by (cases ik)
    have at: "i < length ?ls" "k < length (?ls ! i)" "?p = length (concat (take i ?ls)) + k"
      using locate_SomeD [OF Some [unfolded ik]] by (auto simp: length_concat take_map)
    have notend: "\<not> length (concat ?ls) \<le> ?p"
      using Some by (metis length_concat locate_None_iff option.distinct(1))
    obtain n ret s' where rd: "unat n = min (unat count) (length (?ls ! i) - k)"
      "ret = n - not_copied env (Suc (clock s)) n"
      "aesd_read env filp count s
        = Inr (ret, take (unat ret) (drop k (?ls ! i)), filp\<lparr>f_pos := f_pos filp + ret\<rparr>, s')"
      "same_device env s s'"
      using read_at [OF inv noint at] by blast
    let ?bytes = "take (unat ret) (drop k (?ls ! i))"
    have le: "unat ret \<le> unat n"
      using inv(3) rd(2) by (simp add: env_ok_def unat_sub word_le_nat_alt)
    then have len: "length ?bytes = unat ret" using rd(1) by simp
    have "drop ?p (concat ?ls) = drop k (?ls ! i) @ concat (drop (Suc i) ?ls)"
      using drop_concat_locate [OF Some [unfolded ik]] .
    then have "?bytes = take (unat ret) (drop ?p (concat ?ls))"
      using le rd(1) by simp
    moreover have "?bytes = [] \<longleftrightarrow> count = 0" if "\<forall>n k. not_copied env n k = 0"
      using that rd(1,2) at(2) by (auto simp: unat_eq_zero min_def split: if_splits)
    ultimately show ?thesis
      using rd(3,4) len le rd(1) notend
      by (intro exI [of _ ?bytes] exI [of _ s']) auto
  qed
qed

text \<open>
  C16. A read returns consecutive bytes of the stored writes, starting at the sum of the
  file position and the device's seek position, at most as many as asked for, advances
  the file position by that number and changes nothing else. If \<open>copy_to_user\<close> copies
  everything, an empty result means the end of the data (or a zero count), so a reader
  that repeats reads gets all the data.
\<close>

theorem read_returns_next_bytes:
  assumes "dev_inv env s" and "idle s" and "env_ok env" and "private_data filp \<noteq> None"
    and "\<not> lock_interrupted env (clock s)"
  shows "\<exists>bytes s'. aesd_read env filp count s
      = Inr (of_nat (length bytes), bytes, filp\<lparr>f_pos := f_pos filp + of_nat (length bytes)\<rparr>, s') \<and>
    same_device env s s' \<and> length bytes \<le> unat count \<and>
    bytes = take (length bytes) (drop (unat (f_pos filp + lseekPos s)) (concat (dev_lines s))) \<and>
    ((\<forall>n k. not_copied env n k = 0) \<longrightarrow>
       (bytes = [] \<longleftrightarrow> count = 0 \<or> length (concat (dev_lines s)) \<le> unat (f_pos filp + lseekPos s)))"
  by (rule read_prefix [OF assms])

text \<open>A device with two stored lines and an unfinished one.\<close>

lemma demo_written:
  obtains s where "dev_inv demo_env s" "idle s"
    "dev_lines s = [[CHR ''a'', CHR ''b'', NL], [CHR ''c'', CHR ''d'', NL]]"
    "dev_partial s = [CHR ''e'']" "lseekPos s = 0"
  using aesd_write_lines [OF start_state_inv start_state_facts(1) demo_env_ok, of demo_file demo_input 7]
  by (auto simp: demo_file_def start_state_facts demo_env_def keep_last_small fits_stage_def)

theorem read_returns_next_bytes_witness:
  "\<exists>s bytes s'. aesd_read demo_env (demo_file\<lparr>f_pos := 4\<rparr>) 10 s
       = Inr (of_nat (length bytes), bytes, demo_file\<lparr>f_pos := 4 + of_nat (length bytes)\<rparr>, s') \<and>
     bytes \<noteq> [] \<and> bytes = take (length bytes) [CHR ''d'', NL]"
proof -
  obtain s where s: "dev_inv demo_env s" "idle s"
    "dev_lines s = [[CHR ''a'', CHR ''b'', NL], [CHR ''c'', CHR ''d'', NL]]" "lseekPos s = 0"
    using demo_written by blast
  show ?thesis
    using read_returns_next_bytes [OF s(1,2) demo_env_ok(1), of "demo_file\<lparr>f_pos := 4\<rparr>" 10] s(3,4)
    by (intro exI [of _ s]) (auto simp: demo_file_def demo_env_def)
qed

section \<open>Seeking to a write command\<close>

lemma IOCSEEKTO_value: "AESDCHAR_IOCSEEKTO = 0xC0081601"
  by code_simp

lemma IOCSEEKTO_accepted:
  "IOC_TYPE AESDCHAR_IOCSEEKTO = AESD_IOC_MAGIC" "\<not> IOC_NR AESDCHAR_IOCSEEKTO > AESDCHAR_IOC_MAXNR"
  by code_simp+

text \<open>The largest offset the code accepts for a write command, \<open>None\<close> if it rejects the command.\<close>

definition seek_limit :: "kstate \<Rightarrow> nat \<Rightarrow> nat option" where
  "seek_limit s c =
     (let n = length (dev_lines s) in
      if c < n then Some (length (dev_lines s ! c))
      else if c = n then Some (if full (buff s) then length (dev_lines s ! 0) else 0)
      else None)"

lemma unat_ucast_32_64_8: "unat (c :: u32) < 256 \<Longrightarrow> unat (ucast (ucast c :: 64 word) :: 8 word) = unat c"
  by (simp add: unat_ucast_64_8)

lemma seek_entry_size:
  assumes inv: "dev_inv env s" and lim: "seek_limit s (unat c) = Some m"
  shows "unat (esize (entry (buff s) !
    aesd_circular_buffer_find_entry_at_position (buff s) (ucast (c :: u32)))) = m"
proof -
  let ?b = "buff s"
  let ?n = "length (cb_items ?b)"
  note cb = dev_inv_cb [OF inv]
  have n: "?n \<le> 10" using length_cb_items_le [OF cb] .
  have c: "unat c \<le> ?n"
    using lim by (auto simp: seek_limit_def length_dev_lines Let_def split: if_splits)
  have idx: "aesd_circular_buffer_find_entry_at_position ?b (ucast c)
      = (unat (out_offs ?b) + unat c) mod 10"
    using c n by (simp add: aesd_circular_buffer_find_entry_at_position_def get_entry_nat unat_ucast_32_64_8)
  have size: "unat (esize (cb_items ?b ! j)) = length (dev_lines s ! j)" if "j < ?n" for j
    using arg_cong [OF lengths_dev_lines [OF inv], of "\<lambda>xs. xs ! j"] that
    by (simp add: length_dev_lines)
  have slot: "entry ?b ! ((unat (out_offs ?b) + j) mod 10) = cb_slots ?b ! j" if "j < 10" for j
    using that cb by (simp add: cb_slots_def nth_rotate cb_inv_length)
  show ?thesis
  proof (cases "unat c < ?n")
    case True
    then show ?thesis
      using lim n slot [of "unat c"] size item_nth [OF cb True]
      by (simp add: idx seek_limit_def length_dev_lines)
  next
    case False
    then have cn: "unat c = ?n" using c by simp
    show ?thesis
    proof (cases "full ?b")
      case True
      then have "?n = 10" using cb by (simp add: length_cb_items)
      then show ?thesis
        using lim cn True slot [of 0] size [of 0] item_nth [OF cb, of 0]
        by (simp add: idx seek_limit_def length_dev_lines)
    next
      case nf: False
      then have lt: "?n < 10" using cb by (simp add: length_cb_items cb_inv_def)
      then have "cb_slots ?b ! ?n = zero_entry"
        by (subst slots_decompose [OF cb]) (simp add: nth_append)
      then show ?thesis
        using lim cn nf slot [OF lt] by (simp add: idx seek_limit_def length_dev_lines zero_entry_def)
    qed
  qed
qed

lemma length_nth_le_concat: "i < length xs \<Longrightarrow> length (xs ! i) \<le> length (concat xs)"
  using elem_le_sum_list [of i "map length xs"] by (simp add: length_concat)

lemma seek_limit_le:
  assumes "dev_inv env s" "seek_limit s c = Some m"
  shows "m \<le> length (concat (dev_lines s))"
proof -
  have "0 < length (dev_lines s)" if "full (buff s)"
    using that length_cb_items [OF dev_inv_cb [OF assms(1)]] by (simp add: length_dev_lines)
  then show ?thesis
    using assms(2) length_nth_le_concat [of c "dev_lines s"] length_nth_le_concat [of 0 "dev_lines s"]
    by (auto simp: seek_limit_def Let_def split: if_splits)
qed

text \<open>The position of a stored line is a small number.\<close>

lemma seek_base:
  fixes c :: u32
  assumes inv: "dev_inv env s" "env_ok env" and c: "unat c \<le> length (dev_lines s)"
  defines "base \<equiv> aesd_circular_buffer_find_fpos_for_virtual_entry_offset (buff s) (ucast c)"
  shows "unat base = length (concat (take (unat c) (dev_lines s)))" "unat base < 2 ^ 31"
proof -
  have "sum_list (item_sizes (cb_items (buff s))) < 2 ^ 31" by (rule sum_items_bound [OF inv])
  with find_fpos_sum [OF dev_inv_cb [OF inv(1)] dev_fits [OF inv], of "ucast c"] c
  show base: "unat base = length (concat (take (unat c) (dev_lines s)))"
    by (simp add: base_def length_dev_lines length_concat take_map flip: lengths_dev_lines [OF inv(1)])
  also have "\<dots> \<le> length (concat (dev_lines s))"
    by (metis append_take_drop_id concat_append le_add1 length_append)
  finally show "unat base < 2 ^ 31" using dev_lines_total [OF inv] by simp
qed

lemma seekto_spec:
  assumes inv: "dev_inv env s" "idle s" "env_ok env" "private_data filp \<noteq> None"
    and st: "user_seekto env (clock s) arg = Some st"
    and noint: "\<not> lock_interrupted env (Suc (clock s))"
  shows "\<exists>ret s'. aesd_ioctl env filp AESDCHAR_IOCSEEKTO arg s = Inr (ret, s') \<and>
    dev_inv env s' \<and> idle s' \<and> dev_lines s' = dev_lines s \<and> dev_partial s' = dev_partial s \<and>
    (case seek_limit s (unat (write_cmd st)) of
       Some m \<Rightarrow>
         if unat (write_cmd_offset st) \<le> m
         then ret = 0 \<and> unat (lseekPos s') =
           length (concat (take (unat (write_cmd st)) (dev_lines s))) + unat (write_cmd_offset st)
         else ret = - EINVAL \<and> lseekPos s' = lseekPos s
     | None \<Rightarrow> ret = - EINVAL \<and> lseekPos s' = lseekPos s)"
proof -
  let ?c = "write_cmd st" and ?o = "write_cmd_offset st"
  let ?base = "aesd_circular_buffer_find_fpos_for_virtual_entry_offset (buff s) (ucast ?c)"
  let ?e = "entry (buff s) ! aesd_circular_buffer_find_entry_at_position (buff s) (ucast ?c)"
  let ?s = "(tick (tick s))\<lparr>buffMutex := True\<rparr>"
  note cb = dev_inv_cb [OF inv(1)]
  have lock: "lock_buff env (tick s) = Inr (False, ?s)"
    using inv(2) noint by (simp add: lock_buff_def idle_def) (simp add: tick_def)
  have io: "aesd_ioctl env filp AESDCHAR_IOCSEEKTO arg s =
      (if sint ?base < 0 then Inr (- EINVAL, unlock_buff ?s)
       else if esize ?e < ucast ?o then Inr (- EINVAL, unlock_buff ?s)
       else Inr (0, unlock_buff (?s\<lparr>lseekPos := ucast (?base + ?o)\<rparr>)))"
    using st inv(4) by (simp add: aesd_ioctl_def IOCSEEKTO_accepted lock Let_def)
  have keep: "dev_inv env (unlock_buff (?s\<lparr>lseekPos := p\<rparr>))" "idle (unlock_buff (?s\<lparr>lseekPos := p\<rparr>))"
    "dev_lines (unlock_buff (?s\<lparr>lseekPos := p\<rparr>)) = dev_lines s"
    "dev_partial (unlock_buff (?s\<lparr>lseekPos := p\<rparr>)) = dev_partial s"
    "lseekPos (unlock_buff (?s\<lparr>lseekPos := p\<rparr>)) = p" for p
    using inv by (simp_all add: idle_def) (simp_all add: unlock_buff_def)
  have same: "?s\<lparr>lseekPos := lseekPos s\<rparr> = ?s" by simp
  note keep' = keep [of "lseekPos s", unfolded same]
  show ?thesis
  proof (cases "seek_limit s (unat ?c)")
    case None
    then have "length (cb_items (buff s)) < unat (ucast ?c :: size_t)"
      by (auto simp: seek_limit_def length_dev_lines Let_def split: if_splits)
    then have "?base = -1" by (rule find_fpos_invalid [OF cb])
    with io keep' None show ?thesis by simp
  next
    case (Some m)
    have c: "unat ?c \<le> length (dev_lines s)"
      using Some by (auto simp: seek_limit_def Let_def split: if_splits)
    have sz: "unat (esize ?e) = m" using seek_entry_size [OF inv(1) Some] .
    note base = seek_base [OF inv(1,3) c]
    then have small: "unat ?base < 2 ^ 31" by simp
    then have nonneg: "\<not> sint ?base < 0" by (simp add: sint_eq_unat_32)
    show ?thesis
    proof (cases "unat ?o \<le> m")
      case False
      then have "esize ?e < ucast ?o" using sz by (simp add: word_less_nat_alt)
      with io keep' Some False nonneg show ?thesis by simp
    next
      case True
      have "m < 2 ^ 31"
        using seek_limit_le [OF inv(1) Some] dev_lines_total [OF inv(1,3)] by simp
      then have "unat (?base + ?o) = unat ?base + unat ?o"
        using True small by (simp add: unat_word_ariths)
      moreover have "\<not> esize ?e < ucast ?o" using sz True by (simp add: word_less_nat_alt)
      ultimately show ?thesis
        using io keep [of "ucast (?base + ?o)"] Some True nonneg base(1) by simp
    qed
  qed
qed

text \<open>
  The seek command: with the structure copied and the lock obtained, the code
  accepts exactly the offsets up to \<open>seek_limit\<close>. It then returns 0 and sets the device's
  position to the number of bytes before that write command plus the offset, with no
  wrap-around; otherwise it returns -EINVAL and the position stays. Nothing else changes.
\<close>

theorem seekto_decides:
  assumes "dev_inv env s" and "idle s" and "env_ok env" and "private_data filp \<noteq> None"
    and "user_seekto env (clock s) arg = Some st" and "\<not> lock_interrupted env (Suc (clock s))"
  shows "\<exists>ret s'. aesd_ioctl env filp AESDCHAR_IOCSEEKTO arg s = Inr (ret, s') \<and>
    dev_inv env s' \<and> idle s' \<and> dev_lines s' = dev_lines s \<and> dev_partial s' = dev_partial s \<and>
    (case seek_limit s (unat (write_cmd st)) of
       Some m \<Rightarrow>
         if unat (write_cmd_offset st) \<le> m
         then ret = 0 \<and> unat (lseekPos s') =
           length (concat (take (unat (write_cmd st)) (dev_lines s))) + unat (write_cmd_offset st)
         else ret = - EINVAL \<and> lseekPos s' = lseekPos s
     | None \<Rightarrow> ret = - EINVAL \<and> lseekPos s' = lseekPos s)"
  by (rule seekto_spec [OF assms])

theorem seekto_decides_witness:
  "\<exists>s s'. dev_lines s = [[CHR ''a'', CHR ''b'', NL], [CHR ''c'', CHR ''d'', NL]] \<and>
     aesd_ioctl demo_env demo_file AESDCHAR_IOCSEEKTO 4096 s = Inr (0, s') \<and> unat (lseekPos s') = 4"
proof -
  obtain s where s: "dev_inv demo_env s" "idle s"
    "dev_lines s = [[CHR ''a'', CHR ''b'', NL], [CHR ''c'', CHR ''d'', NL]]" "lseekPos s = 0"
    using demo_written by blast
  have lim: "seek_limit s 1 = Some 3" by (simp add: seek_limit_def s(3))
  then have lim': "seek_limit s (Suc 0) = Some 3" by simp
  have "user_seekto demo_env (clock s) 4096 = Some \<lparr>write_cmd = 1, write_cmd_offset = 1\<rparr>"
    "\<not> lock_interrupted demo_env (Suc (clock s))" "private_data demo_file \<noteq> None"
    by (simp_all add: demo_env_def demo_file_def)
  from seekto_decides [OF s(1,2) demo_env_ok(1) this(3,1,2)]
  obtain s' where "aesd_ioctl demo_env demo_file AESDCHAR_IOCSEEKTO 4096 s = Inr (0, s')"
    "unat (lseekPos s') = 4"
    by (auto simp: s(3) lim')
  then show ?thesis using s(3) by blast
qed

text \<open>
  After a successful seek to a stored write command and an offset inside it, a read
  on a file whose own position is 0 starts at that very byte of that write: it returns
  the rest of the write from the offset on, up to the requested count.
\<close>

theorem seek_then_read:
  assumes "dev_inv env s" and "idle s" and "env_ok env" and "private_data filp \<noteq> None"
    and "user_seekto env (clock s) arg = Some st" and "\<not> lock_interrupted env (Suc (clock s))"
    and "unat (write_cmd st) < length (dev_lines s)"
    and "unat (write_cmd_offset st) < length (dev_lines s ! unat (write_cmd st))"
    and "f_pos filp = 0" and "\<forall>n. \<not> lock_interrupted env n" and "\<forall>n k. not_copied env n k = 0"
  shows "\<exists>s1 ret filp' s2. aesd_ioctl env filp AESDCHAR_IOCSEEKTO arg s = Inr (0, s1) \<and>
    aesd_read env filp count s1 = Inr (ret,
      take (unat count) (drop (unat (write_cmd_offset st)) (dev_lines s ! unat (write_cmd st))), filp', s2)"
proof -
  let ?c = "unat (write_cmd st)" and ?o = "unat (write_cmd_offset st)"
  have "seek_limit s ?c = Some (length (dev_lines s ! ?c))"
    using assms(7) by (simp add: seek_limit_def)
  then obtain s1 where io: "aesd_ioctl env filp AESDCHAR_IOCSEEKTO arg s = Inr (0, s1)"
    "dev_inv env s1" "idle s1" "dev_lines s1 = dev_lines s"
    "unat (lseekPos s1) = length (concat (take ?c (dev_lines s))) + ?o"
    using seekto_spec [OF assms(1-6)] assms(8) by auto
  have at: "?c < length (dev_lines s1)" "?o < length (dev_lines s1 ! ?c)"
    "unat (f_pos filp + lseekPos s1) = length (concat (take ?c (dev_lines s1))) + ?o"
    using assms(7-9) io(4,5) by simp_all
  obtain n ret s2 where rd: "unat n = min (unat count) (length (dev_lines s1 ! ?c) - ?o)"
    "ret = n - not_copied env (Suc (clock s1)) n"
    "aesd_read env filp count s1
      = Inr (ret, take (unat ret) (drop ?o (dev_lines s1 ! ?c)), filp\<lparr>f_pos := f_pos filp + ret\<rparr>, s2)"
    using read_at [OF io(2,3) assms(3,4) _ at] assms(10) by blast
  have "take (unat ret) (drop ?o (dev_lines s1 ! ?c)) = take (unat count) (drop ?o (dev_lines s1 ! ?c))"
    using rd(1,2) assms(11) by (simp add: min_def)
  with io rd(3) show ?thesis by auto
qed

theorem seek_then_read_witness:
  "\<exists>s s1 ret filp' s2. aesd_ioctl demo_env demo_file AESDCHAR_IOCSEEKTO 4096 s = Inr (0, s1) \<and>
     aesd_read demo_env demo_file 100 s1 = Inr (ret, [CHR ''d'', NL], filp', s2)"
proof -
  obtain s where s: "dev_inv demo_env s" "idle s"
    "dev_lines s = [[CHR ''a'', CHR ''b'', NL], [CHR ''c'', CHR ''d'', NL]]" "lseekPos s = 0"
    using demo_written by blast
  have "user_seekto demo_env (clock s) 4096 = Some \<lparr>write_cmd = 1, write_cmd_offset = 1\<rparr>"
    "\<not> lock_interrupted demo_env (Suc (clock s))" "private_data demo_file \<noteq> None"
    by (simp_all add: demo_env_def demo_file_def)
  from seek_then_read [OF s(1,2) demo_env_ok(1) this(3,1,2), of 100]
  have "\<exists>s1 ret filp' s2. aesd_ioctl demo_env demo_file AESDCHAR_IOCSEEKTO 4096 s = Inr (0, s1) \<and>
      aesd_read demo_env demo_file 100 s1 = Inr (ret, [CHR ''d'', NL], filp', s2)"
    by (simp add: s(3) demo_file_def demo_env_def)
  then show ?thesis by blast
qed

text \<open>
  C40. Two acceptance errors of the seek command. The zero-referenced command number
  equal to the number of stored writes is accepted: with ten stored writes it moves the
  position to the end of the data plus any offset up to the size of the oldest write,
  which is past the end for a positive offset. And an offset equal to the size of the
  write is accepted, which is the first byte of the next write.
\<close>

theorem seek_accepts_past_the_end:
  assumes "dev_inv env s" and "idle s" and "env_ok env" and "private_data filp \<noteq> None"
    and "user_seekto env (clock s) arg = Some st" and "\<not> lock_interrupted env (Suc (clock s))"
    and "length (dev_lines s) = 10"
    and "write_cmd st = 10 \<and> unat (write_cmd_offset st) \<le> length (dev_lines s ! 0) \<or>
      unat (write_cmd st) < 10 \<and> unat (write_cmd_offset st) = length (dev_lines s ! unat (write_cmd st))"
  shows "\<exists>s'. aesd_ioctl env filp AESDCHAR_IOCSEEKTO arg s = Inr (0, s') \<and>
    unat (lseekPos s') =
      (if write_cmd st = 10 then length (concat (dev_lines s)) + unat (write_cmd_offset st)
       else length (concat (take (Suc (unat (write_cmd st))) (dev_lines s))))"
proof -
  have "full (buff s)"
    using assms(7) length_cb_items [OF dev_inv_cb [OF assms(1)]] dev_inv_cb [OF assms(1)]
    by (auto simp: length_dev_lines cb_inv_def split: if_splits)
  then have "seek_limit s (unat (write_cmd st)) = Some
      (length (dev_lines s ! (if write_cmd st = 10 then 0 else unat (write_cmd st))))"
    using assms(7,8) by (auto simp: seek_limit_def)
  then obtain s' where io: "aesd_ioctl env filp AESDCHAR_IOCSEEKTO arg s = Inr (0, s')"
    "unat (lseekPos s') = length (concat (take (unat (write_cmd st)) (dev_lines s))) + unat (write_cmd_offset st)"
    using seekto_spec [OF assms(1-6)] assms(8) by (auto split: if_splits)
  show ?thesis
  proof (cases "write_cmd st = 10")
    case True
    with io assms(7) show ?thesis by auto
  next
    case False
    with io assms(7,8) show ?thesis by (auto simp: take_Suc_conv_app_nth)
  qed
qed

text \<open>A device with ten stored lines of two bytes.\<close>

lemma demo_full:
  obtains s where "dev_inv demo_env s" "idle s"
    "dev_lines s = replicate 10 [CHR ''x'', NL]" "dev_partial s = []" "lseekPos s = 0"
proof -
  have "split_lines [] (concat (replicate 10 [CHR ''x'', NL])) = (replicate 10 [CHR ''x'', NL], [])"
    by code_simp
  then show thesis
    using that aesd_write_lines [OF start_state_inv start_state_facts(1) demo_env_ok, of demo_file
        "concat (replicate 10 [CHR ''x'', NL])" 20]
    by (force simp: demo_file_def start_state_facts demo_env_def keep_last_small fits_stage_def
        length_concat sum_list_replicate)
qed

theorem seek_accepts_past_the_end_witness:
  "\<exists>s s'. length (concat (dev_lines s)) = 20 \<and>
     aesd_ioctl demo_env demo_file AESDCHAR_IOCSEEKTO 8 s = Inr (0, s') \<and> unat (lseekPos s') = 21"
proof -
  obtain s where s: "dev_inv demo_env s" "idle s" "dev_lines s = replicate 10 [CHR ''x'', NL]"
    using demo_full by blast
  have "user_seekto demo_env (clock s) 8 = Some \<lparr>write_cmd = 10, write_cmd_offset = 1\<rparr>"
    "\<not> lock_interrupted demo_env (Suc (clock s))" "private_data demo_file \<noteq> None"
    by (simp_all add: demo_env_def demo_file_def)
  from seek_accepts_past_the_end [OF s(1,2) demo_env_ok(1) this(3,1,2)]
  obtain s' where "aesd_ioctl demo_env demo_file AESDCHAR_IOCSEEKTO 8 s = Inr (0, s')"
    "unat (lseekPos s') = 21"
    by (auto simp: s(3) length_concat sum_list_replicate)
  moreover have "length (concat (dev_lines s)) = 20"
    by (simp add: s(3) length_concat sum_list_replicate)
  ultimately show ?thesis by blast
qed

text \<open>
  Any other command is refused: a command of another type, a command number above 1,
  or a command that differs from the seek command in any bit gives -ENOTTY, and a
  structure that cannot be copied gives -EFAULT, with the device unchanged.
\<close>

theorem ioctl_rejects:
  assumes "cmd \<noteq> 0xC0081601 \<or> user_seekto env (clock s) arg = None"
  shows "aesd_ioctl env filp cmd arg s =
    (if cmd \<noteq> 0xC0081601 then Inr (- ENOTTY, s) else Inr (- EFAULT, tick s))"
  using assms
  unfolding IOCSEEKTO_value [symmetric]
  by (auto simp: aesd_ioctl_def IOCSEEKTO_accepted)

theorem ioctl_rejects_witness:
  "aesd_ioctl demo_env demo_file 0xC0081602 8 start_state = Inr (- ENOTTY, start_state) \<and>
   aesd_ioctl demo_env demo_file 0xC0081601 0 start_state = Inr (- EFAULT, tick start_state)"
  using ioctl_rejects [of "0xC0081602" demo_env start_state 8 demo_file]
    ioctl_rejects [of "0xC0081601" demo_env start_state 0 demo_file]
  by (simp add: demo_env_def)

section \<open>Seeking with llseek\<close>

lemma llseek_result:
  assumes "dev_inv env s" "idle s" "private_data filp \<noteq> None" "\<not> lock_interrupted env (clock s)"
  shows "\<exists>s'. aesd_llseek env filp off whence s = Inr (lseekPos s', s') \<and>
    dev_inv env s' \<and> idle s' \<and> dev_lines s' = dev_lines s \<and> dev_partial s' = dev_partial s \<and>
    lseekPos s' = (if whence = SEEK_SET then off
      else if whence = SEEK_CUR then lseekPos s + off
      else if whence = SEEK_END then aesd_circular_buffer_get_size (buff s)
      else lseekPos s)"
proof -
  let ?p = "if whence = SEEK_SET then off
      else if whence = SEEK_CUR then lseekPos s + off
      else if whence = SEEK_END then aesd_circular_buffer_get_size (buff s)
      else lseekPos s"
  let ?s = "unlock_buff ((tick s)\<lparr>buffMutex := True, lseekPos := ?p\<rparr>)"
  have "aesd_llseek env filp off whence s = Inr (lseekPos ?s, ?s)"
    using assms by (auto simp: aesd_llseek_def lock_buff_free seek_defs unlock_buff_def)
  moreover have "dev_inv env ?s \<and> idle ?s \<and> dev_lines ?s = dev_lines s \<and>
      dev_partial ?s = dev_partial s \<and> lseekPos ?s = ?p"
    using assms by (simp add: idle_def) (simp add: unlock_buff_def)
  ultimately show ?thesis by blast
qed

text \<open>
  What \<open>llseek\<close> does: SEEK_SET sets the device's position to the offset, SEEK_CUR
  adds the offset to it, SEEK_END sets it to the number of stored bytes whatever the
  offset; any other \<open>whence\<close> leaves it (no -EINVAL). It returns the new position.
\<close>

theorem llseek_sets_position:
  assumes "dev_inv env s" and "idle s" and "env_ok env" and "private_data filp \<noteq> None"
    and "\<not> lock_interrupted env (clock s)"
  shows "\<exists>s'. aesd_llseek env filp off whence s = Inr (lseekPos s', s') \<and>
    dev_inv env s' \<and> idle s' \<and> dev_lines s' = dev_lines s \<and> dev_partial s' = dev_partial s \<and>
    lseekPos s' = (if whence = SEEK_SET then off
      else if whence = SEEK_CUR then lseekPos s + off
      else if whence = SEEK_END then of_nat (length (concat (dev_lines s)))
      else lseekPos s)"
proof -
  have "aesd_circular_buffer_get_size (buff s) = of_nat (length (concat (dev_lines s)))"
    using get_size_sum [OF dev_inv_cb [OF assms(1)] dev_fits [OF assms(1,3)]] assms(1)
    by (metis length_concat lengths_dev_lines of_nat_unat_id)
  note eq = this
  show ?thesis
    using llseek_result [OF assms(1,2,4,5), of off whence] by (simp only: eq)
qed

theorem llseek_sets_position_witness:
  "\<exists>s s'. aesd_llseek demo_env demo_file 5 SEEK_END s = Inr (6, s') \<and> lseekPos s' = 6"
proof -
  obtain s where s: "dev_inv demo_env s" "idle s"
    "dev_lines s = [[CHR ''a'', CHR ''b'', NL], [CHR ''c'', CHR ''d'', NL]]" "lseekPos s = 0"
    using demo_written by blast
  have "private_data demo_file \<noteq> None" "\<not> lock_interrupted demo_env (clock s)"
    by (simp_all add: demo_env_def demo_file_def)
  from llseek_sets_position [OF s(1,2) demo_env_ok(1) this, of 5 SEEK_END]
  obtain s' where "aesd_llseek demo_env demo_file 5 SEEK_END s = Inr (6, s')" "lseekPos s' = 6"
    by (auto simp: seek_defs s(3))
  then show ?thesis by blast
qed

text \<open>
  Because reads start at the sum of the two positions and \<open>llseek\<close> sets only the
  device's one, SEEK_SET does not rewind a file that has been read: after a read that
  moved the file position to \<open>f_pos\<close>, seeking to \<open>off\<close> makes the next read start at
  \<open>f_pos + off\<close>. In particular after the data was read to its end, seeking to 0 and
  reading again gives nothing.
\<close>

theorem seek_set_does_not_rewind:
  assumes "dev_inv env s" and "idle s" and "env_ok env" and "private_data filp \<noteq> None"
    and "\<forall>n. \<not> lock_interrupted env n"
    and "length (concat (dev_lines s)) \<le> unat (f_pos filp)"
  shows "\<exists>s1 s2. aesd_llseek env filp 0 SEEK_SET s = Inr (0, s1) \<and>
    aesd_read env filp count s1 = Inr (0, [], filp, s2)"
proof -
  obtain s1 where s1: "aesd_llseek env filp 0 SEEK_SET s = Inr (lseekPos s1, s1)" "dev_inv env s1" "idle s1"
    "dev_lines s1 = dev_lines s" "lseekPos s1 = 0"
    using llseek_result [OF assms(1,2,4), of 0 SEEK_SET] assms(5) by auto
  have "aesd_read env filp count s1 = Inr (0, [], filp, unlock_buff (tick s1))"
    using assms(5,6) s1(4,5) by (intro read_eof [OF s1(2,3) assms(3,4)]) simp_all
  then show ?thesis using s1(1,5) by auto
qed

theorem seek_set_does_not_rewind_witness:
  "\<exists>s s1 s2. dev_lines s \<noteq> [] \<and>
     aesd_llseek demo_env (demo_file\<lparr>f_pos := 6\<rparr>) 0 SEEK_SET s = Inr (0, s1) \<and>
     aesd_read demo_env (demo_file\<lparr>f_pos := 6\<rparr>) 10 s1 = Inr (0, [], demo_file\<lparr>f_pos := 6\<rparr>, s2)"
proof -
  obtain s where s: "dev_inv demo_env s" "idle s"
    "dev_lines s = [[CHR ''a'', CHR ''b'', NL], [CHR ''c'', CHR ''d'', NL]]"
    using demo_written by blast
  have "private_data (demo_file\<lparr>f_pos := 6\<rparr>) \<noteq> None" "\<forall>n. \<not> lock_interrupted demo_env n"
    "length (concat (dev_lines s)) \<le> unat (f_pos (demo_file\<lparr>f_pos := 6\<rparr>))"
    by (simp_all add: demo_env_def demo_file_def s(3))
  from seek_set_does_not_rewind [OF s(1,2) demo_env_ok(1) this, of 10] s(3)
  show ?thesis by (metis list.distinct(1))
qed

end
