(* ===== verification/Device_Module.thy ===== *)
theory Device_Module
  imports Device_Ops "HOL-Library.Multiset"
begin

text \<open>
  The life of the driver module: \<open>aesd_init_module\<close>, \<open>aesd_setup_cdev\<close> and
  \<open>aesd_cleanup_module\<close> of \<open>aesd-char-driver/main.c\<close>, and the device between them as a
  state machine: any number of clients that open, read, write, seek and close in any
  order (\<open>client_step\<close>). The invariant of the device holds in every reachable state, no
  operation faults in one, and unloading the module frees every block exactly once.
\<close>

section \<open>Loading and unloading\<close>

text \<open>
  The calls into the character-device core are recorded; their results are parameters. An
  allocation that fails leaves the device number 0, whose major number is 0.
\<close>

datatype kcall =
    AllocRegion
  | CdevAdd nat nat
  | CdevDel
  | UnregisterRegion nat nat

record module_world =
  device :: kstate
  aesd_major :: nat
  aesd_minor :: nat
  calls :: "kcall list"

definition record_call :: "kcall \<Rightarrow> module_world \<Rightarrow> module_world" where
  "record_call c w = w\<lparr>calls := calls w @ [c]\<rparr>"

text \<open>\<open>add_result\<close> is what \<open>cdev_add\<close> returns.\<close>

definition aesd_setup_cdev :: "int \<Rightarrow> module_world \<Rightarrow> int \<times> module_world" where
  "aesd_setup_cdev add_result w = (add_result, record_call (CdevAdd (aesd_major w) (aesd_minor w)) w)"

text \<open>
  The loop of \<open>AESD_CIRCULAR_BUFFER_FOREACH\<close> with its \<open>uint8_t\<close> index: the body is run on every
  slot of the array, live or not.
\<close>

function AESD_CIRCULAR_BUFFER_FOREACH ::
    "(aesd_buffer_entry \<Rightarrow> 's \<Rightarrow> 's res) \<Rightarrow> aesd_circular_buffer \<Rightarrow> u8 \<Rightarrow> 's \<Rightarrow> 's res" where
  "AESD_CIRCULAR_BUFFER_FOREACH body buffer index s =
     (if index < of_nat AESDCHAR_MAX_WRITE_OPERATIONS_SUPPORTED then
        bindR (body (entry buffer ! unat index) s) (AESD_CIRCULAR_BUFFER_FOREACH body buffer (index + 1))
      else Inr s)"
  by pat_completeness auto
termination
proof (relation "measure (\<lambda>(body, buffer, index, s). 10 - unat index)", goal_cases)
  case (2 body buffer index s x)
  then have less: "unat index < 10" by (simp add: AESDCHAR_MAX_WRITE_OPERATIONS_SUPPORTED_def word_less_nat_alt)
  then have "unat (index + 1) = Suc (unat index)" by (intro unat_Suc_8) simp
  with less show ?case by simp
qed simp

declare AESD_CIRCULAR_BUFFER_FOREACH.simps [simp del]

definition free_entry :: "aesd_buffer_entry \<Rightarrow> heap \<Rightarrow> heap res" where
  "free_entry e h = kfree h (buffptr e)"

definition aesd_cleanup_module :: "module_world \<Rightarrow> module_world res" where
  "aesd_cleanup_module w =
     (let w = record_call CdevDel w;
          s = device w in
      bindR (AESD_CIRCULAR_BUFFER_FOREACH free_entry (buff s) 0 (kheap s)) (\<lambda>h.
        bindR (kfree h (buffPtr (stage s))) (\<lambda>h.
          Inr (record_call (UnregisterRegion (aesd_major w) (aesd_minor w))
                 (w\<lparr>device := s\<lparr>kheap := h\<rparr>\<rparr>)))))"

text \<open>
  The initialiser of \<open>aesd_device\<close> sets the size of the staging buffer; \<open>aesd_init_module\<close>
  clears the whole device with \<open>memset\<close>, then sets up the two mutexes and the buffer.
\<close>

definition aesd_device :: "kernel_env \<Rightarrow> aesd_dev" where
  "aesd_device env = \<lparr>stage = \<lparr>buffPtr = None, stage_size = KMALLOC_MAX_SIZE env, endIdx = 0\<rparr>,
     entryMutex = False,
     buff = \<lparr>entry = replicate AESDCHAR_MAX_WRITE_OPERATIONS_SUPPORTED zero_entry, in_offs = 0, out_offs = 0,
       full = False\<rparr>,
     buffMutex = False, lseekPos = 0\<rparr>"

definition zeroed_device :: "kstate \<Rightarrow> kstate" where
  "zeroed_device s = s\<lparr>stage := \<lparr>buffPtr = None, stage_size = 0, endIdx = 0\<rparr>,
     entryMutex := False, buff := aesd_circular_buffer_init, buffMutex := False, lseekPos := 0\<rparr>"

text \<open>
  \<open>alloc_result\<close> is \<open>Inl\<close> the negative error of \<open>alloc_chrdev_region\<close> or \<open>Inr\<close> the
  major number it assigned.
\<close>

definition aesd_init_module :: "int + nat \<Rightarrow> int \<Rightarrow> module_world \<Rightarrow> (int \<times> module_world) res" where
  "aesd_init_module alloc_result add_result w =
     (let w = record_call AllocRegion w in
      case alloc_result of
        Inl result \<Rightarrow>
          bindR (aesd_cleanup_module (w\<lparr>aesd_major := 0\<rparr>)) (\<lambda>w. Inr (result, w))
      | Inr major \<Rightarrow>
          (let w = w\<lparr>aesd_major := major, device := zeroed_device (device w)\<rparr>;
               (result, w) = aesd_setup_cdev add_result w;
               w = (if result \<noteq> 0 then record_call (UnregisterRegion major (aesd_minor w)) w else w)
           in Inr (result, w)))"

section \<open>Clients\<close>

text \<open>
  The open files, by descriptor. A fresh open file has no private data and position 0;
  \<open>release\<close> is called when the last reference to the file goes away.
\<close>

type_synonym client_state = "kstate \<times> (nat \<rightharpoonup> struct_file)"

definition fresh_file :: struct_file where
  "fresh_file = \<lparr>private_data = None, f_pos = 0\<rparr>"

inductive client_step :: "kernel_env \<Rightarrow> client_state \<Rightarrow> client_state \<Rightarrow> bool" for env where
  do_open: "fs fd = None \<Longrightarrow> aesd_open fresh_file s = Inr (r, f', s') \<Longrightarrow>
     client_step env (s, fs) (s', fs(fd \<mapsto> f'))"
| do_release: "fs fd = Some f \<Longrightarrow> aesd_release f s = Inr (r, f', s') \<Longrightarrow>
     client_step env (s, fs) (s', fs(fd := None))"
| do_read: "fs fd = Some f \<Longrightarrow> aesd_read env f cnt s = Inr (r, bytes, f', s') \<Longrightarrow>
     client_step env (s, fs) (s', fs(fd \<mapsto> f'))"
| do_write: "fs fd = Some f \<Longrightarrow> length buf = unat cnt \<Longrightarrow> aesd_write env f buf cnt s = Inr (r, s') \<Longrightarrow>
     client_step env (s, fs) (s', fs)"
| do_llseek: "fs fd = Some f \<Longrightarrow> aesd_llseek env f off whence s = Inr (r, s') \<Longrightarrow>
     client_step env (s, fs) (s', fs)"
| do_ioctl: "fs fd = Some f \<Longrightarrow> aesd_ioctl env f cmd arg s = Inr (r, s') \<Longrightarrow>
     client_step env (s, fs) (s', fs)"

inductive_cases client_stepE: "client_step env (s, fs) (s', fs')"

inductive reachable :: "kernel_env \<Rightarrow> client_state \<Rightarrow> bool" for env where
  start: "dev_inv env s \<Longrightarrow> idle s \<Longrightarrow> dev_lines s = [] \<Longrightarrow> dev_partial s = [] \<Longrightarrow>
     reachable env (s, Map.empty)"
| step: "reachable env c \<Longrightarrow> client_step env c c' \<Longrightarrow> reachable env c'"

definition client_inv :: "kernel_env \<Rightarrow> client_state \<Rightarrow> bool" where
  "client_inv env c \<longleftrightarrow> dev_inv env (fst c) \<and> idle (fst c) \<and>
     (\<forall>f \<in> ran (snd c). private_data f \<noteq> None)"

section \<open>Every operation is safe\<close>

lemma open_safe: "aesd_open f s = Inr (0, f\<lparr>private_data := Some TheDevice\<rparr>, s)"
  by (simp add: aesd_open_def)

lemma read_safe:
  assumes "dev_inv env s" "idle s" "env_ok env" "private_data f \<noteq> None"
  shows "\<exists>r bytes f' s'. aesd_read env f cnt s = Inr (r, bytes, f', s') \<and>
     dev_inv env s' \<and> idle s' \<and> private_data f' \<noteq> None"
proof (cases "lock_interrupted env (clock s)")
  case True
  with assms show ?thesis by (simp add: aesd_read_def lock_buff_def idle_def)
next
  case False
  with read_prefix [OF assms, of cnt] assms(4) show ?thesis
    by (auto simp: same_device_def)
qed

lemma write_safe:
  assumes "dev_inv env s" "idle s" "env_ok env" "private_data f \<noteq> None" "length buf = unat cnt"
  shows "\<exists>r s'. aesd_write env f buf cnt s = Inr (r, s') \<and> dev_inv env s' \<and> idle s'"
  using aesd_write_safe [OF assms] by blast

lemma llseek_safe:
  assumes "dev_inv env s" "idle s" "private_data f \<noteq> None"
  shows "\<exists>r s'. aesd_llseek env f off whence s = Inr (r, s') \<and> dev_inv env s' \<and> idle s'"
proof (cases "lock_interrupted env (clock s)")
  case True
  with assms show ?thesis by (simp add: aesd_llseek_def lock_buff_def idle_def)
next
  case False
  with llseek_result [OF assms False, of off whence] show ?thesis by blast
qed

lemma ioctl_safe:
  assumes "dev_inv env s" "idle s" "env_ok env" "private_data f \<noteq> None"
  shows "\<exists>r s'. aesd_ioctl env f cmd arg s = Inr (r, s') \<and> dev_inv env s' \<and> idle s'"
proof (cases "cmd = AESDCHAR_IOCSEEKTO \<and> user_seekto env (clock s) arg \<noteq> None")
  case False
  with assms show ?thesis
    by (auto simp: aesd_ioctl_def idle_def)
next
  case True
  then obtain st where st: "user_seekto env (clock s) arg = Some st" by auto
  show ?thesis
  proof (cases "lock_interrupted env (Suc (clock s))")
    case True
    with assms st \<open>cmd = _ \<and> _\<close> show ?thesis
      by (simp add: aesd_ioctl_def IOCSEEKTO_accepted lock_buff_def idle_def)
         (simp add: tick_def)
  next
    case False
    with seekto_spec [OF assms st False] \<open>cmd = _ \<and> _\<close> show ?thesis by blast
  qed
qed

lemma client_step_inv:
  assumes "client_step env c c'" "client_inv env c" "env_ok env"
  shows "client_inv env c'"
  using assms
proof (induction rule: client_step.induct)
  case (do_open fs fd s r f' s')
  then show ?case by (auto simp: client_inv_def aesd_open_def ran_def split: if_splits)
next
  case (do_release fs fd f s r f' s')
  then show ?case by (auto simp: client_inv_def aesd_release_def ran_def idle_def)
next
  case (do_read fs fd f cnt s r bytes f' s')
  then have "private_data f \<noteq> None" by (auto simp: client_inv_def ran_def)
  with read_safe [of env s f cnt] do_read show ?case
    by (auto simp: client_inv_def ran_def)
next
  case (do_write fs fd f buf cnt s r s')
  then have "private_data f \<noteq> None" by (auto simp: client_inv_def ran_def)
  with write_safe [of env s f buf cnt] do_write show ?case
    by (auto simp: client_inv_def)
next
  case (do_llseek fs fd f off whence s r s')
  then have "private_data f \<noteq> None" by (auto simp: client_inv_def ran_def)
  with llseek_safe [of env s f off whence] do_llseek show ?case
    by (auto simp: client_inv_def)
next
  case (do_ioctl fs fd f cmd arg s r s')
  then have "private_data f \<noteq> None" by (auto simp: client_inv_def ran_def)
  with ioctl_safe [of env s f cmd arg] do_ioctl show ?case
    by (auto simp: client_inv_def)
qed

lemma reachable_inv: "reachable env c \<Longrightarrow> env_ok env \<Longrightarrow> client_inv env c"
proof (induction rule: reachable.induct)
  case (start s)
  then show ?case by (simp add: client_inv_def)
next
  case (step c c')
  then show ?case by (blast intro: client_step_inv)
qed

section \<open>Unloading\<close>

text \<open>The loop over the slots, as a recursion over the pointers in them.\<close>

fun kfree_all :: "heap \<Rightarrow> ptr list \<Rightarrow> heap res" where
  "kfree_all h [] = Inr h"
| "kfree_all h (p # ps) = bindR (kfree h p) (\<lambda>h. kfree_all h ps)"

lemma foreach_from:
  "length (entry b) = 10 \<Longrightarrow> unat index \<le> 10 \<Longrightarrow>
     AESD_CIRCULAR_BUFFER_FOREACH free_entry b index h = kfree_all h (map buffptr (drop (unat index) (entry b)))"
proof (induction "free_entry" b index h rule: AESD_CIRCULAR_BUFFER_FOREACH.induct)
  case (1 b index h)
  show ?case
  proof (cases "index < 10")
    case False
    then have "drop (unat index) (entry b) = []" using "1.prems" by (simp add: word_less_nat_alt)
    with False show ?thesis by (subst AESD_CIRCULAR_BUFFER_FOREACH.simps) (simp add: AESDCHAR_MAX_WRITE_OPERATIONS_SUPPORTED_def)
  next
    case True
    then have less: "unat index < 10" by (simp add: word_less_nat_alt)
    then have next_index: "unat (index + 1) = Suc (unat index)" by (intro unat_Suc_8) simp
    have "drop (unat index) (entry b) = entry b ! unat index # drop (Suc (unat index)) (entry b)"
      using less "1.prems"(1) by (simp add: Cons_nth_drop_Suc)
    moreover have "AESD_CIRCULAR_BUFFER_FOREACH free_entry b (index + 1) h'
        = kfree_all h' (map buffptr (drop (Suc (unat index)) (entry b)))"
      if "free_entry (entry b ! unat index) h = Inr h'" for h'
      using "1.hyps" [OF _ that] True "1.prems"(1) less next_index by (simp add: AESDCHAR_MAX_WRITE_OPERATIONS_SUPPORTED_def)
    ultimately show ?thesis
      using True by (subst AESD_CIRCULAR_BUFFER_FOREACH.simps)
        (cases "free_entry (entry b ! unat index) h"; simp add: AESDCHAR_MAX_WRITE_OPERATIONS_SUPPORTED_def free_entry_def)
  qed
qed

lemma foreach_frees:
  "length (entry b) = 10 \<Longrightarrow> AESD_CIRCULAR_BUFFER_FOREACH free_entry b 0 h = kfree_all h (map buffptr (entry b))"
  by (simp add: foreach_from)

lemma kfree_all_frees:
  "distinct (filter (\<lambda>p. p \<noteq> None) ps) \<Longrightarrow> set (filter (\<lambda>p. p \<noteq> None) ps) \<subseteq> Some ` dom h \<Longrightarrow>
     \<exists>h'. kfree_all h ps = Inr h' \<and> Some ` dom h' = Some ` dom h - set ps"
proof (induction ps arbitrary: h)
  case Nil
  then show ?case by simp
next
  case (Cons p ps)
  show ?case
  proof (cases p)
    case None
    with Cons.IH [of h] Cons.prems show ?thesis by (auto simp: kfree_def)
  next
    case (Some a)
    have a: "a \<in> dom h" using Cons.prems(2) Some by auto
    have dom: "Some ` dom (h(a := None)) = Some ` dom h - {Some a}" by auto
    have "\<exists>h'. kfree_all (h(a := None)) ps = Inr h' \<and> Some ` dom h' = Some ` dom (h(a := None)) - set ps"
    proof (rule Cons.IH)
      show "set (filter (\<lambda>p. p \<noteq> None) ps) \<subseteq> Some ` dom (h(a := None))"
        unfolding dom using Cons.prems Some by auto
    qed (use Cons.prems Some in auto)
    then obtain h' where h': "kfree_all (h(a := None)) ps = Inr h'"
      "Some ` dom h' = Some ` dom h - {Some a} - set ps"
      unfolding dom by blast
    then have "kfree_all h (p # ps) = Inr h'" using Some a by (auto simp: kfree_def)
    moreover have "Some ` dom h - {Some a} - set ps = Some ` dom h - set (p # ps)"
      using Some by auto
    ultimately show ?thesis using h'(2) by metis
  qed
qed

text \<open>All slots of the array, live or not, hold the pointers the buffer owns, or NULL.\<close>

lemma array_pointers:
  assumes "cb_inv b"
  shows "mset (map buffptr (entry b))
    = mset (map buffptr (cb_items b)) + replicate_mset (10 - length (cb_items b)) None"
proof -
  have "mset (entry b) = mset (cb_slots b)"
    by (metis cb_slots_def append_take_drop_id mset_append rotate_drop_take union_commute)
  also have "\<dots> = mset (cb_items b) + replicate_mset (10 - length (cb_items b)) zero_entry"
    by (subst slots_decompose [OF assms]) simp
  finally have "image_mset buffptr (mset (entry b))
      = image_mset buffptr (mset (cb_items b) + replicate_mset (10 - length (cb_items b)) zero_entry)"
    by simp
  then show ?thesis by (simp add: zero_entry_def)
qed

lemma filter_replicate_None: "filter_mset (\<lambda>p. p \<noteq> None) (replicate_mset n None) = {#}"
  by (induction n) auto

lemma array_pointers_filter:
  assumes "dev_inv env s"
  shows "distinct (filter (\<lambda>p. p \<noteq> None) (map buffptr (entry (buff s))))"
    and "set (filter (\<lambda>p. p \<noteq> None) (map buffptr (entry (buff s)))) = set (map buffptr (cb_items (buff s)))"
proof -
  let ?ps = "map buffptr (cb_items (buff s))"
  have nn: "\<forall>p \<in> set ?ps. p \<noteq> None"
    using assms by (auto simp: dev_inv_def block_ok_def)
  have "mset (filter (\<lambda>p. p \<noteq> None) (map buffptr (entry (buff s))))
      = filter_mset (\<lambda>p. p \<noteq> None) (mset ?ps)"
    by (simp only: mset_filter array_pointers [OF dev_inv_cb [OF assms]] filter_union_mset
        filter_replicate_None add_0_right)
  also have "\<dots> = mset (filter (\<lambda>p. p \<noteq> None) ?ps)" by (simp only: mset_filter)
  also have "filter (\<lambda>p. p \<noteq> None) ?ps = ?ps" using nn by (simp only: filter_id_conv)
  finally have eq: "mset (filter (\<lambda>p. p \<noteq> None) (map buffptr (entry (buff s)))) = mset ?ps" .
  have "distinct ?ps" using assms by (simp add: dev_inv_def owned_def)
  with eq show "distinct (filter (\<lambda>p. p \<noteq> None) (map buffptr (entry (buff s))))"
    by (metis mset_eq_imp_distinct_iff)
  show "set (filter (\<lambda>p. p \<noteq> None) (map buffptr (entry (buff s)))) = set ?ps"
    using eq by (metis mset_eq_setD)
qed

lemma cleanup_empties_heap:
  assumes inv: "dev_inv env (device w)"
  shows "\<exists>w'. aesd_cleanup_module w = Inr w' \<and> kheap (device w') = Map.empty \<and>
     calls w' = calls w @ [CdevDel, UnregisterRegion (aesd_major w) (aesd_minor w)]"
proof -
  let ?s = "device w"
  let ?ptrs = "map buffptr (entry (buff ?s))"
  have own: "set (owned ?s) = Some ` dom (kheap ?s)" "distinct (owned ?s)"
    using inv by (simp_all add: dev_inv_def)
  have "set (filter (\<lambda>p. p \<noteq> None) ?ptrs) \<subseteq> Some ` dom (kheap ?s)"
    unfolding array_pointers_filter(2) [OF inv] using own(1) by (auto simp: owned_def)
  then obtain h where h: "kfree_all (kheap ?s) ?ptrs = Inr h" "Some ` dom h = Some ` dom (kheap ?s) - set ?ptrs"
    using kfree_all_frees [OF array_pointers_filter(1) [OF inv]] by blast
  have "Some ` dom h = Some ` dom (kheap ?s) - set (filter (\<lambda>p. p \<noteq> None) ?ptrs)"
    unfolding h(2) by auto
  also have "\<dots> = Some ` dom (kheap ?s) - set (map buffptr (cb_items (buff ?s)))"
    unfolding array_pointers_filter(2) [OF inv] ..
  also have "\<dots> = (if buffPtr (stage ?s) = None then {} else {buffPtr (stage ?s)})"
    using own(2) unfolding own(1) [symmetric] owned_def by (auto split: if_splits)
  finally have left: "Some ` dom h = (if buffPtr (stage ?s) = None then {} else {buffPtr (stage ?s)})" .
  have "\<exists>h'. kfree h (buffPtr (stage ?s)) = Inr h' \<and> h' = Map.empty"
  proof (cases "buffPtr (stage ?s)")
    case None
    with left show ?thesis by (simp add: kfree_def)
  next
    case (Some a)
    with left have "dom h = {a}" by auto
    moreover from this have "h(a := None) = Map.empty" by (auto simp: fun_eq_iff)
    ultimately show ?thesis using Some by (auto simp: kfree_def)
  qed
  then show ?thesis
    using h(1) foreach_frees [OF cb_inv_length [OF dev_inv_cb [OF inv]]]
    by (auto simp: aesd_cleanup_module_def record_call_def Let_def)
qed

lemma init_result:
  "aesd_init_module (Inr major) add_result w = Inr (add_result,
     w\<lparr>aesd_major := major, device := zeroed_device (device w),
       calls := calls w @ [AllocRegion, CdevAdd major (aesd_minor w)] @
         (if add_result \<noteq> 0 then [UnregisterRegion major (aesd_minor w)] else [])\<rparr>)"
  by (simp add: aesd_init_module_def aesd_setup_cdev_def record_call_def Let_def)

text \<open>The size in the initialiser is lost when the module is loaded; \<open>aesd_write\<close> sets it anew.\<close>

lemma initialiser_is_cleared:
  "stage_size (stage (aesd_device env)) = KMALLOC_MAX_SIZE env"
  "stage_size (stage (zeroed_device s)) = 0" "buff (zeroed_device s) = buff (aesd_device env)"
  by (simp_all add: aesd_device_def zeroed_device_def aesd_circular_buffer_init_def)

lemma zeroed_facts:
  "kheap s = Map.empty \<Longrightarrow> dev_inv env (zeroed_device s)"
  "idle (zeroed_device s)" "dev_lines (zeroed_device s) = []" "dev_partial (zeroed_device s) = []"
  "lseekPos (zeroed_device s) = 0"
  by (simp_all add: zeroed_device_def dev_inv_def idle_def dev_lines_def dev_partial_def owned_def
      cb_items_init cb_inv_init)

section \<open>Properties\<close>

text \<open>
  C17. Whatever any number of clients do, in any order and with any kernel answers, every
  state of the loaded driver satisfies the device invariant with both mutexes free, and
  every operation on every open file returns: none faults or blocks on its own mutex.
\<close>

theorem reachable_operations_return:
  assumes "reachable env (s, fs)" and "env_ok env" and "fs fd = Some f"
    and "length buf = unat cnt"
  shows "dev_inv env s \<and> idle s \<and>
    (\<exists>x. aesd_release f s = Inr x) \<and> (\<exists>x. aesd_read env f cnt s = Inr x) \<and>
    (\<exists>x. aesd_write env f buf cnt s = Inr x) \<and>
    (\<exists>x. aesd_llseek env f off whence s = Inr x) \<and> (\<exists>x. aesd_ioctl env f cmd arg s = Inr x)"
proof -
  have inv: "dev_inv env s" "idle s" "private_data f \<noteq> None"
    using reachable_inv [OF assms(1,2)] assms(3) by (auto simp: client_inv_def ran_def)
  show ?thesis
    using inv read_safe [OF inv(1,2) assms(2) inv(3), of cnt]
      write_safe [OF inv(1,2) assms(2) inv(3) assms(4)]
      llseek_safe [OF inv, of off whence] ioctl_safe [OF inv(1,2) assms(2) inv(3), of cmd arg]
    by (fastforce simp: aesd_release_def)
qed

lemma demo_reachable: "reachable env (start_state, [0 \<mapsto> demo_file])"
proof -
  have "reachable env (start_state, Map.empty)"
    using start_state_inv start_state_facts by (intro reachable.start) auto
  moreover have "client_step env (start_state, Map.empty) (start_state, [0 \<mapsto> demo_file])"
    by (intro client_step.do_open [of Map.empty 0 _ 0]) 
       (simp_all add: aesd_open_def fresh_file_def demo_file_def)
  ultimately show ?thesis by (rule reachable.step)
qed

theorem reachable_operations_return_witness:
  "\<exists>x. aesd_write failing_env demo_file demo_input 7 start_state = Inr x"
  using reachable_operations_return [OF demo_reachable failing_env_ok, of 0 demo_file demo_input 7]
  by auto

text \<open>
  C30. Unloading the module in a state that satisfies the invariant frees every block the
  driver still holds, each exactly once: all ten array slots are passed to \<open>kfree\<close>, which
  ignores the empty ones, then the staging buffer, and nothing is left allocated. The
  device is removed before its number is given back.
\<close>

theorem unload_frees_everything:
  assumes "dev_inv env (device w)"
  shows "\<exists>w'. aesd_cleanup_module w = Inr w' \<and> kheap (device w') = Map.empty \<and>
     calls w' = calls w @ [CdevDel, UnregisterRegion (aesd_major w) (aesd_minor w)]"
  by (rule cleanup_empties_heap [OF assms])

definition demo_world :: "kstate \<Rightarrow> module_world" where
  "demo_world s = \<lparr>device = s, aesd_major = 240, aesd_minor = 0, calls = []\<rparr>"

theorem unload_frees_everything_witness:
  "\<exists>s w'. dev_lines s \<noteq> [] \<and> dev_partial s \<noteq> [] \<and>
     aesd_cleanup_module (demo_world s) = Inr w' \<and> kheap (device w') = Map.empty"
proof -
  obtain s where s: "dev_inv demo_env s" "dev_lines s = [[CHR ''a'', CHR ''b'', NL], [CHR ''c'', CHR ''d'', NL]]"
    "dev_partial s = [CHR ''e'']" by (rule demo_written)
  have "dev_inv demo_env (device (demo_world s))" using s(1) by (simp add: demo_world_def)
  from unload_frees_everything [OF this] s(2,3) show ?thesis by (metis list.distinct(1))
qed

text \<open>
  Loading the module into an empty heap gives a device that satisfies the invariant,
  with no line, no unfinished line, free mutexes and position 0, whatever the memory held;
  its result is that of \<open>cdev_add\<close>, and the device number is given back exactly when that
  fails. Such a device is a start state of the clients' state machine when it succeeds.
\<close>

theorem load_establishes_invariant:
  assumes "kheap (device w) = Map.empty"
  shows "\<exists>w'. aesd_init_module (Inr major) add_result w = Inr (add_result, w') \<and>
    dev_inv env (device w') \<and> idle (device w') \<and> dev_lines (device w') = [] \<and>
    dev_partial (device w') = [] \<and> lseekPos (device w') = 0 \<and>
    (UnregisterRegion major (aesd_minor w) \<in> set (drop (length (calls w)) (calls w'))
       \<longleftrightarrow> add_result \<noteq> 0) \<and>
    reachable env (device w', Map.empty)"
  using zeroed_facts [of "device w"] assms by (auto simp: init_result reachable.start)

theorem load_establishes_invariant_witness:
  "\<exists>w'. aesd_init_module (Inr 240) 0 (demo_world start_state) = Inr (0, w') \<and>
     reachable demo_env (device w', Map.empty)"
  using load_establishes_invariant [of "demo_world start_state" 240 0 demo_env]
  by (auto simp: demo_world_def start_state_def)

text \<open>
  A device number that cannot be allocated is reported with its error, but on the
  way the driver removes a character device it never added and gives back the number 0 it
  never got: the clean-up of a complete load runs on a device that was not set up.
\<close>

theorem failed_load_removes_unadded_device:
  assumes "dev_inv env (device w)" and "CdevAdd m n \<notin> set (calls w)"
  shows "\<exists>w'. aesd_init_module (Inl e) add_result w = Inr (e, w') \<and>
    calls w' = calls w @ [AllocRegion, CdevDel, UnregisterRegion 0 (aesd_minor w)] \<and>
    CdevAdd m n \<notin> set (calls w')"
  using cleanup_empties_heap [of env "record_call AllocRegion w\<lparr>aesd_major := 0\<rparr>"] assms
  by (auto simp: aesd_init_module_def record_call_def Let_def)

theorem failed_load_removes_unadded_device_witness:
  "\<exists>w'. aesd_init_module (Inl (- 12)) 0 (demo_world start_state) = Inr (- 12, w') \<and>
     CdevDel \<in> set (calls w')"
  using failed_load_removes_unadded_device [of demo_env "demo_world start_state" 240 0 "- 12" 0]
    start_state_inv [of demo_env] by (auto simp: demo_world_def)

text \<open>
  The position that the ioctl sets belongs to the device, not to the open file: when
  another client closes its own file, the seek of this one is undone, and its next read
  returns the stored data from its own position 0 instead of the place it had seeked to.
\<close>

theorem release_undoes_other_seek:
  assumes "dev_inv env s" and "idle s" and "env_ok env" and "private_data f \<noteq> None"
    and "f_pos f = 0" and "\<forall>n. \<not> lock_interrupted env n"
    and "aesd_ioctl env f AESDCHAR_IOCSEEKTO arg s = Inr (0, s1)"
    and "aesd_release g s1 = Inr (r, g', s2)"
  shows "\<exists>bytes f' s3. aesd_read env f cnt s2 = Inr (of_nat (length bytes), bytes, f', s3) \<and>
    bytes = take (length bytes) (concat (dev_lines s1)) \<and>
    ((\<forall>n k. not_copied env n k = 0) \<and> cnt \<noteq> 0 \<and> dev_lines s1 \<noteq> [] \<longrightarrow> bytes \<noteq> [])"
proof -
  obtain rr ss where "aesd_ioctl env f AESDCHAR_IOCSEEKTO arg s = Inr (rr, ss)" "dev_inv env ss" "idle ss"
    using ioctl_safe [OF assms(1-4)] by blast
  with assms(7) have s1: "dev_inv env s1" "idle s1" by simp_all
  have s2: "s2 = s1\<lparr>lseekPos := 0\<rparr>" using assms(8) by (simp add: aesd_release_def)
  have inv2: "dev_inv env s2" "idle s2" "dev_lines s2 = dev_lines s1"
    "unat (f_pos f + lseekPos s2) = 0"
    using s1 assms(5) by (simp_all add: s2 idle_def)
  have ne: "concat (dev_lines s1) \<noteq> []" if "dev_lines s1 \<noteq> []"
    using that s1(1) dev_lines_nonempty by (cases "dev_lines s1") auto
  obtain bytes s3 where
    "aesd_read env f cnt s2
       = Inr (of_nat (length bytes), bytes, f\<lparr>f_pos := f_pos f + of_nat (length bytes)\<rparr>, s3)"
    "bytes = take (length bytes) (drop 0 (concat (dev_lines s1)))"
    "(\<forall>n k. not_copied env n k = 0) \<longrightarrow> (bytes = [] \<longleftrightarrow> cnt = 0 \<or> length (concat (dev_lines s1)) \<le> 0)"
    using read_prefix [OF inv2(1,2) assms(3,4) spec [OF assms(6)], of cnt] unfolding inv2(3,4)
    by (elim exE conjE) (rule that)
  note rd = this
  from rd(3) ne have "(\<forall>n k. not_copied env n k = 0) \<and> cnt \<noteq> 0 \<and> dev_lines s1 \<noteq> [] \<longrightarrow> bytes \<noteq> []"
    by simp
  with rd(1,2) show ?thesis by auto
qed

theorem release_undoes_other_seek_witness:
  "\<exists>s s1 bytes f' s3. aesd_ioctl demo_env demo_file AESDCHAR_IOCSEEKTO 4096 s = Inr (0, s1) \<and>
     unat (lseekPos s1) = 4 \<and>
     aesd_read demo_env demo_file 2 (s1\<lparr>lseekPos := 0\<rparr>) = Inr (of_nat (length bytes), bytes, f', s3) \<and>
     bytes \<noteq> [] \<and> bytes = take (length bytes) [CHR ''a'', CHR ''b'', NL, CHR ''c'', CHR ''d'', NL]"
proof -
  obtain s where s: "dev_inv demo_env s" "idle s"
    "dev_lines s = [[CHR ''a'', CHR ''b'', NL], [CHR ''c'', CHR ''d'', NL]]" "lseekPos s = 0"
    using demo_written by blast
  have st: "user_seekto demo_env (clock s) 4096 = Some \<lparr>write_cmd = 1, write_cmd_offset = 1\<rparr>"
    "\<not> lock_interrupted demo_env (Suc (clock s))" "private_data demo_file \<noteq> None"
    by (simp_all add: demo_env_def demo_file_def)
  have "seek_limit s 1 = Some 3" by (simp add: seek_limit_def s(3))
  then obtain s1 where io: "aesd_ioctl demo_env demo_file AESDCHAR_IOCSEEKTO 4096 s = Inr (0, s1)"
    "dev_lines s1 = dev_lines s" "unat (lseekPos s1) = 4"
    using seekto_spec [OF s(1,2) demo_env_ok(1) st(3) st(1,2)] by (auto simp: s(3))
  have "aesd_release demo_file s1 = Inr (0, demo_file, s1\<lparr>lseekPos := 0\<rparr>)"
    by (simp add: aesd_release_def demo_file_def)
  from release_undoes_other_seek [OF s(1,2) demo_env_ok(1) st(3) _ _ io(1) this, of 2]
  have "\<exists>bytes f' s3. aesd_read demo_env demo_file 2 (s1\<lparr>lseekPos := 0\<rparr>)
      = Inr (of_nat (length bytes), bytes, f', s3) \<and> bytes \<noteq> [] \<and>
      bytes = take (length bytes) [CHR ''a'', CHR ''b'', NL, CHR ''c'', CHR ''d'', NL]"
    by (auto simp: io(2) s(3) demo_file_def demo_env_def)
  with io show ?thesis by blast
qed

end
