(* ===== verification/Seek_Command.thy ===== *)
theory Seek_Command
  imports Char_Device
begin

text \<open>
  Recognising the seek command in the bytes of a connection: \<open>FindSeek\<close> of
  \<open>server/connectionHandlerThread.c\<close>, with the part of \<open>sscanf\<close> that its format uses.
\<close>

section \<open>C strings\<close>

abbreviation NUL :: byte where
  "NUL \<equiv> CHR 0x00"

text \<open>
  The string that starts at the first byte of a memory region: the bytes before the first
  NUL. \<open>None\<close>: there is none in the region, and a function that takes a string reads past
  its end.
\<close>

fun cstring :: "byte list \<Rightarrow> byte list option" where
  "cstring [] = None"
| "cstring (c # cs) = (if c = NUL then Some [] else map_option (Cons c) (cstring cs))"

lemma cstring_append: "NUL \<notin> set xs \<Longrightarrow> cstring (xs @ ys) = map_option ((@) xs) (cstring ys)"
  by (induction xs; cases "cstring ys") auto

lemma cstring_Some_iff: "(\<exists>s. cstring mem = Some s) \<longleftrightarrow> NUL \<in> set mem"
  by (induction mem) auto

lemma cstring_None_iff: "cstring mem = None \<longleftrightarrow> NUL \<notin> set mem"
  by (induction mem) auto

lemma cstring_prefix: "cstring mem = Some s \<Longrightarrow> \<exists>r. mem = s @ NUL # r \<and> NUL \<notin> set s"
  by (induction mem arbitrary: s) (auto split: if_splits)

section \<open>\<open>sscanf\<close>\<close>

definition isspace :: "byte \<Rightarrow> bool" where
  "isspace c \<longleftrightarrow> c \<in> {CHR '' '', CHR 0x09, CHR 0x0A, CHR 0x0B, CHR 0x0C, CHR 0x0D}"

definition isdigit :: "byte \<Rightarrow> bool" where
  "isdigit c \<longleftrightarrow> 48 \<le> (of_char c :: nat) \<and> (of_char c :: nat) \<le> 57"

definition digit_value :: "byte \<Rightarrow> nat" where
  "digit_value c = of_char c - 48"

definition decimal_value :: "byte list \<Rightarrow> nat" where
  "decimal_value ds = foldl (\<lambda>n c. 10 * n + digit_value c) 0 ds"

text \<open>
  \<open>strtoul\<close> in base 10 on the digits and the sign, then the conversion to \<open>unsigned int\<close>:
  a value beyond \<open>unsigned long\<close> gives \<open>ULONG_MAX\<close>, a sign negates modulo \<open>2 ^ 64\<close>, and
  the upper half is dropped.
\<close>

definition strtoul :: "bool \<Rightarrow> byte list \<Rightarrow> 64 word" where
  "strtoul negative ds =
     (if decimal_value ds \<ge> 2 ^ 64 then - 1
      else if negative then - of_nat (decimal_value ds) else of_nat (decimal_value ds))"

definition take_sign :: "byte list \<Rightarrow> bool \<times> byte list" where
  "take_sign s = (case s of
     c # cs \<Rightarrow> if c = CHR ''-'' then (True, cs) else if c = CHR ''+'' then (False, cs) else (False, s)
   | [] \<Rightarrow> (False, []))"

text \<open>\<open>%u\<close>: white space, an optional sign, at least one digit.\<close>

definition scan_unsigned :: "byte list \<Rightarrow> (u32 \<times> byte list) option" where
  "scan_unsigned s =
     (let (negative, s) = take_sign (dropWhile isspace s);
          ds = takeWhile isdigit s in
      if ds = [] then None else Some (ucast (strtoul negative ds), dropWhile isdigit s))"

datatype directive = Literal byte | WhiteSpace | Unsigned

text \<open>The directives of a format string that has no conversion but \<open>%u\<close>.\<close>

fun directives :: "byte list \<Rightarrow> directive list" where
  "directives [] = []"
| "directives (c # cs) =
     (if c = CHR ''%'' \<and> cs \<noteq> [] \<and> hd cs = CHR ''u'' then Unsigned # directives (tl cs)
      else if isspace c then WhiteSpace # directives cs
      else Literal c # directives cs)"

text \<open>The values assigned before the first directive that does not match.\<close>

fun scan :: "directive list \<Rightarrow> byte list \<Rightarrow> u32 list" where
  "scan [] s = []"
| "scan (Literal c # ds) s = (case s of x # xs \<Rightarrow> if x = c then scan ds xs else [] | [] \<Rightarrow> [])"
| "scan (WhiteSpace # ds) s = scan ds (dropWhile isspace s)"
| "scan (Unsigned # ds) s = (case scan_unsigned s of None \<Rightarrow> [] | Some (v, r) \<Rightarrow> v # scan ds r)"

section \<open>\<open>FindSeek\<close>\<close>

definition AESD_SOCKET_IOC_STRING :: "byte list" where
  "AESD_SOCKET_IOC_STRING = ''AESDCHAR_IOCSEEKTO''"

definition seek_format :: "byte list" where
  "seek_format = AESD_SOCKET_IOC_STRING @ '':%u,%u'' @ [NL]"

text \<open>
  \<open>mem\<close> is the memory from \<open>bufferPtr\<close> to the end of its array. \<open>Some\<close> is a true result
  with both fields of \<open>seekOut\<close> assigned.
\<close>

definition FindSeek :: "byte list \<Rightarrow> aesd_seekto option res" where
  "FindSeek mem = (case cstring mem of
     None \<Rightarrow> Inl OutOfBounds
   | Some s \<Rightarrow> (case scan (directives seek_format) s of
        [cmd, offs] \<Rightarrow> Inr (Some \<lparr>write_cmd = cmd, write_cmd_offset = offs\<rparr>)
      | _ \<Rightarrow> Inr None))"

section \<open>Printing and scanning\<close>

text \<open>The decimal numeral of a number, as a client prints it.\<close>

fun decimal :: "nat \<Rightarrow> byte list" where
  "decimal n = (if n < 10 then [char_of (48 + n)] else decimal (n div 10) @ [char_of (48 + n mod 10)])"

declare decimal.simps [simp del]

lemma digit_char:
  assumes "n < 10"
  shows "isdigit (char_of (48 + n))" "digit_value (char_of (48 + n)) = n"
  using assms by (simp_all add: isdigit_def digit_value_def of_char_of)

lemma decimal_digits: "\<forall>c \<in> set (decimal n). isdigit c"
  by (induction n rule: decimal.induct) (subst decimal.simps, auto simp: digit_char)

lemma decimal_nonempty: "decimal n \<noteq> []"
  by (subst decimal.simps) simp

lemma decimal_value_snoc: "decimal_value (ds @ [c]) = 10 * decimal_value ds + digit_value c"
  by (simp add: decimal_value_def)

lemma decimal_value_decimal: "decimal_value (decimal n) = n"
proof (induction n rule: decimal.induct)
  case (1 n)
  show ?case
  proof (cases "n < 10")
    case True
    then show ?thesis
      by (subst decimal.simps) (simp add: decimal_value_def digit_char)
  next
    case False
    then show ?thesis
      using 1 by (subst decimal.simps) (simp add: decimal_value_snoc digit_char)
  qed
qed

lemma digit_facts: "isdigit c \<Longrightarrow> \<not> isspace c \<and> c \<noteq> CHR ''-'' \<and> c \<noteq> CHR ''+'' \<and> c \<noteq> NUL"
  by (auto simp: isdigit_def isspace_def)

lemma scan_unsigned_decimal_gen:
  assumes "n < 2 ^ 32" "r = [] \<or> \<not> isdigit (hd r)"
  shows "scan_unsigned (decimal n @ r) = Some (of_nat n, r)"
proof -
  obtain d ds where dec: "decimal n = d # ds" using decimal_nonempty [of n] by (cases "decimal n") auto
  have d: "isdigit d" using decimal_digits [of n] dec by simp
  have tw: "takeWhile isdigit (decimal n @ r) = decimal n" "dropWhile isdigit (decimal n @ r) = r"
    using decimal_digits [of n] assms(2) by (cases r; simp add: takeWhile_append2 dropWhile_append2)+
  have "dropWhile isspace (decimal n @ r) = decimal n @ r"
    using digit_facts [OF d] by (simp add: dec)
  moreover have "take_sign (decimal n @ r) = (False, decimal n @ r)"
    using digit_facts [OF d] by (simp add: dec take_sign_def)
  moreover have "ucast (strtoul False (decimal n)) = (of_nat n :: u32)"
    using assms(1)
    by (simp add: strtoul_def decimal_value_decimal unsigned_of_nat take_bit_nat_eq_self)
  ultimately show ?thesis
    using tw decimal_nonempty [of n] by (simp add: scan_unsigned_def)
qed

lemma scan_unsigned_decimal:
  "n < 2 ^ 32 \<Longrightarrow> \<not> isdigit c \<Longrightarrow> scan_unsigned (decimal n @ c # r) = Some (of_nat n, c # r)"
  by (simp add: scan_unsigned_decimal_gen)

lemma scan_unsigned_decimal_end: "n < 2 ^ 32 \<Longrightarrow> scan_unsigned (decimal n) = Some (of_nat n, [])"
  using scan_unsigned_decimal_gen [of n "[]"] by simp

lemma directives_seek:
  "directives seek_format =
     map Literal (AESD_SOCKET_IOC_STRING @ '':'') @ [Unsigned, Literal (CHR '',''), Unsigned, WhiteSpace]"
  by (simp add: seek_format_def AESD_SOCKET_IOC_STRING_def isspace_def)

lemma scan_literals: "scan (map Literal xs @ ds) (xs @ s) = scan ds s"
  by (induction xs) auto

lemma scan_literals_mismatch: "take (length xs) s \<noteq> xs \<Longrightarrow> scan (map Literal xs @ ds) s = []"
  by (induction xs arbitrary: s) (auto split: list.splits)

text \<open>The command as a client sends it.\<close>

definition seek_line :: "u32 \<Rightarrow> u32 \<Rightarrow> byte list" where
  "seek_line cmd offs =
     AESD_SOCKET_IOC_STRING @ '':'' @ decimal (unat cmd) @ '','' @ decimal (unat offs) @ [NL]"

lemma no_NUL_digits: "NUL \<notin> set (decimal n)"
  using decimal_digits [of n] digit_facts by blast

lemma no_NUL_seek_line: "NUL \<notin> set (seek_line cmd offs)"
  by (simp add: seek_line_def AESD_SOCKET_IOC_STRING_def no_NUL_digits)

lemma scan_seek_line:
  "scan (directives seek_format) (seek_line cmd offs @ r) = [cmd, offs]"
proof -
  have "\<not> isdigit (CHR '','')" "\<not> isdigit NL" by (simp_all add: isdigit_def)
  moreover have "unat cmd < 2 ^ 32" "unat offs < 2 ^ 32"
    using unat_less_32 by simp_all
  ultimately show ?thesis
    unfolding directives_seek seek_line_def
    using scan_literals [of "AESD_SOCKET_IOC_STRING @ '':''" _ _]
    by (simp add: scan_unsigned_decimal del: decimal.simps)
qed

lemma FindSeek_seek_line:
  assumes "NUL \<in> set r"
  shows "FindSeek (seek_line cmd offs @ r) = Inr (Some \<lparr>write_cmd = cmd, write_cmd_offset = offs\<rparr>)"
proof -
  obtain s where "cstring r = Some s" using assms cstring_Some_iff by blast
  then show ?thesis
    by (simp add: FindSeek_def cstring_append no_NUL_seek_line scan_seek_line)
qed

lemma FindSeek_other:
  assumes "NUL \<in> set mem"
    and "take (length (AESD_SOCKET_IOC_STRING @ '':'')) mem \<noteq> AESD_SOCKET_IOC_STRING @ '':''"
  shows "FindSeek mem = Inr None"
proof -
  obtain s where s: "cstring mem = Some s" using assms cstring_Some_iff by blast
  then obtain r where r: "mem = s @ NUL # r" using cstring_prefix by blast
  let ?p = "AESD_SOCKET_IOC_STRING @ '':''"
  have "take (length ?p) s \<noteq> ?p"
  proof
    assume eq: "take (length ?p) s = ?p"
    then have "length ?p \<le> length s" by (metis length_take min.cobounded1 min_def order_refl)
    with eq assms(2) r show False by simp
  qed
  then have "scan (directives seek_format) s = []"
    unfolding directives_seek by (rule scan_literals_mismatch)
  with s show ?thesis by (simp add: FindSeek_def)
qed

lemma dropWhile_spaces: "\<forall>c \<in> set ws. isspace c \<Longrightarrow> dropWhile isspace (ws @ s) = dropWhile isspace s"
  by (induction ws) auto

lemma scan_unsigned_spaces:
  assumes "\<forall>c \<in> set ws. isspace c"
  shows "scan_unsigned (ws @ s) = scan_unsigned s"
  unfolding scan_unsigned_def dropWhile_spaces [OF assms] ..

lemma isspace_NUL: "\<not> isspace NUL"
  by (simp add: isspace_def)

lemma no_NUL_spaces: "\<forall>c \<in> set ws. isspace c \<Longrightarrow> NUL \<notin> set ws"
  using isspace_NUL by blast

lemma digit_chars: "char_of (49 :: nat) = CHR ''1''" "char_of (50 :: nat) = CHR ''2''"
  by (simp_all add: char_of_def bit_iff_odd)

section \<open>Properties\<close>

text \<open>
  C29. Every pair of 32-bit numbers printed as a seek command is recognised with exactly
  those numbers. The recognition is lax: white space, line ends included, may stand before
  each number, and anything that is not a digit may follow, up to the end of the string;
  so \<open>AESDCHAR_IOCSEEKTO:1,2xyz\<close> is a command, and a command may continue on later lines.
\<close>

theorem FindSeek_recognises:
  assumes "\<forall>c \<in> set ws1. isspace c" and "\<forall>c \<in> set ws2. isspace c"
    and "\<not> isdigit c" and "NUL \<in> set (c # r)"
  shows "FindSeek (AESD_SOCKET_IOC_STRING @ '':'' @ ws1 @ decimal (unat cmd) @ '','' @ ws2
       @ decimal (unat offs) @ c # r) = Inr (Some \<lparr>write_cmd = cmd, write_cmd_offset = offs\<rparr>)"
proof -
  let ?front = "AESD_SOCKET_IOC_STRING @ '':'' @ ws1 @ decimal (unat cmd) @ '','' @ ws2 @ decimal (unat offs)"
  obtain s where s: "cstring (c # r) = Some s" using assms(4) cstring_Some_iff by blast
  have "NUL \<notin> set ?front"
    using no_NUL_spaces [OF assms(1)] no_NUL_spaces [OF assms(2)]
    by (simp add: AESD_SOCKET_IOC_STRING_def no_NUL_digits)
  then have cs: "cstring (?front @ c # r) = Some (?front @ s)"
    using cstring_append [of ?front "c # r"] unfolding s option.map by (elim meta_mp)
  have small: "unat cmd < 2 ^ 32" "unat offs < 2 ^ 32" using unat_less_32 by simp_all
  have comma: "\<not> isdigit (CHR '','')" by (simp add: isdigit_def)
  have last: "\<exists>rest. scan_unsigned (decimal (unat offs) @ s) = Some (offs, rest)"
  proof (cases s)
    case Nil
    have "scan_unsigned (decimal (unat offs)) = Some (offs, [])"
      using scan_unsigned_decimal_end [OF small(2)] by simp
    with Nil show ?thesis by simp
  next
    case (Cons d ds)
    then have "d = c" using s by (auto split: if_splits)
    with Cons scan_unsigned_decimal [OF small(2) assms(3), of ds] show ?thesis by simp
  qed
  then have "scan (directives seek_format) (?front @ s) = [cmd, offs]"
    unfolding directives_seek
    using scan_literals [of "AESD_SOCKET_IOC_STRING @ '':''" _ _]
    by (auto simp: scan_unsigned_spaces assms(1,2) scan_unsigned_decimal [OF small(1) comma])
  with cs show ?thesis by (simp add: FindSeek_def)
qed

theorem FindSeek_recognises_witness:
  "FindSeek (''AESDCHAR_IOCSEEKTO:1,2xyz'' @ [NL, NUL])
     = Inr (Some \<lparr>write_cmd = 1, write_cmd_offset = 2\<rparr>)"
  using FindSeek_recognises [of "[]" "[]" "CHR ''x''" "''yz'' @ [NL, NUL]" 1 2]
  by (simp add: AESD_SOCKET_IOC_STRING_def isdigit_def decimal.simps digit_chars)

end
