(* ===== verification/Handler.thy ===== *)
theory Handler
  imports Seek_Command
begin

text \<open>
  The thread that serves one connection: \<open>ProcessBuffer\<close> and \<open>ConnectionHandlerThread\<close> of
  \<open>server/connectionHandlerThread.c\<close>. The file it works on is given by its operations
  (\<open>file_ops\<close>), which are the driver's in \<open>Device_File\<close>; what arrives on the connection,
  and when, is a list of events.
\<close>

section \<open>The environment of the thread\<close>

text \<open>
  The system calls on the target file, on a state \<open>'f\<close> that holds the open file and what is
  behind it. \<open>f_read\<close> also returns the bytes it stored; \<open>f_map\<close> stands for \<open>fstat\<close> and
  \<open>mmap\<close> and returns the content of the file.
\<close>

record 'f file_ops =
  f_open :: "'f \<Rightarrow> (cint \<times> 'f) res"
  f_close :: "cint \<Rightarrow> 'f \<Rightarrow> 'f res"
  f_write :: "cint \<Rightarrow> byte list \<Rightarrow> 'f \<Rightarrow> (ssize_t \<times> 'f) res"
  f_ioctl :: "cint \<Rightarrow> aesd_seekto \<Rightarrow> 'f \<Rightarrow> (cint \<times> 'f) res"
  f_read :: "cint \<Rightarrow> size_t \<Rightarrow> 'f \<Rightarrow> (ssize_t \<times> byte list \<times> 'f) res"
  f_map :: "cint \<Rightarrow> 'f \<Rightarrow> byte list"

text \<open>
  What the thread shares with the rest of the process: the file, the mutex around it, and
  what has been handed to \<open>send\<close>, with the descriptor (its result is not looked at), and
  the descriptors closed so far.
\<close>

record 'f world =
  target :: 'f
  FileMutex :: bool
  sends :: "(cint \<times> byte list) list"
  closed :: "cint list"

section \<open>\<open>ProcessBuffer\<close>\<close>

text \<open>The loop that reads the file to its end and sends what it reads.\<close>

partial_function (option) echo_loop ::
    "'f file_ops \<Rightarrow> cint \<Rightarrow> cint \<Rightarrow> 'f world \<Rightarrow> 'f world call" where
  "echo_loop ops fileFD connectionFD w =
     bindO (Some (f_read ops fileFD 4096 (target w))) (\<lambda>r.
       if 0 <s fst r
       then echo_loop ops fileFD connectionFD
              (w\<lparr>target := snd (snd r),
                 sends := sends w @ [(connectionFD, take (unat (fst r)) (fst (snd r)))]\<rparr>)
       else Some (Inr (w\<lparr>target := snd (snd r)\<rparr>)))"

text \<open>
  One line, at the start of \<open>seg\<close>, the memory from \<open>segmentPtr\<close> to the end of the array. The
  log message and \<open>FindSeek\<close> read it as a string. \<open>int written\<close> is compared with a
  \<open>size_t\<close>, so it is sign-extended. \<open>use_dev\<close> is the build option \<open>USE_AESD_CHAR_DEVICE\<close>.
\<close>

definition answer :: "bool \<Rightarrow> 'f file_ops \<Rightarrow> cint \<Rightarrow> cint \<Rightarrow> 'f world \<Rightarrow> 'f world call" where
  "answer use_dev ops fileFD connectionFD w =
     (if use_dev then echo_loop ops fileFD connectionFD w
      else if connectionFD = 0 then Some (Inr w)
      else Some (Inr (w\<lparr>sends := sends w @ [(connectionFD, f_map ops fileFD (target w))]\<rparr>)))"

definition store_or_seek ::
    "'f file_ops \<Rightarrow> byte list \<Rightarrow> nat \<Rightarrow> cint \<Rightarrow> 'f world \<Rightarrow> 'f world res" where
  "store_or_seek ops seg segmentLen fileFD w =
     bindR (FindSeek seg) (\<lambda>seek.
       case seek of
         Some st \<Rightarrow> bindR (f_ioctl ops fileFD st (target w)) (\<lambda>(_, f). Inr (w\<lparr>target := f\<rparr>))
       | None \<Rightarrow>
           bindR (f_write ops fileFD (take segmentLen seg) (target w)) (\<lambda>(r, f).
             (let written = ucast r :: cint in
              if scast written \<noteq> (of_nat segmentLen :: size_t) then Inl (Exit (- 1))
              else Inr (w\<lparr>target := f\<rparr>))))"

definition process_segment ::
    "bool \<Rightarrow> 'f file_ops \<Rightarrow> byte list \<Rightarrow> nat \<Rightarrow> cint \<Rightarrow> cint \<Rightarrow> 'f world \<Rightarrow> 'f world call" where
  "process_segment use_dev ops seg segmentLen fileFD connectionFD w =
     (if FileMutex w then Some (Inl SelfDeadlock)
      else
        bindO (Some (store_or_seek ops seg segmentLen fileFD (w\<lparr>FileMutex := True\<rparr>))) (\<lambda>w.
          bindO (answer use_dev ops fileFD connectionFD w) (\<lambda>w.
            Some (Inr (w\<lparr>FileMutex := False\<rparr>)))))"

text \<open>The loop over the buffer returns the final \<open>segmentPtr\<close> (as an index) and \<open>segmentLen\<close>.\<close>

function process_loop ::
    "bool \<Rightarrow> 'f file_ops \<Rightarrow> byte list \<Rightarrow> nat \<Rightarrow> cint \<Rightarrow> cint \<Rightarrow> nat \<Rightarrow> nat \<Rightarrow> nat \<Rightarrow> 'f world
      \<Rightarrow> (nat \<times> nat \<times> 'f world) call" where
  "process_loop use_dev ops buf bufferLen fileFD connectionFD rd segmentPtr segmentLen w =
     (if rd < bufferLen then
        (if \<not> rd < length buf then Some (Inl OutOfBounds)
         else if buf ! rd = NL then
           bindO (process_segment use_dev ops (drop segmentPtr buf) (Suc segmentLen) fileFD connectionFD w)
             (process_loop use_dev ops buf bufferLen fileFD connectionFD (Suc rd)
                (segmentPtr + Suc segmentLen) 0)
         else process_loop use_dev ops buf bufferLen fileFD connectionFD (Suc rd)
                segmentPtr (Suc segmentLen) w)
      else Some (Inr (segmentPtr, segmentLen, w)))"
  by pat_completeness auto
termination
  by (relation "measure (\<lambda>(_, _, _, bufferLen, _, _, rd, _). bufferLen - rd)") auto

declare process_loop.simps [simp del]

text \<open>\<open>memcpy\<close> to the start of an array.\<close>

definition copy_to :: "byte list \<Rightarrow> byte list \<Rightarrow> byte list res" where
  "copy_to dst src = (if length src \<le> length dst then Inr (src @ drop (length src) dst)
                      else Inl OutOfBounds)"

text \<open>Returns the new contents of \<open>residualPtr\<close> and of \<open>residualSize\<close>.\<close>

definition ProcessBuffer ::
    "bool \<Rightarrow> 'f file_ops \<Rightarrow> byte list \<Rightarrow> nat \<Rightarrow> cint \<Rightarrow> cint \<Rightarrow> byte list \<Rightarrow> 'f world
      \<Rightarrow> (byte list \<times> nat \<times> 'f world) call" where
  "ProcessBuffer use_dev ops buf bufferLen fileFD connectionFD residual w =
     bindO (process_loop use_dev ops buf bufferLen fileFD connectionFD 0 0 0 w)
       (\<lambda>(segmentPtr, segmentLen, w).
         bindO (Some (if segmentLen \<noteq> 0 then copy_to residual (take segmentLen (drop segmentPtr buf))
                      else Inr residual))
           (\<lambda>residual. Some (Inr (residual, segmentLen, w))))"

section \<open>\<open>ConnectionHandlerThread\<close>\<close>

text \<open>
  The local variables, and what the peer has still to send. Both arrays have 400 bytes.
\<close>

record handler =
  buffer :: "byte list"
  residual :: "byte list"
  residualSize :: nat
  lastCall :: bool
  peer_input :: "byte list"

text \<open>
  What a call of \<open>recv\<close> meets: up to \<open>n\<close> bytes are there (0, or no more input: the peer has
  closed), the three seconds pass, or the connection is broken. \<open>recv\<close> with a length of 0
  returns 0. With each event comes the value of \<open>closeRequested\<close> at that time.
\<close>

datatype recv_event = Arrives nat | TimesOut | Breaks

definition received :: "nat \<Rightarrow> handler \<Rightarrow> byte list" where
  "received n h = take (min n (400 - residualSize h)) (peer_input h)"

datatype thread_status = Waiting | Finished

definition handler_chunk ::
    "bool \<Rightarrow> 'f file_ops \<Rightarrow> cint \<Rightarrow> nat \<Rightarrow> handler \<times> 'f world \<Rightarrow> (handler \<times> 'f world) call" where
  "handler_chunk use_dev ops connectionFD n = (\<lambda>(h, w).
     bindO (Some (copy_to (buffer h) (received n h))) (\<lambda>buf.
       bindO (Some (f_open ops (target w))) (\<lambda>(fileFD, f).
         bindO (ProcessBuffer use_dev ops buf (length (received n h) + residualSize h)
                  fileFD connectionFD (residual h) (w\<lparr>target := f\<rparr>)) (\<lambda>(res, rsize, w).
           bindO (Some (f_close ops fileFD (target w))) (\<lambda>f.
             bindO (Some (if 0 < rsize then copy_to res (take rsize buf) else Inr res)) (\<lambda>res.
               Some (Inr (h\<lparr>buffer := buf, residual := res, residualSize := rsize,
                            peer_input := drop (length (received n h)) (peer_input h)\<rparr>,
                          w\<lparr>target := f\<rparr>))))))))"

fun handler_loop ::
    "bool \<Rightarrow> 'f file_ops \<Rightarrow> cint \<Rightarrow> (recv_event \<times> bool) list \<Rightarrow> handler \<times> 'f world
      \<Rightarrow> (thread_status \<times> handler \<times> 'f world) call" where
  "handler_loop use_dev ops connectionFD [] hw = Some (Inr (Waiting, hw))"
| "handler_loop use_dev ops connectionFD ((ev, closeRequested) # evs) hw =
     (let (h, w) = hw;
          finished = Some (Inr (Finished, h, w\<lparr>closed := closed w @ [connectionFD]\<rparr>)) in
      case ev of
        Breaks \<Rightarrow> finished
      | TimesOut \<Rightarrow>
          handler_loop use_dev ops connectionFD evs
            (if closeRequested then (h\<lparr>lastCall := True\<rparr>, w) else (h, w))
      | Arrives n \<Rightarrow>
          if received n h = [] then finished
          else
            bindO (handler_chunk use_dev ops connectionFD n (h, w)) (\<lambda>(h, w).
              if lastCall h
              then Some (Inr (Finished, h, w\<lparr>closed := closed w @ [connectionFD]\<rparr>))
              else handler_loop use_dev ops connectionFD evs (h, w)))"

text \<open>
  The start of the thread: a connection whose peer is already gone ends the process. The
  arrays hold whatever the stack held.
\<close>

definition ConnectionHandlerThread ::
    "bool \<Rightarrow> 'f file_ops \<Rightarrow> cint \<Rightarrow> bool \<Rightarrow> byte list \<Rightarrow> byte list \<Rightarrow> byte list
      \<Rightarrow> (recv_event \<times> bool) list \<Rightarrow> 'f world \<Rightarrow> (thread_status \<times> handler \<times> 'f world) call" where
  "ConnectionHandlerThread use_dev ops connectionFD peer_known stack1 stack2 input evs w =
     (if \<not> peer_known then Some (Inl (Exit (- 1)))
      else handler_loop use_dev ops connectionFD evs
             (\<lparr>buffer = stack1, residual = stack2, residualSize = 0, lastCall = False,
               peer_input = input\<rparr>, w))"

section \<open>The loop over the buffer\<close>

text \<open>A complete line: it ends with a newline and has no other; it fits the buffer.\<close>

definition is_line :: "byte list \<Rightarrow> bool" where
  "is_line l \<longleftrightarrow> l \<noteq> [] \<and> last l = NL \<and> NL \<notin> set (butlast l) \<and> NUL \<notin> set l \<and> length l \<le> 400"

text \<open>Bytes that are not newlines only lengthen the segment.\<close>

lemma process_loop_skip:
  "NL \<notin> set xs \<Longrightarrow> buf = pre @ xs @ post \<Longrightarrow> length pre + length xs \<le> bufferLen \<Longrightarrow>
     process_loop use_dev ops buf bufferLen fd cfd (length pre) sp n w
       = process_loop use_dev ops buf bufferLen fd cfd (length pre + length xs) sp (n + length xs) w"
proof (induction xs arbitrary: pre n)
  case Nil
  then show ?case by simp
next
  case (Cons x xs)
  have "process_loop use_dev ops buf bufferLen fd cfd (length pre) sp n w
      = process_loop use_dev ops buf bufferLen fd cfd (length (pre @ [x])) sp (Suc n) w"
    using Cons.prems by (subst process_loop.simps) (auto simp: nth_append)
  also have "\<dots> = process_loop use_dev ops buf bufferLen fd cfd (length (pre @ [x]) + length xs) sp
      (Suc n + length xs) w"
    using Cons.prems by (intro Cons.IH) auto
  finally show ?case by simp
qed

text \<open>A complete line is handed to \<open>process_segment\<close> with all the memory after it.\<close>

lemma process_loop_line:
  assumes "is_line l" "buf = pre @ l @ post" "length pre + length l \<le> bufferLen"
  shows "process_loop use_dev ops buf bufferLen fd cfd (length pre) (length pre) 0 w
    = bindO (process_segment use_dev ops (l @ post) (length l) fd cfd w)
        (process_loop use_dev ops buf bufferLen fd cfd (length (pre @ l)) (length (pre @ l)) 0)"
proof -
  obtain xs where l: "l = xs @ [NL]" "NL \<notin> set xs"
    using assms(1) unfolding is_line_def by (metis append_butlast_last_id)
  have "process_loop use_dev ops buf bufferLen fd cfd (length pre) (length pre) 0 w
      = process_loop use_dev ops buf bufferLen fd cfd (length pre + length xs) (length pre) (length xs) w"
    using process_loop_skip [OF l(2), of buf pre "NL # post" bufferLen _ _ _ _ "length pre" 0] assms l by simp
  also have "\<dots> = bindO (process_segment use_dev ops (l @ post) (length l) fd cfd w)
      (process_loop use_dev ops buf bufferLen fd cfd (length (pre @ l)) (length (pre @ l)) 0)"
    using assms l by (subst process_loop.simps) (simp add: nth_append)
  finally show ?thesis .
qed

lemma process_loop_end:
  "bufferLen \<le> rd \<Longrightarrow> process_loop use_dev ops buf bufferLen fd cfd rd sp n w = Some (Inr (sp, n, w))"
  by (subst process_loop.simps) simp

lemma process_loop_one:
  assumes "is_line l" "process_segment use_dev ops (l @ post) (length l) fd cfd w = Some (Inr w')"
  shows "process_loop use_dev ops (l @ post) (length l) fd cfd 0 0 0 w = Some (Inr (length l, 0, w'))"
  using process_loop_line [OF assms(1), of "l @ post" "[]" post "length l" use_dev ops fd cfd w] assms(2)
  by (simp add: process_loop_end)

text \<open>A line that does not start like a seek command is not taken for one.\<close>

definition plain :: "byte list \<Rightarrow> bool" where
  "plain l \<longleftrightarrow> is_line l \<and> take (length (AESD_SOCKET_IOC_STRING @ '':'')) l \<noteq> AESD_SOCKET_IOC_STRING @ '':''"

lemma plain_not_seek:
  assumes "plain l" "NUL \<in> set post"
  shows "FindSeek (l @ post) = Inr None"
proof (rule FindSeek_other)
  let ?p = "AESD_SOCKET_IOC_STRING @ '':''"
  have p: "NL \<notin> set ?p" by (simp add: AESD_SOCKET_IOC_STRING_def)
  show "take (length ?p) (l @ post) \<noteq> ?p"
  proof
    assume eq: "take (length ?p) (l @ post) = ?p"
    show False
    proof (cases "length ?p \<le> length l")
      case True
      with eq assms(1) show False by (simp add: plain_def)
    next
      case False
      then have "set l \<subseteq> set ?p" using eq by (metis nat_le_linear set_append Un_upper1 take_append take_all)
      moreover have "NL \<in> set l" using assms(1) unfolding plain_def is_line_def by (metis last_in_set)
      ultimately show False using p by blast
    qed
  qed
qed (use assms in simp)

lemma is_line_seek_line:
  assumes "length (seek_line cmd offs) \<le> 400"
  shows "is_line (seek_line cmd offs)"
proof -
  have "\<not> isdigit NL" by (simp add: isdigit_def)
  then have "NL \<notin> set (decimal n)" for n using decimal_digits [of n] by blast
  then show ?thesis
    using assms no_NUL_seek_line [of cmd offs]
    by (simp add: is_line_def seek_line_def AESD_SOCKET_IOC_STRING_def butlast_append)
qed

lemma written_fits: "n \<le> 400 \<Longrightarrow> scast (ucast (of_nat n :: ssize_t) :: cint) = (of_nat n :: size_t)"
proof -
  assume n: "n \<le> 400"
  then have "unat (of_nat n :: ssize_t) = n" by (intro unat_of_nat_64) simp
  then have "unat (ucast (of_nat n :: ssize_t) :: cint) = n"
    using n by (simp add: unat_ucast_64_32)
  then have "sint (ucast (of_nat n :: ssize_t) :: cint) = int n"
    using n by (subst sint_eq_unat_32) simp_all
  then show ?thesis by (metis of_int_sint of_int_of_nat_eq)
qed

section \<open>What the thread needs of its file\<close>

text \<open>
  A file that stores lines and keeps the last ten. \<open>rep f ls fp sp\<close>: it is open, holds the
  lines \<open>ls\<close>, and the next read starts at the sum of the file's own position \<open>fp\<close> and the
  seek position \<open>sp\<close>. \<open>shut f ls\<close>: it is not open.
\<close>

locale line_file =
  fixes ops :: "'f file_ops"
    and rep :: "'f \<Rightarrow> byte list list \<Rightarrow> nat \<Rightarrow> nat \<Rightarrow> bool"
    and shut :: "'f \<Rightarrow> byte list list \<Rightarrow> bool"
  assumes open_law: "shut f ls \<Longrightarrow> \<exists>fd f'. f_open ops f = Inr (fd, f') \<and> rep f' ls 0 0"
    and close_law: "rep f ls fp sp \<Longrightarrow> \<exists>f'. f_close ops fd f = Inr f' \<and> shut f' ls"
    and write_law: "rep f ls fp sp \<Longrightarrow> is_line l \<Longrightarrow>
      \<exists>f'. f_write ops fd l f = Inr (of_nat (length l), f') \<and> rep f' (keep_last 10 (ls @ [l])) fp sp"
    and ioctl_law: "rep f ls fp sp \<Longrightarrow> unat (write_cmd st) < length ls \<Longrightarrow>
      unat (write_cmd_offset st) < length (ls ! unat (write_cmd st)) \<Longrightarrow>
      \<exists>f'. f_ioctl ops fd st f = Inr (0, f') \<and>
        rep f' ls fp (length (concat (take (unat (write_cmd st)) ls)) + unat (write_cmd_offset st))"
    and read_law: "rep f ls fp sp \<Longrightarrow> \<exists>bs f'. f_read ops fd 4096 f = Inr (of_nat (length bs), bs, f') \<and>
      rep f' ls (fp + length bs) sp \<and> length bs \<le> 4096 \<and>
      bs = take (length bs) (drop (fp + sp) (concat ls)) \<and> (bs = [] \<longleftrightarrow> length (concat ls) \<le> fp + sp)"
begin

text \<open>The read loop ends, and has sent everything from the position to the end.\<close>

lemma echo_sends_rest:
  "rep (target w) ls fp sp \<Longrightarrow>
     \<exists>w' chunks fp'. echo_loop ops fd connectionFD w = Some (Inr w') \<and>
       sends w' = sends w @ map (Pair connectionFD) chunks \<and>
       concat chunks = drop (fp + sp) (concat ls) \<and>
       rep (target w') ls fp' sp \<and> fp' = fp + length (concat chunks) \<and>
       FileMutex w' = FileMutex w \<and> closed w' = closed w"
proof (induction "length (concat ls) - (fp + sp)" arbitrary: w fp rule: less_induct)
  case less
  obtain bs f' where r: "f_read ops fd 4096 (target w) = Inr (of_nat (length bs), bs, f')"
    "rep f' ls (fp + length bs) sp" "length bs \<le> 4096"
    "bs = take (length bs) (drop (fp + sp) (concat ls))" "bs = [] \<longleftrightarrow> length (concat ls) \<le> fp + sp"
    using read_law [OF less.prems, of fd] by blast
  have small: "length bs < 2 ^ 63" using r(3) by simp
  show ?case
  proof (cases "bs = []")
    case True
    then have "echo_loop ops fd connectionFD w = Some (Inr (w\<lparr>target := f'\<rparr>))"
      using r(1) by (subst echo_loop.simps) simp
    with True r show ?thesis
      by (intro exI [of _ "w\<lparr>target := f'\<rparr>"] exI [of _ "[]"] exI [of _ fp]) simp
  next
    case False
    let ?w = "w\<lparr>target := f', sends := sends w @ [(connectionFD, bs)]\<rparr>"
    have un: "unat (of_nat (length bs) :: ssize_t) = length bs"
      using small by (intro unat_of_nat_64) simp
    then have pos: "0 <s (of_nat (length bs) :: ssize_t)"
      using False small by (simp add: word_sless_alt sint_eq_unat_64)
    have step: "echo_loop ops fd connectionFD w = echo_loop ops fd connectionFD ?w"
      using r(1) pos un by (subst echo_loop.simps) simp
    have "length (concat ls) - (fp + length bs + sp) < length (concat ls) - (fp + sp)"
      using False r(5) by (simp add: length_greater_0_conv [symmetric] del: length_greater_0_conv)
    from less.hyps [OF this, of ?w] r(2) obtain w' chunks fp' where w':
      "echo_loop ops fd connectionFD ?w = Some (Inr w')"
      "sends w' = sends w @ (connectionFD, bs) # map (Pair connectionFD) chunks"
      "concat chunks = drop (fp + length bs + sp) (concat ls)"
      "rep (target w') ls fp' sp" "fp' = fp + length bs + length (concat chunks)"
      "FileMutex w' = FileMutex w" "closed w' = closed w"
      by auto
    have "bs @ drop (fp + length bs + sp) (concat ls) = drop (fp + sp) (concat ls)"
      using r(4) append_take_drop_id [of "length bs" "drop (fp + sp) (concat ls)"]
      by (simp add: add.commute add.left_commute)
    then have "concat (bs # chunks) = drop (fp + sp) (concat ls)" using w'(3) by simp
    moreover have "fp' = fp + length (concat (bs # chunks))" using w'(5) by simp
    ultimately show ?thesis
      using step w'(1,2,4,6,7)
      by (intro exI [of _ w'] exI [of _ "bs # chunks"] exI [of _ fp'] conjI) simp_all
  qed
qed

lemma segment_plain:
  assumes "rep (target w) ls fp sp" "plain l" "NUL \<in> set post" "\<not> FileMutex w"
  shows "\<exists>w' chunks fp'. process_segment True ops (l @ post) (length l) fd cfd w = Some (Inr w') \<and>
    sends w' = sends w @ map (Pair cfd) chunks \<and>
    concat chunks = drop (fp + sp) (concat (keep_last 10 (ls @ [l]))) \<and>
    rep (target w') (keep_last 10 (ls @ [l])) fp' sp \<and> fp' = fp + length (concat chunks) \<and>
    \<not> FileMutex w' \<and> closed w' = closed w"
proof -
  have l: "is_line l" "length l \<le> 400" using assms(2) by (simp_all add: plain_def is_line_def)
  obtain f' where f': "f_write ops fd l (target w) = Inr (of_nat (length l), f')"
    "rep f' (keep_last 10 (ls @ [l])) fp sp"
    using write_law [OF assms(1) l(1)] by blast
  let ?w = "w\<lparr>FileMutex := True, target := f'\<rparr>"
  have "store_or_seek ops (l @ post) (length l) fd (w\<lparr>FileMutex := True\<rparr>) = Inr ?w"
    using f'(1) written_fits [OF l(2)]
    by (simp add: store_or_seek_def plain_not_seek [OF assms(2,3)])
  moreover obtain w' chunks fp' where "echo_loop ops fd cfd ?w = Some (Inr w')"
    "sends w' = sends w @ map (Pair cfd) chunks"
    "concat chunks = drop (fp + sp) (concat (keep_last 10 (ls @ [l])))"
    "rep (target w') (keep_last 10 (ls @ [l])) fp' sp" "fp' = fp + length (concat chunks)"
    "closed w' = closed w"
    using echo_sends_rest [of ?w "keep_last 10 (ls @ [l])" fp sp fd cfd] f'(2) by auto
  ultimately show ?thesis
    using assms(4)
    by (intro exI [of _ "w'\<lparr>FileMutex := False\<rparr>"] exI [of _ chunks] exI [of _ fp'])
       (simp add: process_segment_def answer_def)
qed

lemma segment_seek:
  assumes "rep (target w) ls fp sp" "NUL \<in> set post" "\<not> FileMutex w"
    and "unat cmd < length ls" "unat offs < length (ls ! unat cmd)"
  shows "\<exists>w' chunks fp' sp'. process_segment True ops (seek_line cmd offs @ post)
      (length (seek_line cmd offs)) fd cfd w = Some (Inr w') \<and>
    sends w' = sends w @ map (Pair cfd) chunks \<and>
    concat chunks = drop (fp + (length (concat (take (unat cmd) ls)) + unat offs)) (concat ls) \<and>
    rep (target w') ls fp' sp' \<and> \<not> FileMutex w' \<and> closed w' = closed w"
proof -
  let ?st = "\<lparr>write_cmd = cmd, write_cmd_offset = offs\<rparr>"
  let ?sp = "length (concat (take (unat cmd) ls)) + unat offs"
  obtain f' where f': "f_ioctl ops fd ?st (target w) = Inr (0, f')" "rep f' ls fp ?sp"
    using ioctl_law [OF assms(1), of ?st fd] assms(4,5) by auto
  let ?w = "w\<lparr>FileMutex := True, target := f'\<rparr>"
  have "store_or_seek ops (seek_line cmd offs @ post) (length (seek_line cmd offs)) fd
      (w\<lparr>FileMutex := True\<rparr>) = Inr ?w"
    using f'(1) by (simp add: store_or_seek_def FindSeek_seek_line [OF assms(2)])
  moreover obtain w' chunks fp' where "echo_loop ops fd cfd ?w = Some (Inr w')"
    "sends w' = sends w @ map (Pair cfd) chunks"
    "concat chunks = drop (fp + ?sp) (concat ls)"
    "rep (target w') ls fp' ?sp" "closed w' = closed w"
    using echo_sends_rest [of ?w ls fp ?sp fd cfd] f'(2) by auto
  ultimately show ?thesis
    using assms(3)
    by (intro exI [of _ "w'\<lparr>FileMutex := False\<rparr>"] exI [of _ chunks] exI [of _ fp'] exI [of _ ?sp])
       (simp add: process_segment_def answer_def)
qed

text \<open>
  A buffer of several lines: all are stored, and what is sent in answer continues where
  the answer to the line before stopped.
\<close>

lemma lines_loop:
  "rep (target w) ls fp 0 \<Longrightarrow> fp \<le> length (concat ls) \<Longrightarrow> \<not> FileMutex w \<Longrightarrow>
   buf = pre @ concat ks @ post \<Longrightarrow> NUL \<in> set post \<Longrightarrow> \<forall>k \<in> set ks. plain k \<Longrightarrow>
   length ls + length ks \<le> 10 \<Longrightarrow> bufferLen = length pre + length (concat ks) \<Longrightarrow>
   \<exists>w' chunks fp'. process_loop True ops buf bufferLen fd cfd (length pre) (length pre) 0 w
       = Some (Inr (bufferLen, 0, w')) \<and>
     sends w' = sends w @ map (Pair cfd) chunks \<and>
     concat chunks = (if ks = [] then [] else drop fp (concat (ls @ ks))) \<and>
     rep (target w') (ls @ ks) fp' 0 \<and> \<not> FileMutex w' \<and> closed w' = closed w"
proof (induction ks arbitrary: w ls fp pre)
  case Nil
  then show ?case
    by (intro exI [of _ w] exI [of _ "[]"] exI [of _ fp]) (simp add: process_loop_end)
next
  case (Cons k ks)
  have k: "plain k" "is_line k" using Cons.prems(6) by (simp_all add: plain_def)
  have small: "keep_last 10 (ls @ [k]) = ls @ [k]"
    using Cons.prems(7) by (intro keep_last_small) simp
  have post: "NUL \<in> set (concat ks @ post)" using Cons.prems(5) by simp
  obtain w1 chunks fp1 where w1:
    "process_segment True ops (k @ concat ks @ post) (length k) fd cfd w = Some (Inr w1)"
    "sends w1 = sends w @ map (Pair cfd) chunks" "concat chunks = drop fp (concat (ls @ [k]))"
    "rep (target w1) (ls @ [k]) fp1 0" "fp1 = fp + length (concat chunks)"
    "\<not> FileMutex w1" "closed w1 = closed w"
    using segment_plain [OF Cons.prems(1) k(1) post Cons.prems(3), of fd cfd] unfolding small by auto
  have fp1: "fp1 = length (concat (ls @ [k]))" using w1(3,5) Cons.prems(2) by simp
  obtain w2 chunks2 fp2 where w2:
    "process_loop True ops buf bufferLen fd cfd (length (pre @ k)) (length (pre @ k)) 0 w1
       = Some (Inr (bufferLen, 0, w2))"
    "sends w2 = sends w1 @ map (Pair cfd) chunks2"
    "concat chunks2 = (if ks = [] then [] else drop fp1 (concat ((ls @ [k]) @ ks)))"
    "rep (target w2) ((ls @ [k]) @ ks) fp2 0" "\<not> FileMutex w2" "closed w2 = closed w1"
    using Cons.IH [OF w1(4) _ w1(6), of "pre @ k"] Cons.prems(4-8) fp1 by auto
  have "process_loop True ops buf bufferLen fd cfd (length pre) (length pre) 0 w
      = Some (Inr (bufferLen, 0, w2))"
    using process_loop_line [OF k(2), of buf pre "concat ks @ post" bufferLen True ops fd cfd w]
      Cons.prems(4,8) w1(1) w2(1) by simp
  moreover have "concat (chunks @ chunks2) = drop fp (concat (ls @ k # ks))"
    using w1(3) w2(3) fp1 Cons.prems(2) by simp
  ultimately show ?case
    using w1 w2
    by (intro exI [of _ w2] exI [of _ "chunks @ chunks2"] exI [of _ fp2]) simp
qed

end

section \<open>One piece of input\<close>

definition after_chunk :: "handler \<Rightarrow> byte list \<Rightarrow> nat \<Rightarrow> handler" where
  "after_chunk h inp rsize =
     h\<lparr>buffer := inp @ drop (length inp) (buffer h), residualSize := rsize,
       peer_input := drop (length inp) (peer_input h)\<rparr>"

lemma received_fits: "length (buffer h) = 400 \<Longrightarrow> length (received n h) \<le> length (buffer h)"
  by (simp add: received_def)

lemma handler_chunk_clean:
  assumes "residualSize h = 0" "received n h = inp" "length (buffer h) = 400"
    and "f_open ops (target w) = Inr (fd, f)"
    and "process_loop use_dev ops (inp @ drop (length inp) (buffer h)) (length inp) fd cfd 0 0 0
        (w\<lparr>target := f\<rparr>) = Some (Inr (p, 0, w1))"
    and "f_close ops fd (target w1) = Inr f1"
  shows "handler_chunk use_dev ops cfd n (h, w) = Some (Inr (after_chunk h inp 0, w1\<lparr>target := f1\<rparr>))"
  using assms received_fits [OF assms(3), of n]
  by (simp add: handler_chunk_def copy_to_def ProcessBuffer_def after_chunk_def)

context line_file
begin

text \<open>Several lines in one piece, as long as none is evicted.\<close>

lemma chunk_lines:
  assumes "shut (target w) ls" "\<not> FileMutex w" "residualSize h = 0" "length (buffer h) = 400"
    and "received n h = concat ks" "ks \<noteq> []" "\<forall>k \<in> set ks. plain k" "length ls + length ks \<le> 10"
    and "NUL \<in> set (drop (length (concat ks)) (buffer h))"
  shows "\<exists>w' chunks. handler_chunk True ops cfd n (h, w) = Some (Inr (after_chunk h (concat ks) 0, w')) \<and>
    sends w' = sends w @ map (Pair cfd) chunks \<and> concat chunks = concat (ls @ ks) \<and>
    shut (target w') (ls @ ks) \<and> \<not> FileMutex w' \<and> closed w' = closed w"
proof -
  let ?buf = "concat ks @ drop (length (concat ks)) (buffer h)"
  obtain fd f where f: "f_open ops (target w) = Inr (fd, f)" "rep f ls 0 0"
    using open_law [OF assms(1)] by blast
  obtain w1 chunks fp where w1:
    "process_loop True ops ?buf (length (concat ks)) fd cfd 0 0 0 (w\<lparr>target := f\<rparr>)
       = Some (Inr (length (concat ks), 0, w1))"
    "sends w1 = sends w @ map (Pair cfd) chunks" "concat chunks = concat (ls @ ks)"
    "rep (target w1) (ls @ ks) fp 0" "\<not> FileMutex w1" "closed w1 = closed w"
    using lines_loop [of "w\<lparr>target := f\<rparr>" ls 0 ?buf "[]" ks _ "length (concat ks)" fd cfd] f(2) assms(2,6-9)
    by auto
  obtain f1 where "f_close ops fd (target w1) = Inr f1" "shut f1 (ls @ ks)"
    using close_law [OF w1(4)] by blast
  with handler_chunk_clean [OF assms(3,5,4) f(1) w1(1)] w1 show ?thesis
    by (intro exI [of _ "w1\<lparr>target := f1\<rparr>"] exI [of _ chunks]) simp
qed

text \<open>One line, evicting the oldest if there are ten.\<close>

lemma chunk_one:
  assumes "shut (target w) ls" "\<not> FileMutex w" "residualSize h = 0" "length (buffer h) = 400"
    and "received n h = k" "plain k" "NUL \<in> set (drop (length k) (buffer h))"
  shows "\<exists>w' chunks. handler_chunk True ops cfd n (h, w) = Some (Inr (after_chunk h k 0, w')) \<and>
    sends w' = sends w @ map (Pair cfd) chunks \<and> concat chunks = concat (keep_last 10 (ls @ [k])) \<and>
    shut (target w') (keep_last 10 (ls @ [k])) \<and> \<not> FileMutex w' \<and> closed w' = closed w"
proof -
  let ?post = "drop (length k) (buffer h)"
  obtain fd f where f: "f_open ops (target w) = Inr (fd, f)" "rep f ls 0 0"
    using open_law [OF assms(1)] by blast
  obtain w1 chunks fp where w1:
    "process_segment True ops (k @ ?post) (length k) fd cfd (w\<lparr>target := f\<rparr>) = Some (Inr w1)"
    "sends w1 = sends w @ map (Pair cfd) chunks" "concat chunks = concat (keep_last 10 (ls @ [k]))"
    "rep (target w1) (keep_last 10 (ls @ [k])) fp 0" "\<not> FileMutex w1" "closed w1 = closed w"
    using segment_plain [of "w\<lparr>target := f\<rparr>" ls 0 0 k ?post fd cfd] f(2) assms(2,6,7) by auto
  have "process_loop True ops (k @ ?post) (length k) fd cfd 0 0 0 (w\<lparr>target := f\<rparr>)
      = Some (Inr (length k, 0, w1))"
    using assms(6) w1(1) by (intro process_loop_one) (simp_all add: plain_def)
  moreover obtain f1 where "f_close ops fd (target w1) = Inr f1" "shut f1 (keep_last 10 (ls @ [k]))"
    using close_law [OF w1(4)] by blast
  ultimately show ?thesis
    using handler_chunk_clean [OF assms(3,5,4) f(1)] w1
    by (intro exI [of _ "w1\<lparr>target := f1\<rparr>"] exI [of _ chunks]) simp
qed

lemma chunk_seek:
  assumes "shut (target w) ls" "\<not> FileMutex w" "residualSize h = 0" "length (buffer h) = 400"
    and "received n h = seek_line cmd offs" "NUL \<in> set (drop (length (seek_line cmd offs)) (buffer h))"
    and "unat cmd < length ls" "unat offs < length (ls ! unat cmd)"
  shows "\<exists>w' chunks. handler_chunk True ops cfd n (h, w)
      = Some (Inr (after_chunk h (seek_line cmd offs) 0, w')) \<and>
    sends w' = sends w @ map (Pair cfd) chunks \<and>
    concat chunks = drop (length (concat (take (unat cmd) ls)) + unat offs) (concat ls) \<and>
    shut (target w') ls \<and> \<not> FileMutex w' \<and> closed w' = closed w"
proof -
  let ?k = "seek_line cmd offs"
  let ?post = "drop (length ?k) (buffer h)"
  have line: "is_line ?k"
    using received_fits [OF assms(4), of n] assms(4,5) by (intro is_line_seek_line) simp
  obtain fd f where f: "f_open ops (target w) = Inr (fd, f)" "rep f ls 0 0"
    using open_law [OF assms(1)] by blast
  obtain w1 chunks fp sp where w1:
    "process_segment True ops (?k @ ?post) (length ?k) fd cfd (w\<lparr>target := f\<rparr>) = Some (Inr w1)"
    "sends w1 = sends w @ map (Pair cfd) chunks"
    "concat chunks = drop (length (concat (take (unat cmd) ls)) + unat offs) (concat ls)"
    "rep (target w1) ls fp sp" "\<not> FileMutex w1" "closed w1 = closed w"
    using segment_seek [of "w\<lparr>target := f\<rparr>" ls 0 0 ?post cmd offs fd cfd] f(2) assms(2,6-8) by auto
  have "process_loop True ops (?k @ ?post) (length ?k) fd cfd 0 0 0 (w\<lparr>target := f\<rparr>)
      = Some (Inr (length ?k, 0, w1))"
    using w1(1) by (intro process_loop_one [OF line])
  moreover obtain f1 where "f_close ops fd (target w1) = Inr f1" "shut f1 ls"
    using close_law [OF w1(4)] by blast
  ultimately show ?thesis
    using handler_chunk_clean [OF assms(3,5,4) f(1)] w1
    by (intro exI [of _ "w1\<lparr>target := f1\<rparr>"] exI [of _ chunks]) simp
qed

end

section \<open>A session\<close>

text \<open>Lines that arrive one by one, each with one call of \<open>recv\<close>.\<close>

definition one_by_one :: "byte list list \<Rightarrow> (recv_event \<times> bool) list" where
  "one_by_one ks = map (\<lambda>k. (Arrives (length k), False)) ks"

text \<open>What a file of at most ten lines contains after each of the new lines.\<close>

fun contents_after :: "byte list list \<Rightarrow> byte list list \<Rightarrow> byte list list" where
  "contents_after ls [] = []"
| "contents_after ls (k # ks) =
     concat (keep_last 10 (ls @ [k])) # contents_after (keep_last 10 (ls @ [k])) ks"

text \<open>The thread between two calls of \<open>recv\<close>, with no bytes left over.\<close>

definition between_lines :: "nat \<Rightarrow> handler \<Rightarrow> bool" where
  "between_lines m h \<longleftrightarrow> residualSize h = 0 \<and> length (buffer h) = 400 \<and> \<not> lastCall h \<and>
     NUL \<in> set (drop m (buffer h))"

lemma between_lines_after:
  "between_lines m h \<Longrightarrow> length inp \<le> m \<Longrightarrow> between_lines m (after_chunk h inp 0)"
proof -
  assume h: "between_lines m h" and len: "length inp \<le> m"
  have "m < 400" using h unfolding between_lines_def by (metis drop_all empty_iff list.set(1) not_le)
  then have "drop m (inp @ drop (length inp) (buffer h)) = drop m (buffer h)" using len by simp
  with h len \<open>m < 400\<close> show ?thesis by (simp add: between_lines_def after_chunk_def)
qed

lemma NUL_before: "NUL \<in> set (drop m xs) \<Longrightarrow> k \<le> m \<Longrightarrow> NUL \<in> set (drop k xs)"
  by (meson set_drop_subset_set_drop subsetD)

lemma received_all:
  "residualSize h = 0 \<Longrightarrow> peer_input h = k @ rest \<Longrightarrow> length k \<le> 400 \<Longrightarrow> received (length k) h = k"
  by (simp add: received_def)

context line_file
begin

lemma session:
  "shut (target w) ls \<Longrightarrow> length ls \<le> 10 \<Longrightarrow> \<not> FileMutex w \<Longrightarrow> between_lines m h \<Longrightarrow>
   peer_input h = concat ks @ rest \<Longrightarrow> \<forall>k \<in> set ks. plain k \<and> length k \<le> m \<Longrightarrow>
   \<exists>h' w' chunks. handler_loop True ops cfd (one_by_one ks) (h, w) = Some (Inr (Waiting, h', w')) \<and>
     sends w' = sends w @ map (Pair cfd) chunks \<and> concat chunks = concat (contents_after ls ks) \<and>
     shut (target w') (keep_last 10 (ls @ ks)) \<and> between_lines m h' \<and> peer_input h' = rest \<and>
     \<not> FileMutex w' \<and> closed w' = closed w"
proof (induction ks arbitrary: ls h w)
  case Nil
  then show ?case
    by (intro exI [of _ h] exI [of _ w] exI [of _ "[]"]) (simp add: one_by_one_def keep_last_small)
next
  case (Cons k ks)
  have k: "plain k" "length k \<le> m" "length k \<le> 400" "k \<noteq> []"
    using Cons.prems(6) by (auto simp: plain_def is_line_def)
  have h: "residualSize h = 0" "length (buffer h) = 400" "\<not> lastCall h" "NUL \<in> set (drop m (buffer h))"
    using Cons.prems(4) by (simp_all add: between_lines_def)
  have rec: "received (length k) h = k"
    using Cons.prems(5) k(3) by (intro received_all [OF h(1)]) simp_all
  have nul: "NUL \<in> set (drop (length k) (buffer h))"
    using NUL_before [OF h(4) k(2)] .
  obtain w1 chunks1 where w1:
    "handler_chunk True ops cfd (length k) (h, w) = Some (Inr (after_chunk h k 0, w1))"
    "sends w1 = sends w @ map (Pair cfd) chunks1" "concat chunks1 = concat (keep_last 10 (ls @ [k]))"
    "shut (target w1) (keep_last 10 (ls @ [k]))" "\<not> FileMutex w1" "closed w1 = closed w"
    using chunk_one [OF Cons.prems(1,3) h(1,2) rec k(1) nul, of cfd] by blast
  let ?h = "after_chunk h k 0"
  have "peer_input ?h = concat ks @ rest" using Cons.prems(5) by (simp add: after_chunk_def)
  then obtain h' w' chunks where IH:
    "handler_loop True ops cfd (one_by_one ks) (?h, w1) = Some (Inr (Waiting, h', w'))"
    "sends w' = sends w1 @ map (Pair cfd) chunks"
    "concat chunks = concat (contents_after (keep_last 10 (ls @ [k])) ks)"
    "shut (target w') (keep_last 10 (keep_last 10 (ls @ [k]) @ ks))" "between_lines m h'"
    "peer_input h' = rest" "\<not> FileMutex w'" "closed w' = closed w1"
    using Cons.IH [OF w1(4) _ w1(5) between_lines_after [OF Cons.prems(4) k(2)]] Cons.prems(6) by auto
  have "handler_loop True ops cfd (one_by_one (k # ks)) (h, w) = Some (Inr (Waiting, h', w'))"
    using w1(1) IH(1) rec k(4) h(3) by (simp add: one_by_one_def after_chunk_def)
  moreover have "keep_last 10 (keep_last 10 (ls @ [k]) @ ks) = keep_last 10 (ls @ k # ks)"
    by (simp add: keep_last_append)
  ultimately show ?case
    using w1 IH
    by (intro exI [of _ h'] exI [of _ w'] exI [of _ "chunks1 @ chunks"] conjI) simp_all
qed

end

section \<open>Pieces that are not whole lines\<close>

text \<open>The thread after a piece that leaves \<open>rsize\<close> bytes over.\<close>

lemma copy_to_ok: "length src \<le> length dst \<Longrightarrow> \<exists>d. copy_to dst src = Inr d \<and> length d = length dst"
  by (simp add: copy_to_def)

lemma handler_chunk_result:
  assumes "length (buffer h) = 400" "length (residual h) = 400" "residualSize h \<le> 400"
    and "f_open ops (target w) = Inr (fd, f)" "received n h = inp"
    and "process_loop use_dev ops (inp @ drop (length inp) (buffer h)) (length inp + residualSize h)
        fd cfd 0 0 0 (w\<lparr>target := f\<rparr>) = Some (Inr (p, rsize, w1))"
    and "p + rsize \<le> 400" "f_close ops fd (target w1) = Inr f1"
  shows "\<exists>res. handler_chunk use_dev ops cfd n (h, w) = Some (Inr
      (after_chunk h inp rsize\<lparr>residual := res\<rparr>, w1\<lparr>target := f1\<rparr>)) \<and> length res = 400"
proof -
  let ?buf = "inp @ drop (length inp) (buffer h)"
  have fits: "length inp \<le> length (buffer h)" using received_fits [OF assms(1), of n] assms(5) by simp
  then have buf: "length ?buf = 400" using assms(1) by simp
  have le: "length (take rsize (drop p ?buf)) \<le> 400" "length (take rsize ?buf) \<le> 400"
    using buf by simp_all
  obtain res1 where res1: "length res1 = 400"
    "(if rsize \<noteq> 0 then copy_to (residual h) (take rsize (drop p ?buf)) else Inr (residual h)) = Inr res1"
    using copy_to_ok [of "take rsize (drop p ?buf)" "residual h"] le(1) assms(2) by (cases "rsize = 0") auto
  obtain res where res: "length res = 400"
    "(if 0 < rsize then copy_to res1 (take rsize ?buf) else Inr res1) = Inr res"
    using copy_to_ok [of "take rsize ?buf" res1] le(2) res1(1) by (cases "rsize = 0") auto
  have "ProcessBuffer use_dev ops ?buf (length inp + residualSize h) fd cfd (residual h) (w\<lparr>target := f\<rparr>)
      = Some (Inr (res1, rsize, w1))"
    unfolding ProcessBuffer_def assms(6) by (simp only: bindO_simps prod.case res1(2))
  then have "handler_chunk use_dev ops cfd n (h, w) = Some (Inr
      (after_chunk h inp rsize\<lparr>residual := res\<rparr>, w1\<lparr>target := f1\<rparr>))"
    using assms(4,5,8) fits res(2)
    by (simp add: handler_chunk_def copy_to_def [of "buffer h"] after_chunk_def del: take_append)
  with res(1) show ?thesis by blast
qed

lemma process_loop_no_newline:
  assumes "NL \<notin> set xs" "buf = xs @ post" "length xs = bufferLen"
  shows "process_loop use_dev ops buf bufferLen fd cfd 0 0 0 w = Some (Inr (0, bufferLen, w))"
  using process_loop_skip [OF assms(1), of buf "[]" post bufferLen use_dev ops fd cfd 0 0 w] assms(2,3)
  by (simp add: process_loop_end)

context line_file
begin

lemma piece_without_newline:
  assumes "shut (target w) ls" "length (buffer h) = 400" "length (residual h) = 400" "residualSize h = 0"
    and "received n h = xs" "NL \<notin> set xs"
  shows "\<exists>res f. handler_chunk use_dev ops cfd n (h, w) = Some (Inr
      (after_chunk h xs (length xs)\<lparr>residual := res\<rparr>, w\<lparr>target := f\<rparr>)) \<and>
    length res = 400 \<and> shut f ls"
proof -
  obtain fd f where f: "f_open ops (target w) = Inr (fd, f)" "rep f ls 0 0"
    using open_law [OF assms(1)] by blast
  obtain f1 where f1: "f_close ops fd f = Inr f1" "shut f1 ls"
    using close_law [OF f(2)] by blast
  have "length xs \<le> 400" using received_fits [OF assms(2), of n] assms(2,5) by simp
  moreover have "process_loop use_dev ops (xs @ drop (length xs) (buffer h)) (length xs + residualSize h)
      fd cfd 0 0 0 (w\<lparr>target := f\<rparr>) = Some (Inr (0, length xs, w\<lparr>target := f\<rparr>))"
    using process_loop_no_newline [OF assms(6) refl refl] assms(4) by simp
  ultimately show ?thesis
    using handler_chunk_result [OF assms(2,3) _ f(1) assms(5), of use_dev cfd 0 "length xs" "w\<lparr>target := f\<rparr>" f1]
      f1 assms(4) by auto
qed

text \<open>
  The rest of a line arrives after a first part: only the rest is stored. The bytes that
  follow it in the buffer, as many as the first part had, are taken for new input.
\<close>

lemma rest_of_line:
  assumes "shut (target w) ls" "\<not> FileMutex w" "length (buffer h) = 400" "length (residual h) = 400"
    and "received n h = ys" "plain ys" "length ys + residualSize h \<le> 400"
    and "drop (length ys) (buffer h) = zs @ post" "length zs = residualSize h" "NL \<notin> set zs"
    and "NUL \<in> set post"
  shows "\<exists>res w' chunks. handler_chunk True ops cfd n (h, w) = Some (Inr
      (after_chunk h ys (residualSize h)\<lparr>residual := res\<rparr>, w')) \<and>
    sends w' = sends w @ map (Pair cfd) chunks \<and> concat chunks = concat (keep_last 10 (ls @ [ys])) \<and>
    shut (target w') (keep_last 10 (ls @ [ys])) \<and> \<not> FileMutex w'"
proof -
  let ?r = "residualSize h"
  let ?buf = "ys @ drop (length ys) (buffer h)"
  have y: "is_line ys" using assms(6) by (simp add: plain_def)
  have nul: "NUL \<in> set (zs @ post)" using assms(11) by simp
  obtain fd f where f: "f_open ops (target w) = Inr (fd, f)" "rep f ls 0 0"
    using open_law [OF assms(1)] by blast
  obtain w1 chunks fp where w1:
    "process_segment True ops (ys @ zs @ post) (length ys) fd cfd (w\<lparr>target := f\<rparr>) = Some (Inr w1)"
    "sends w1 = sends w @ map (Pair cfd) chunks" "concat chunks = concat (keep_last 10 (ls @ [ys]))"
    "rep (target w1) (keep_last 10 (ls @ [ys])) fp 0" "\<not> FileMutex w1"
    using segment_plain [of "w\<lparr>target := f\<rparr>" ls 0 0 ys "zs @ post" fd cfd] f(2) assms(2,6) nul by auto
  have "process_loop True ops ?buf (length ys + ?r) fd cfd 0 0 0 (w\<lparr>target := f\<rparr>)
      = process_loop True ops ?buf (length ys + ?r) fd cfd (length ys) (length ys) 0 w1"
    using process_loop_line [OF y, of ?buf "[]" "zs @ post" "length ys + ?r" True ops fd cfd "w\<lparr>target := f\<rparr>"]
      w1(1) assms(8) by simp
  also have "\<dots> = Some (Inr (length ys, ?r, w1))"
    using process_loop_skip [OF assms(10), of ?buf ys post "length ys + ?r" True ops fd cfd "length ys" 0 w1]
      assms(8,9) by (simp add: process_loop_end)
  finally have loop: "process_loop True ops ?buf (length ys + ?r) fd cfd 0 0 0 (w\<lparr>target := f\<rparr>)
      = Some (Inr (length ys, ?r, w1))" .
  obtain f1 where f1: "f_close ops fd (target w1) = Inr f1" "shut f1 (keep_last 10 (ls @ [ys]))"
    using close_law [OF w1(4)] by blast
  have "?r \<le> 400" using assms(7) by simp
  from handler_chunk_result [OF assms(3,4) this f(1) assms(5) loop assms(7) f1(1)] f1(2) w1(2-5)
  show ?thesis
    by (elim exE conjE) (intro exI [of _ "w1\<lparr>target := f1\<rparr>"] exI [of _ chunks] exI conjI, assumption, simp_all)
qed

end

section \<open>Memory safety of the thread\<close>

text \<open>How a call may end: not at all, with a fault in \<open>E\<close>, or with a result in \<open>P\<close>.\<close>

definition ends_in :: "fault set \<Rightarrow> ('a \<Rightarrow> bool) \<Rightarrow> 'a call \<Rightarrow> bool" where
  "ends_in E P r \<longleftrightarrow> (case r of None \<Rightarrow> True | Some (Inl e) \<Rightarrow> e \<in> E | Some (Inr x) \<Rightarrow> P x)"

lemma ends_in_simps [simp]:
  "ends_in E P None" "ends_in E P (Some (Inl e)) = (e \<in> E)" "ends_in E P (Some (Inr x)) = P x"
  by (simp_all add: ends_in_def)

lemma ends_in_bind:
  "ends_in E Q m \<Longrightarrow> (\<And>x. m = Some (Inr x) \<Longrightarrow> Q x \<Longrightarrow> ends_in E P (f x)) \<Longrightarrow> ends_in E P (bindO m f)"
  by (cases m; cases "the m") auto

text \<open>File operations that always return, whatever they return.\<close>

definition ops_total :: "'f file_ops \<Rightarrow> bool" where
  "ops_total ops \<longleftrightarrow> (\<forall>f. \<exists>x. f_open ops f = Inr x) \<and> (\<forall>fd f. \<exists>x. f_close ops fd f = Inr x) \<and>
     (\<forall>fd b f. \<exists>x. f_write ops fd b f = Inr x) \<and> (\<forall>fd st f. \<exists>x. f_ioctl ops fd st f = Inr x) \<and>
     (\<forall>fd n f. \<exists>x. f_read ops fd n f = Inr x)"

lemma echo_loop_frees:
  assumes "ops_total ops"
  shows "ends_in E (\<lambda>w'. FileMutex w' = FileMutex w) (echo_loop ops fd cfd w)"
proof (cases "echo_loop ops fd cfd w")
  case (Some y)
  have "ops_total ops \<longrightarrow> (\<exists>w'. y = Inr w' \<and> FileMutex w' = FileMutex w)"
    using Some
  proof (induction rule: echo_loop.raw_induct [rotated, consumes 1])
    case (1 echo_loop ops fd cfd w y)
    show ?case
    proof
      assume "ops_total ops"
      then obtain r bs f where r: "f_read ops fd 4096 (target w) = Inr (r, bs, f)"
        unfolding ops_total_def by (metis prod_cases3)
      show "\<exists>w'. y = Inr w' \<and> FileMutex w' = FileMutex w"
        using 1(2) 1(1) \<open>ops_total ops\<close> by (fastforce simp: r split: if_splits)
    qed
  qed
  with assms Some show ?thesis by auto
qed simp

lemma FindSeek_returns: "NUL \<in> set mem \<Longrightarrow> \<exists>x. FindSeek mem = Inr x"
  using cstring_Some_iff [of mem] by (auto simp: FindSeek_def split: list.split)

lemma process_segment_safe:
  assumes "ops_total ops" "NUL \<in> set seg" "\<not> FileMutex w"
  shows "ends_in {Exit (- 1)} (\<lambda>w'. \<not> FileMutex w') (process_segment use_dev ops seg n fd cfd w)"
proof -
  obtain seek where seek: "FindSeek seg = Inr seek" using FindSeek_returns [OF assms(2)] by blast
  have first: "ends_in {Exit (- 1)} (\<lambda>w'. FileMutex w') (Some (store_or_seek ops seg n fd (w\<lparr>FileMutex := True\<rparr>)))"
  proof (cases seek)
    case None
    obtain r f where "f_write ops fd (take n seg) (target w) = Inr (r, f)"
      using assms(1) unfolding ops_total_def by (metis surj_pair)
    then show ?thesis by (simp add: store_or_seek_def seek None Let_def)
  next
    case (Some st)
    obtain r f where "f_ioctl ops fd st (target w) = Inr (r, f)"
      using assms(1) unfolding ops_total_def by (metis surj_pair)
    then show ?thesis by (simp add: store_or_seek_def seek Some)
  qed
  have ans: "ends_in {Exit (- 1)} (\<lambda>w'. True) (answer use_dev ops fd cfd w')" for w'
    using echo_loop_frees [OF assms(1), of "{Exit (- 1)}" w' fd cfd]
    by (cases "echo_loop ops fd cfd w'"; cases "the (echo_loop ops fd cfd w')") (auto simp: answer_def)
  have "ends_in {Exit (- 1)} (\<lambda>w'. \<not> FileMutex w')
      (bindO (Some (store_or_seek ops seg n fd (w\<lparr>FileMutex := True\<rparr>))) (\<lambda>w.
        bindO (answer use_dev ops fd cfd w) (\<lambda>w. Some (Inr (w\<lparr>FileMutex := False\<rparr>)))))"
    by (rule ends_in_bind [OF first], rule ends_in_bind [OF ans]) simp
  with assms(3) show ?thesis by (simp add: process_segment_def)
qed

lemma process_loop_safe:
  "ops_total ops \<Longrightarrow> \<not> FileMutex w \<Longrightarrow> bufferLen \<le> length buf \<Longrightarrow> buf \<noteq> [] \<Longrightarrow> last buf = NUL \<Longrightarrow>
   sp + n = rd \<Longrightarrow> rd \<le> bufferLen \<Longrightarrow>
     ends_in {Exit (- 1)} (\<lambda>(p, m, w'). p + m = bufferLen \<and> \<not> FileMutex w')
       (process_loop use_dev ops buf bufferLen fd cfd rd sp n w)"
proof (induction use_dev ops buf bufferLen fd cfd rd sp n w rule: process_loop.induct)
  case (1 use_dev ops buf bufferLen fd cfd rd sp n w)
  show ?case
  proof (cases "rd < bufferLen")
    case False
    with 1(3-) show ?thesis by (subst process_loop.simps) simp
  next
    case True
    then have rd: "rd < length buf" using 1(5) by simp
    show ?thesis
    proof (cases "buf ! rd = NL")
      case False
      with 1(2) [OF True _ False] 1(3-) rd True show ?thesis
        by (subst process_loop.simps) simp
    next
      case nl: True
      have "sp < length buf" using 1(8) rd by simp
      then have "NUL \<in> set (drop sp buf)" using 1(6,7) by (metis last_drop last_in_set drop_eq_Nil not_le)
      from process_segment_safe [OF 1(3) this 1(4), of use_dev "Suc n" fd cfd]
      have "ends_in {Exit (- 1)} (\<lambda>(p, m, w'). p + m = bufferLen \<and> \<not> FileMutex w')
          (bindO (process_segment use_dev ops (drop sp buf) (Suc n) fd cfd w)
            (process_loop use_dev ops buf bufferLen fd cfd (Suc rd) (sp + Suc n) 0))"
        using 1(1) [OF True _ nl] 1(3-) rd True by (intro ends_in_bind) auto
      with rd nl True show ?thesis by (subst process_loop.simps) simp
    qed
  qed
qed

text \<open>The invariant of the thread: the sizes of its arrays, and the end of its buffer untouched.\<close>

definition thread_inv :: "handler \<times> 'f world \<Rightarrow> bool" where
  "thread_inv = (\<lambda>(h, w). length (buffer h) = 400 \<and> length (residual h) = 400 \<and>
     residualSize h \<le> 400 \<and> last (buffer h) = NUL \<and> \<not> FileMutex w)"

lemma handler_chunk_safe:
  assumes "ops_total ops" "thread_inv (h, w)" "n \<le> 399"
  shows "ends_in {Exit (- 1)} (\<lambda>(h', w'). thread_inv (h', w') \<and> lastCall h' = lastCall h)
     (handler_chunk use_dev ops cfd n (h, w))"
proof -
  let ?inp = "received n h"
  let ?buf = "?inp @ drop (length ?inp) (buffer h)"
  have h: "length (buffer h) = 400" "length (residual h) = 400" "residualSize h \<le> 400"
    "last (buffer h) = NUL" "\<not> FileMutex w"
    using assms(2) by (simp_all add: thread_inv_def)
  have inp: "length ?inp \<le> 399" "length ?inp + residualSize h \<le> 400"
    using assms(3) h(3) by (simp_all add: received_def)
  have buf: "length ?buf = 400" "?buf \<noteq> []" using inp h(1) by auto
  have nul: "last ?buf = NUL" using inp h(1,4) by (simp add: last_drop)
  obtain fd f where f: "f_open ops (target w) = Inr (fd, f)"
    using assms(1) unfolding ops_total_def by (metis surj_pair)
  let ?loop = "process_loop use_dev ops ?buf (length ?inp + residualSize h) fd cfd 0 0 0 (w\<lparr>target := f\<rparr>)"
  have loop: "ends_in {Exit (- 1)} (\<lambda>(p, m, w'). p + m = length ?inp + residualSize h \<and> \<not> FileMutex w') ?loop"
    using inp(2) h(5) by (intro process_loop_safe [OF assms(1) _ _ buf(2) nul]) (simp_all add: buf(1) del: length_append)
  have eq: "handler_chunk use_dev ops cfd n (h, w) = bindO (ProcessBuffer use_dev ops ?buf
      (length ?inp + residualSize h) fd cfd (residual h) (w\<lparr>target := f\<rparr>)) (\<lambda>(res, rsize, w).
        bindO (Some (f_close ops fd (target w))) (\<lambda>f.
          bindO (Some (if 0 < rsize then copy_to res (take rsize ?buf) else Inr res)) (\<lambda>res.
            Some (Inr (h\<lparr>buffer := ?buf, residual := res, residualSize := rsize,
                         peer_input := drop (length ?inp) (peer_input h)\<rparr>, w\<lparr>target := f\<rparr>)))))"
    using inp(1) h(1) f by (simp add: handler_chunk_def copy_to_def [of "buffer h"] del: take_append)
  show ?thesis
  proof (cases ?loop)
    case None
    then show ?thesis unfolding eq ProcessBuffer_def by simp
  next
    case (Some r)
    show ?thesis
    proof (cases r)
      case (Inl e)
      with Some loop show ?thesis unfolding eq ProcessBuffer_def by simp
    next
      case (Inr x)
      obtain p m w1 where x: "x = (p, m, w1)" by (cases x)
      with Some Inr loop have pm: "p + m \<le> 400" "\<not> FileMutex w1" using inp(2) by simp_all
      obtain f1 where f1: "f_close ops fd (target w1) = Inr f1" using assms(1) unfolding ops_total_def by blast
      obtain res where "handler_chunk use_dev ops cfd n (h, w) = Some (Inr
          (after_chunk h ?inp m\<lparr>residual := res\<rparr>, w1\<lparr>target := f1\<rparr>))" "length res = 400"
        using handler_chunk_result [OF h(1-3) f refl _ pm(1) f1, where use_dev = use_dev and cfd = cfd] Some Inr x by blast
      then show ?thesis
        using pm buf(1) nul by (simp add: thread_inv_def after_chunk_def)
    qed
  qed
qed

lemma handler_loop_safe:
  "ops_total ops \<Longrightarrow> thread_inv hw \<Longrightarrow> \<forall>(ev, c) \<in> set evs. \<forall>n. ev = Arrives n \<longrightarrow> n \<le> 399 \<Longrightarrow>
     ends_in {Exit (- 1)} (\<lambda>(st, hw'). thread_inv hw') (handler_loop use_dev ops cfd evs hw)"
proof (induction evs arbitrary: hw)
  case Nil
  then show ?case by simp
next
  case (Cons e evs)
  obtain ev c where e: "e = (ev, c)" by (cases e)
  obtain h w where hw: "hw = (h, w)" by (cases hw)
  have fin: "thread_inv (h', w'\<lparr>closed := x\<rparr>) = thread_inv (h', w')" for h' w' x
    by (simp add: thread_inv_def)
  have call: "thread_inv (h\<lparr>lastCall := True\<rparr>, w) = thread_inv (h, w)" by (simp add: thread_inv_def)
  show ?case
  proof (cases ev)
    case (Arrives n)
    then have n: "n \<le> 399" using Cons.prems(3) e by auto
    show ?thesis
    proof (cases "received n h = []")
      case True
      with Cons.prems(2) show ?thesis by (simp add: e hw Arrives fin Let_def)
    next
      case False
      with handler_chunk_safe [OF Cons.prems(1) _ n, of h w use_dev cfd] Cons.prems show ?thesis
        by (auto simp: e hw Arrives Let_def fin intro!: ends_in_bind Cons.IH)
    qed
  qed (use Cons in \<open>simp_all add: e hw Let_def fin call\<close>)
qed

section \<open>Properties\<close>


text \<open>A file that swallows everything, for the witnesses.\<close>

definition null_file :: "unit file_ops" where
  "null_file = \<lparr>f_open = (\<lambda>f. Inr (3, f)), f_close = (\<lambda>_ f. Inr f),
     f_write = (\<lambda>_ b f. Inr (of_nat (length b), f)), f_ioctl = (\<lambda>_ _ f. Inr (0, f)),
     f_read = (\<lambda>_ _ f. Inr (0, [], f)), f_map = (\<lambda>_ _. [])\<rparr>"

definition null_world :: "unit world" where
  "null_world = \<lparr>target = (), FileMutex = False, sends = [], closed = []\<rparr>"

lemma null_file_total: "ops_total null_file"
  by (simp add: ops_total_def null_file_def)

lemma last_replicate_NUL: "last (replicate 400 NUL) = NUL"
  by (rule last_replicate) simp


text \<open>
  C36. Input that fills the buffer in one piece, without a NUL: if it has a newline, the log
  message and \<open>FindSeek\<close> read past the end of the buffer; if it has none, all 400 bytes
  count as left over, the next \<open>recv\<close> is asked for 0 bytes, and its result 0 is taken for
  the peer having closed: the connection is closed and nothing has been stored or sent.
\<close>

theorem full_buffer_is_mishandled:
  assumes "residualSize h = 0" and "length (buffer h) = 400" and "length (residual h) = 400"
    and "length (received n h) = 400" and "NUL \<notin> set (received n h)"
    and "\<not> FileMutex w" and "\<not> lastCall h"
    and "f_open ops (target w) = Inr (fd, f)" and "f_close ops fd f = Inr f1"
  shows "if NL \<in> set (received n h)
    then handler_loop use_dev ops cfd ((Arrives n, c) # evs) (h, w) = Some (Inl OutOfBounds)
    else \<exists>h'. handler_loop use_dev ops cfd ((Arrives n, c) # (Arrives m, c') # evs) (h, w)
        = Some (Inr (Finished, h', w\<lparr>target := f1, closed := closed w @ [cfd]\<rparr>)) \<and>
      peer_input h' = drop 400 (peer_input h)"
proof -
  let ?inp = "received n h"
  have ne: "?inp \<noteq> []" using assms(4) by auto
  show ?thesis
  proof (cases "NL \<in> set ?inp")
    case True
    then obtain xs ys where split: "?inp = xs @ NL # ys" "NL \<notin> set xs" by (meson split_list_first)
    have "process_loop use_dev ops ?inp 400 fd cfd 0 0 0 (w\<lparr>target := f\<rparr>)
        = process_loop use_dev ops ?inp 400 fd cfd (length xs) 0 (length xs) (w\<lparr>target := f\<rparr>)"
      using process_loop_skip [OF split(2), of ?inp "[]" "NL # ys" 400 use_dev ops fd cfd 0 0] split(1) assms(4)
      by simp
    also have "\<dots> = Some (Inl OutOfBounds)"
    proof -
      have "cstring ?inp = None" using assms(5) by (simp add: cstring_None_iff)
      then have "process_segment use_dev ops ?inp k fd cfd (w\<lparr>target := f\<rparr>) = Some (Inl OutOfBounds)" for k
        using assms(6) by (simp add: process_segment_def store_or_seek_def FindSeek_def)
      moreover have "length xs < 400" "?inp ! length xs = NL" using split(1) assms(4) by auto
      ultimately show ?thesis
        using assms(4) by (subst process_loop.simps) simp
    qed
    finally have "handler_chunk use_dev ops cfd n (h, w) = Some (Inl OutOfBounds)"
      using assms(1-4,8) by (simp add: handler_chunk_def copy_to_def ProcessBuffer_def)
    with True ne show ?thesis by simp
  next
    case False
    have "process_loop use_dev ops (?inp @ drop (length ?inp) (buffer h)) (length ?inp + residualSize h)
        fd cfd 0 0 0 (w\<lparr>target := f\<rparr>) = Some (Inr (0, 400, w\<lparr>target := f\<rparr>))"
      using process_loop_no_newline [OF False refl refl, of use_dev ops "drop (length ?inp) (buffer h)"] assms(1,4)
      by simp
    from handler_chunk_result [OF assms(2,3) _ assms(8) refl this] assms(1,9)
    obtain res where "handler_chunk use_dev ops cfd n (h, w)
        = Some (Inr (after_chunk h ?inp 400\<lparr>residual := res\<rparr>, w\<lparr>target := f1\<rparr>))" by auto
    moreover have "received m (after_chunk h ?inp 400\<lparr>residual := res\<rparr>) = []"
      by (simp add: received_def after_chunk_def)
    ultimately show ?thesis
      using False ne assms(4,7) by (simp add: after_chunk_def)
  qed
qed

definition zero_handler :: "byte list \<Rightarrow> handler" where
  "zero_handler input = \<lparr>buffer = replicate 400 NUL, residual = replicate 400 NUL, residualSize = 0,
     lastCall = False, peer_input = input\<rparr>"

theorem full_buffer_is_mishandled_witness:
  "\<exists>h'. handler_loop True null_file 4 [(Arrives 400, False), (Arrives 5, False)]
      (zero_handler (replicate 500 (CHR ''x'')), null_world)
    = Some (Inr (Finished, h', null_world\<lparr>closed := [4]\<rparr>)) \<and> length (peer_input h') = 100"
  using full_buffer_is_mishandled [of "zero_handler (replicate 500 (CHR ''x''))" 400 null_world null_file
      3 "()" "()" True 4 False "[]" 5 False]
  by (auto simp: zero_handler_def received_def null_world_def null_file_def)

text \<open>
  A request to shut down does not end the thread of an idle connection: however often
  its \<open>recv\<close> times out with the request set, it only notes the last call and goes on
  waiting; only after the next input has been processed does it end.
\<close>

theorem idle_connection_ignores_shutdown:
  "handler_loop use_dev ops cfd (replicate n (TimesOut, True)) (h, w)
     = Some (Inr (Waiting, h\<lparr>lastCall := lastCall h \<or> 0 < n\<rparr>, w))"
proof (induction n arbitrary: h)
  case 0
  then show ?case by simp
next
  case (Suc n)
  then show ?case by simp
qed

end
