(* ===== verification/Device_File.thy ===== *)
theory Device_File
  imports Device_Module Handler
begin

text \<open>
  The server on the driver: the file operations of \<open>Handler\<close> instantiated with the
  operations of the driver, through the system calls that lead to them. The file the
  server opens is \<open>/dev/aesdchar\<close>, the device of \<open>aesd-char-driver\<close>.
\<close>

section \<open>System calls on the device\<close>

text \<open>A negative result of the driver becomes \<open>-1\<close> in the process.\<close>

definition sys_result :: "ssize_t \<Rightarrow> ssize_t" where
  "sys_result r = (if r <s 0 then - 1 else r)"

definition driver_ops :: "kernel_env \<Rightarrow> (kstate \<times> struct_file) file_ops" where
  "driver_ops env = \<lparr>
     f_open = (\<lambda>(s, _). bindR (aesd_open fresh_file s) (\<lambda>(r, f, s).
       Inr (if r = 0 then 3 else - 1, (s, f)))),
     f_close = (\<lambda>_ (s, f). bindR (aesd_release f s) (\<lambda>(_, f, s). Inr (s, f))),
     f_write = (\<lambda>_ buf (s, f). bindR (aesd_write env f buf (of_nat (length buf)) s) (\<lambda>(r, s).
       Inr (sys_result r, (s, f)))),
     f_ioctl = (\<lambda>_ st (s, f).
       bindR (aesd_ioctl (env\<lparr>user_seekto := (\<lambda>_ _. Some st)\<rparr>) f AESDCHAR_IOCSEEKTO 0 s) (\<lambda>(r, s).
         Inr (ucast (sys_result r), (s, f)))),
     f_read = (\<lambda>_ n (s, f). bindR (aesd_read env f n s) (\<lambda>(r, bs, f, s).
       Inr (sys_result r, bs, (s, f)))),
     f_map = (\<lambda>_ _. [])\<rparr>"

text \<open>A kernel that answers every request in full; a line of the server fits an allocation.\<close>

definition smooth :: "kernel_env \<Rightarrow> bool" where
  "smooth env \<longleftrightarrow> env_ok env \<and> quiet env \<and> (\<forall>n k. not_copied env n k = 0) \<and>
     400 \<le> unat (KMALLOC_MAX_SIZE env)"

definition device_holds :: "kernel_env \<Rightarrow> kstate \<Rightarrow> byte list list \<Rightarrow> bool" where
  "device_holds env s ls \<longleftrightarrow> smooth env \<and> dev_inv env s \<and> idle s \<and> dev_lines s = ls \<and> dev_partial s = []"

fun device_open :: "kernel_env \<Rightarrow> kstate \<times> struct_file \<Rightarrow> byte list list \<Rightarrow> nat \<Rightarrow> nat \<Rightarrow> bool" where
  "device_open env (s, f) ls fp sp \<longleftrightarrow> device_holds env s ls \<and> private_data f \<noteq> None \<and>
     unat (f_pos f) = fp \<and> unat (lseekPos s) = sp \<and> fp < 2 ^ 32 \<and> sp < 2 ^ 32"

fun device_shut :: "kernel_env \<Rightarrow> kstate \<times> struct_file \<Rightarrow> byte list list \<Rightarrow> bool" where
  "device_shut env (s, f) ls \<longleftrightarrow> device_holds env s ls \<and> lseekPos s = 0"

lemma sys_result_small: "n < 2 ^ 63 \<Longrightarrow> sys_result (of_nat n) = of_nat n"
  by (simp add: sys_result_def word_sless_alt sint_eq_unat_64 unat_of_nat_64)

lemma dev_inv_user [simp]: "dev_inv (env\<lparr>user_seekto := u\<rparr>) s = dev_inv env s"
  by (simp add: dev_inv_def block_ok_def)

lemma env_ok_user [simp]: "env_ok (env\<lparr>user_seekto := u\<rparr>) = env_ok env"
  by (simp add: env_ok_def)

lemma split_lines_line: "NL \<notin> set xs \<Longrightarrow> split_lines cur (xs @ [NL]) = ([cur @ xs @ [NL]], [])"
  by (induction xs arbitrary: cur) auto

lemma device_read:
  assumes "device_open env (s, f) ls fp sp"
  shows "\<exists>bs sf'. f_read (driver_ops env) fd 4096 (s, f) = Inr (of_nat (length bs), bs, sf') \<and>
      device_open env sf' ls (fp + length bs) sp \<and> length bs \<le> 4096 \<and>
      bs = take (length bs) (drop (fp + sp) (concat ls)) \<and> (bs = [] \<longleftrightarrow> length (concat ls) \<le> fp + sp)"
proof -
  have h: "dev_inv env s" "idle s" "env_ok env" "private_data f \<noteq> None" "dev_lines s = ls"
    "\<not> lock_interrupted env (clock s)" "\<forall>n k. not_copied env n k = 0"
    "unat (f_pos f) = fp" "unat (lseekPos s) = sp" "fp < 2 ^ 32" "sp < 2 ^ 32"
    using assms by (simp_all add: device_holds_def smooth_def quiet_def)
  have pos: "unat (f_pos f + lseekPos s) = fp + sp"
    using h(8-11) by (subst unat_add_64) simp_all
  obtain bs s' where r: "aesd_read env f 4096 s
      = Inr (of_nat (length bs), bs, f\<lparr>f_pos := f_pos f + of_nat (length bs)\<rparr>, s')"
    "same_device env s s'" "length bs \<le> 4096"
    "bs = take (length bs) (drop (fp + sp) (concat ls))"
    "bs = [] \<longleftrightarrow> length (concat ls) \<le> fp + sp"
    using read_prefix [OF h(1-4,6), of 4096] h(5,7) unfolding pos by auto
  have total: "length (concat ls) < 2 ^ 31" using dev_lines_total [OF h(1,3)] h(5) by simp
  have "length bs \<le> length (drop (fp + sp) (concat ls))" using r(4) by (metis length_take min.cobounded1)
  then have fit: "fp + length bs < 2 ^ 32"
    using total h(10) by (cases "bs = []") auto
  have "unat (f_pos f + of_nat (length bs)) = fp + length bs"
    using r(3) h(8,10) by (subst unat_add_64) (simp_all add: unat_of_nat_64)
  then have "device_open env (s', f\<lparr>f_pos := f_pos f + of_nat (length bs)\<rparr>) ls (fp + length bs) sp"
    using r(2) assms fit by (simp add: same_device_def device_holds_def)
  moreover have "sys_result (of_nat (length bs)) = of_nat (length bs)"
    using r(3) by (intro sys_result_small) simp
  ultimately show ?thesis
    using r by (auto simp: driver_ops_def)
qed

lemma device_write:
  assumes "device_open env (s, f) ls fp sp" "is_line l"
  shows "\<exists>sf'. f_write (driver_ops env) fd l (s, f) = Inr (of_nat (length l), sf') \<and>
      device_open env sf' (keep_last 10 (ls @ [l])) fp sp"
proof -
  have h: "dev_inv env s" "idle s" "env_ok env" "quiet env" "private_data f \<noteq> None"
    "dev_lines s = ls" "dev_partial s = []" "400 \<le> unat (KMALLOC_MAX_SIZE env)"
    using assms by (simp_all add: device_holds_def smooth_def)
  have l: "length l \<le> 400" "unat (of_nat (length l) :: size_t) = length l"
    using assms(2) by (simp_all add: is_line_def unat_of_nat_64)
  obtain xs where xs: "l = xs @ [NL]" "NL \<notin> set xs"
    using assms(2) unfolding is_line_def by (metis append_butlast_last_id)
  have fits: "fits_stage env s (of_nat (length l))"
    using l h(8) length_dev_partial [OF h(1)] h(7) by (simp add: fits_stage_def)
  have split: "split_lines (dev_partial s) l = ([l], [])"
    using split_lines_line [OF xs(2), of "[]"] xs(1) h(7) by simp
  obtain s' where s': "aesd_write env f l (of_nat (length l)) s = Inr (of_nat (length l), s')"
    "dev_inv env s'" "idle s'" "lseekPos s' = lseekPos s"
    "dev_lines s' = keep_last 10 (ls @ [l])" "dev_partial s' = []"
    using aesd_write_lines [OF h(1-5) l(2) [symmetric] fits split] h(6) by auto
  have "sys_result (of_nat (length l)) = of_nat (length l)"
    using l(1) by (intro sys_result_small) simp
  with s' assms(1) show ?thesis
    by (auto simp: driver_ops_def device_holds_def)
qed

lemma device_ioctl:
  assumes "device_open env (s, f) ls fp sp" "unat (write_cmd st) < length ls"
    "unat (write_cmd_offset st) < length (ls ! unat (write_cmd st))"
  shows "\<exists>sf'. f_ioctl (driver_ops env) fd st (s, f) = Inr (0, sf') \<and>
     device_open env sf' ls fp (length (concat (take (unat (write_cmd st)) ls)) + unat (write_cmd_offset st))"
proof -
  let ?env = "env\<lparr>user_seekto := (\<lambda>_ _. Some st)\<rparr>"
  let ?c = "unat (write_cmd st)"
  have h: "dev_inv ?env s" "idle s" "env_ok ?env" "private_data f \<noteq> None" "dev_lines s = ls"
    "\<not> lock_interrupted ?env (Suc (clock s))" "user_seekto ?env (clock s) 0 = Some st"
    using assms(1) by (simp_all add: device_holds_def smooth_def quiet_def)
  have lim: "seek_limit s ?c = Some (length (ls ! ?c))"
    using assms(2) h(5) by (simp add: seek_limit_def)
  obtain s' where s': "aesd_ioctl ?env f AESDCHAR_IOCSEEKTO 0 s = Inr (0, s')"
    "dev_inv env s'" "idle s'" "dev_lines s' = ls" "dev_partial s' = dev_partial s"
    "unat (lseekPos s') = length (concat (take ?c ls)) + unat (write_cmd_offset st)"
    using seekto_spec [OF h(1-4,7,6)] lim assms(3) h(5) by auto
  have "length (concat (take ?c ls)) + unat (write_cmd_offset st) < 2 ^ 32"
  proof -
    have "concat ls = concat (take ?c ls) @ ls ! ?c @ concat (drop (Suc ?c) ls)"
      using assms(2) by (metis concat.simps(2) concat_append id_take_nth_drop)
    then have "length (concat (take ?c ls)) + unat (write_cmd_offset st) \<le> length (concat ls)"
      using assms(3) by simp
    then show ?thesis using dev_lines_total [of env s] h(1,3,5) by simp
  qed
  then have "device_open env (s', f) ls fp
      (length (concat (take ?c ls)) + unat (write_cmd_offset st))"
    using s'(2-6) assms(1) by (simp add: device_holds_def)
  moreover have "f_ioctl (driver_ops env) fd st (s, f) = Inr (0, (s', f))"
    by (simp add: driver_ops_def s'(1) sys_result_def)
  ultimately show ?thesis by blast
qed

interpretation driver: line_file "driver_ops env" "device_open env" "device_shut env" for env
proof unfold_locales
  fix f :: "kstate \<times> struct_file" and ls fp sp fd st l
  obtain s g where f: "f = (s, g)" by (cases f)
  show "\<exists>fd f'. f_open (driver_ops env) f = Inr (fd, f') \<and> device_open env f' ls 0 0"
    if "device_shut env f ls"
    using that f by (auto simp: driver_ops_def aesd_open_def fresh_file_def device_holds_def)
  show "\<exists>f'. f_close (driver_ops env) fd f = Inr f' \<and> device_shut env f' ls"
    if "device_open env f ls fp sp"
    using that f by (auto simp: driver_ops_def aesd_release_def device_holds_def idle_def)
  show "\<exists>f'. f_write (driver_ops env) fd l f = Inr (of_nat (length l), f') \<and>
      device_open env f' (keep_last 10 (ls @ [l])) fp sp"
    if "device_open env f ls fp sp" "is_line l"
    using device_write [OF that [unfolded f]] unfolding f .
  show "\<exists>f'. f_ioctl (driver_ops env) fd st f = Inr (0, f') \<and> device_open env f' ls fp
      (length (concat (take (unat (write_cmd st)) ls)) + unat (write_cmd_offset st))"
    if "device_open env f ls fp sp" "unat (write_cmd st) < length ls"
      "unat (write_cmd_offset st) < length (ls ! unat (write_cmd st))"
    using device_ioctl [OF that [unfolded f]] unfolding f .
  show "\<exists>bs f'. f_read (driver_ops env) fd 4096 f = Inr (of_nat (length bs), bs, f') \<and>
      device_open env f' ls (fp + length bs) sp \<and> length bs \<le> 4096 \<and>
      bs = take (length bs) (drop (fp + sp) (concat ls)) \<and> (bs = [] \<longleftrightarrow> length (concat ls) \<le> fp + sp)"
    if "device_open env f ls fp sp"
    using device_read [OF that [unfolded f]] unfolding f .
qed

section \<open>Properties\<close>

definition server_env :: kernel_env where
  "server_env = demo_env\<lparr>KMALLOC_MAX_SIZE := 4096\<rparr>"

definition server_world :: "(kstate \<times> struct_file) world" where
  "server_world = \<lparr>target = (start_state, fresh_file), FileMutex = False, sends = [], closed = []\<rparr>"

lemma server_env_smooth: "smooth server_env"
  by (simp add: smooth_def server_env_def env_ok_def quiet_def demo_env_def)

lemma server_world_facts:
  "device_shut server_env (target server_world) []" "\<not> FileMutex server_world"
  using start_state_inv start_state_facts
  by (simp_all add: server_world_def device_holds_def server_env_smooth)

lemma between_lines_zero: "m < 400 \<Longrightarrow> between_lines m (zero_handler input)"
  by (simp add: between_lines_def zero_handler_def)

text \<open>
  C1. The main service, end to end over the driver: lines that are not seek commands and
  arrive one per \<open>recv\<close> are each stored as an entry of the device, which keeps the last
  ten; after each line the peer is sent the whole content of the device at that moment,
  from its first byte; the thread then waits for more, with no byte left over.
\<close>

theorem session_stores_and_echoes:
  assumes "device_shut env (target w) ls" and "length ls \<le> 10" and "\<not> FileMutex w"
    and "between_lines m h" and "peer_input h = concat ks @ rest"
    and "\<forall>k \<in> set ks. plain k \<and> length k \<le> m"
  shows "\<exists>h' w' chunks. handler_loop True (driver_ops env) cfd (one_by_one ks) (h, w)
      = Some (Inr (Waiting, h', w')) \<and>
    sends w' = sends w @ map (Pair cfd) chunks \<and> concat chunks = concat (contents_after ls ks) \<and>
    device_shut env (target w') (keep_last 10 (ls @ ks)) \<and> between_lines m h' \<and>
    peer_input h' = rest \<and> \<not> FileMutex w'"
  using driver.session [OF assms, of cfd] by blast

definition demo_lines :: "byte list list" where
  "demo_lines = [[CHR ''a'', CHR ''b'', NL], [CHR ''c'', NL]]"

lemma demo_lines_plain: "\<forall>k \<in> set demo_lines. plain k \<and> length k \<le> 20"
  by (simp add: demo_lines_def plain_def is_line_def AESD_SOCKET_IOC_STRING_def)

theorem session_stores_and_echoes_witness:
  "\<exists>h' w' chunks. handler_loop True (driver_ops server_env) 4 (one_by_one demo_lines)
      (zero_handler (concat demo_lines), server_world) = Some (Inr (Waiting, h', w')) \<and>
    sends w' = map (Pair 4) chunks \<and>
    concat chunks = [CHR ''a'', CHR ''b'', NL, CHR ''a'', CHR ''b'', NL, CHR ''c'', NL] \<and>
    device_shut server_env (target w') demo_lines"
proof -
  have "peer_input (zero_handler (concat demo_lines)) = concat demo_lines @ []"
    by (simp add: zero_handler_def)
  from session_stores_and_echoes [OF server_world_facts(1) _ server_world_facts(2)
      between_lines_zero this demo_lines_plain, of 4]
  show ?thesis
    by (auto simp: server_world_def demo_lines_def keep_last_small)
qed

text \<open>
  Several lines that arrive in one piece are all stored, but the file is opened once
  for the piece, so each answer continues where the one before stopped: only the first
  line is answered with the whole content, and altogether the peer receives the final
  content exactly once (here without an eviction).
\<close>

theorem lines_in_one_piece:
  assumes "device_shut env (target w) ls" and "\<not> FileMutex w" and "between_lines m h"
    and "received n h = concat ks" and "ks \<noteq> []" and "\<forall>k \<in> set ks. plain k"
    and "length ls + length ks \<le> 10" and "length (concat ks) \<le> m"
  shows "\<exists>w' chunks. handler_loop True (driver_ops env) cfd [(Arrives n, False)] (h, w)
      = Some (Inr (Waiting, after_chunk h (concat ks) 0, w')) \<and>
    sends w' = sends w @ map (Pair cfd) chunks \<and> concat chunks = concat (ls @ ks) \<and>
    device_shut env (target w') (ls @ ks) \<and> \<not> FileMutex w'"
proof -
  have h: "residualSize h = 0" "length (buffer h) = 400" "\<not> lastCall h"
    "NUL \<in> set (drop (length (concat ks)) (buffer h))"
    using assms(3) NUL_before [OF _ assms(8)] by (simp_all add: between_lines_def)
  have ne: "concat ks \<noteq> []" using assms(5,6) by (cases ks) (auto simp: plain_def is_line_def)
  from driver.chunk_lines [OF assms(1,2) h(1,2) assms(4-7) h(4), of cfd]
  obtain w' chunks where "handler_chunk True (driver_ops env) cfd n (h, w)
      = Some (Inr (after_chunk h (concat ks) 0, w'))"
    "sends w' = sends w @ map (Pair cfd) chunks" "concat chunks = concat (ls @ ks)"
    "device_shut env (target w') (ls @ ks)" "\<not> FileMutex w'"
    by blast
  then show ?thesis
    using ne assms(4) h(3) by (simp add: after_chunk_def) blast
qed

theorem lines_in_one_piece_witness:
  "\<exists>w' chunks. handler_loop True (driver_ops server_env) 4 [(Arrives 100, False)]
      (zero_handler (concat demo_lines), server_world)
      = Some (Inr (Waiting, after_chunk (zero_handler (concat demo_lines)) (concat demo_lines) 0, w')) \<and>
    sends w' = map (Pair 4) chunks \<and> concat chunks = [CHR ''a'', CHR ''b'', NL, CHR ''c'', NL]"
proof -
  have "received 100 (zero_handler (concat demo_lines)) = concat demo_lines"
    by (simp add: received_def zero_handler_def demo_lines_def)
  from lines_in_one_piece [OF server_world_facts between_lines_zero this, of 20 4] demo_lines_plain
  show ?thesis by (auto simp: server_world_def demo_lines_def)
qed

lemma demo_served:
  obtains w :: "(kstate \<times> struct_file) world" where "device_shut server_env (target w) demo_lines" "\<not> FileMutex w"
proof -
  have h: "residualSize (zero_handler (concat demo_lines)) = 0"
    "length (buffer (zero_handler (concat demo_lines))) = 400"
    "received 100 (zero_handler (concat demo_lines)) = concat demo_lines" "demo_lines \<noteq> []"
    "\<forall>k \<in> set demo_lines. plain k" "length [] + length demo_lines \<le> 10"
    "NUL \<in> set (drop (length (concat demo_lines)) (buffer (zero_handler (concat demo_lines))))"
    using demo_lines_plain by (simp_all add: received_def zero_handler_def demo_lines_def)
  from driver.chunk_lines [OF server_world_facts h, of 4] show ?thesis
    unfolding append_Nil by (elim exE conjE) (rule that)
qed

text \<open>
  C26. A seek command over the connection, printed in decimal, with a command number and an
  offset inside a stored line: the device is not changed, and the peer is sent the content
  from exactly that byte of that line to the end.
\<close>

theorem seek_command_answers_from_position:
  assumes "device_shut env (target w) ls" and "\<not> FileMutex w" and "between_lines m h"
    and "received n h = seek_line cmd offs" and "length (seek_line cmd offs) \<le> m"
    and "unat cmd < length ls" and "unat offs < length (ls ! unat cmd)"
  shows "\<exists>w' chunks. handler_loop True (driver_ops env) cfd [(Arrives n, False)] (h, w)
      = Some (Inr (Waiting, after_chunk h (seek_line cmd offs) 0, w')) \<and>
    sends w' = sends w @ map (Pair cfd) chunks \<and>
    concat chunks = drop (unat offs) (ls ! unat cmd) @ concat (drop (Suc (unat cmd)) ls) \<and>
    device_shut env (target w') ls \<and> \<not> FileMutex w'"
proof -
  have h: "residualSize h = 0" "length (buffer h) = 400" "\<not> lastCall h"
    "NUL \<in> set (drop (length (seek_line cmd offs)) (buffer h))"
    using assms(3) NUL_before [OF _ assms(5)] by (simp_all add: between_lines_def)
  have "concat ls = concat (take (unat cmd) ls) @ ls ! unat cmd @ concat (drop (Suc (unat cmd)) ls)"
    using assms(6) by (metis concat.simps(2) concat_append id_take_nth_drop)
  then have rest: "drop (length (concat (take (unat cmd) ls)) + unat offs) (concat ls)
      = drop (unat offs) (ls ! unat cmd) @ concat (drop (Suc (unat cmd)) ls)"
    using assms(7) by simp
  from driver.chunk_seek [OF assms(1,2) h(1,2) assms(4) h(4) assms(6,7), of cfd]
  obtain w' chunks where "handler_chunk True (driver_ops env) cfd n (h, w)
      = Some (Inr (after_chunk h (seek_line cmd offs) 0, w'))"
    "sends w' = sends w @ map (Pair cfd) chunks"
    "concat chunks = drop (unat offs) (ls ! unat cmd) @ concat (drop (Suc (unat cmd)) ls)"
    "device_shut env (target w') ls" "\<not> FileMutex w'"
    unfolding rest by blast
  moreover have "seek_line cmd offs \<noteq> []" by (simp add: seek_line_def)
  ultimately show ?thesis
    using assms(4) h(3) by (simp add: after_chunk_def) blast
qed

theorem seek_command_answers_from_position_witness:
  "\<exists>w w' chunks. device_shut server_env (target w) demo_lines \<and>
    handler_loop True (driver_ops server_env) 4 [(Arrives 100, False)] (zero_handler (seek_line 0 1), w)
      = Some (Inr (Waiting, after_chunk (zero_handler (seek_line 0 1)) (seek_line 0 1) 0, w')) \<and>
    sends w' = sends w @ map (Pair 4) chunks \<and> concat chunks = [CHR ''b'', NL, CHR ''c'', NL]"
proof -
  have len: "length (seek_line 0 1) \<le> 40"
    by (simp add: seek_line_def AESD_SOCKET_IOC_STRING_def decimal.simps)
  obtain w :: "(kstate \<times> struct_file) world"
    where w: "device_shut server_env (target w) demo_lines" "\<not> FileMutex w"
    by (rule demo_served)
  have "received 100 (zero_handler (seek_line 0 1)) = seek_line 0 1"
    using len by (simp add: received_def zero_handler_def)
  moreover have "between_lines 40 (zero_handler (seek_line 0 1))" by (simp add: between_lines_zero)
  moreover have "unat (0 :: u32) < length demo_lines" "unat (1 :: u32) < length (demo_lines ! unat (0 :: u32))"
    by (simp_all add: demo_lines_def)
  ultimately obtain w' chunks where r:
    "handler_loop True (driver_ops server_env) 4 [(Arrives 100, False)] (zero_handler (seek_line 0 1), w)
      = Some (Inr (Waiting, after_chunk (zero_handler (seek_line 0 1)) (seek_line 0 1) 0, w'))"
    "sends w' = sends w @ map (Pair 4) chunks"
    "concat chunks = drop (unat (1 :: u32)) (demo_lines ! unat (0 :: u32))
       @ concat (drop (Suc (unat (0 :: u32))) demo_lines)"
    using seek_command_answers_from_position [OF w _ _ len, where n = 100 and cfd = 4] by blast
  have "concat chunks = [CHR ''b'', NL, CHR ''c'', NL]" using r(3) by (simp add: demo_lines_def)
  with r(1,2) w(1) show ?thesis by blast
qed

text \<open>
  C35. A line that arrives in two pieces is not put together: the first piece is kept in an
  array that is never looked at again, \<open>recv\<close> overwrites it in the buffer, and only the
  second piece becomes an entry and is answered. The thread also counts as many stale bytes
  as the first piece had for left-over input, though the peer sent nothing more.
\<close>

theorem split_line_loses_its_start:
  assumes "device_shut env (target w) ls" and "\<not> FileMutex w"
    and "peer_input h = xs @ ys" and "residualSize h = 0" and "\<not> lastCall h"
    and "buffer h = replicate 400 NUL" and "length (residual h) = 400"
    and "xs \<noteq> []" and "NL \<notin> set xs" and "plain ys" and "length xs + length ys < 400"
  shows "\<exists>h' w' chunks. handler_loop True (driver_ops env) cfd
      [(Arrives (length xs), False), (Arrives (length ys), False)] (h, w)
      = Some (Inr (Waiting, h', w')) \<and>
    device_shut env (target w') (keep_last 10 (ls @ [ys])) \<and>
    sends w' = sends w @ map (Pair cfd) chunks \<and> concat chunks = concat (keep_last 10 (ls @ [ys])) \<and>
    peer_input h' = [] \<and> residualSize h' = length xs"
proof -
  have len: "length (buffer h) = 400" using assms(6) by simp
  have rx: "received (length xs) h = xs" using assms(3,4,11) by (intro received_all) simp_all
  obtain res f where c1: "handler_chunk True (driver_ops env) cfd (length xs) (h, w)
      = Some (Inr (after_chunk h xs (length xs)\<lparr>residual := res\<rparr>, w\<lparr>target := f\<rparr>))"
    "length res = 400" "device_shut env f ls"
    using driver.piece_without_newline [OF assms(1) len assms(7,4) rx assms(9), of True cfd] by blast
  define g where "g = after_chunk h xs (length xs)\<lparr>residual := res\<rparr>"
  have g: "length (buffer g) = 400" "length (residual g) = 400" "residualSize g = length xs"
    "buffer g = xs @ replicate (400 - length xs) NUL" "peer_input g = ys" "\<not> lastCall g"
    using assms(3,5,6,11) c1(2) by (simp_all add: g_def after_chunk_def)
  have ry: "received (length ys) g = ys" using g(3,5) assms(11) by (simp add: received_def)
  define zs where "zs = take (length xs) (drop (length ys) (buffer g))"
  define post where "post = drop (length xs) (drop (length ys) (buffer g))"
  have split: "drop (length ys) (buffer g) = zs @ post" "length zs = residualSize g"
    by (simp only: zs_def post_def append_take_drop_id) (use g(1,3) assms(11) in \<open>simp add: zs_def\<close>)
  have "NL \<notin> set (buffer g)" using assms(9) unfolding g(4) by auto
  then have zs: "NL \<notin> set zs" unfolding zs_def by (meson in_set_dropD in_set_takeD)
  have post: "NUL \<in> set post"
    using assms(11) unfolding post_def g(4) by (simp add: drop_append)
  have w: "device_shut env (target (w\<lparr>target := f\<rparr>)) ls" "\<not> FileMutex (w\<lparr>target := f\<rparr>)"
    "length ys + residualSize g \<le> 400"
    using c1(3) assms(2,11) g(3) by simp_all
  obtain res2 w' chunks where c2: "handler_chunk True (driver_ops env) cfd (length ys) (g, w\<lparr>target := f\<rparr>)
      = Some (Inr (after_chunk g ys (residualSize g)\<lparr>residual := res2\<rparr>, w'))"
    "sends w' = sends (w\<lparr>target := f\<rparr>) @ map (Pair cfd) chunks"
    "concat chunks = concat (keep_last 10 (ls @ [ys]))"
    "device_shut env (target w') (keep_last 10 (ls @ [ys]))"
    using driver.rest_of_line [OF w(1,2) g(1,2) ry assms(10) w(3) split zs post, of cfd] by blast
  let ?h' = "after_chunk g ys (residualSize g)\<lparr>residual := res2\<rparr>"
  have h': "peer_input ?h' = []" "residualSize ?h' = length xs" "\<not> lastCall ?h'"
    using g(3,5,6) by (simp_all add: after_chunk_def)
  have "ys \<noteq> []" using assms(10) by (simp add: plain_def is_line_def)
  then have "handler_loop True (driver_ops env) cfd
      [(Arrives (length xs), False), (Arrives (length ys), False)] (h, w) = Some (Inr (Waiting, ?h', w'))"
    using c1(1) c2(1) rx ry assms(8) g(6) h'(3) by (simp add: g_def [symmetric])
  then show ?thesis using c2(2-4) h'(1,2) by auto
qed

theorem split_line_loses_its_start_witness:
  "\<exists>h' w'. handler_loop True (driver_ops server_env) 4
      [(Arrives (length ''xy''), False), (Arrives (length (''ab'' @ [NL])), False)]
      (zero_handler (''xy'' @ ''ab'' @ [NL]), server_world) = Some (Inr (Waiting, h', w')) \<and>
     device_shut server_env (target w') [''ab'' @ [NL]]"
proof -
  let ?h = "zero_handler (''xy'' @ ''ab'' @ [NL])"
  have h: "peer_input ?h = ''xy'' @ ''ab'' @ [NL]" "residualSize ?h = 0" "\<not> lastCall ?h"
    "buffer ?h = replicate 400 NUL" "length (residual ?h) = 400" "''xy'' \<noteq> []"
    "NL \<notin> set ''xy''" "plain (''ab'' @ [NL])" "length ''xy'' + length (''ab'' @ [NL]) < 400"
    by (simp_all add: zero_handler_def plain_def is_line_def AESD_SOCKET_IOC_STRING_def)
  have "keep_last 10 ([] @ [''ab'' @ [NL]]) = [''ab'' @ [NL]]" by (simp add: keep_last_small)
  with split_line_loses_its_start [OF server_world_facts h, of 4] show ?thesis by metis
qed

end
