(* ===== verification/Connection_List.thy ===== *)
theory Connection_List
  imports Prelude "HOL-Library.Multiset"
begin

text \<open>
  The list of connections of \<open>server/connectionlist.c\<close>: a singly linked list on the heap
  under a mutex. The heap of items is explicit, so that a dangling pointer, a freed item
  or a NULL result of \<open>malloc\<close> is visible. A loop that follows the links may not return
  (the list could be cyclic), so the operations are partial: \<open>None\<close> is a call that does
  not return, \<open>Some (Inl e)\<close> a fault, \<open>Some (Inr x)\<close> a result. \<open>represents\<close> is the
  abstraction to a list of connections.
\<close>

section \<open>Data\<close>

text \<open>\<open>pthread_t\<close> is a number.\<close>

type_synonym pthread_t = nat

record Connection =
  m_connectionFD :: cint
  m_thread :: pthread_t

record ConnectionListItem =
  m_connection :: Connection
  m_nextConnectionPtr :: ptr

datatype mutex = Unlocked | Locked | Destroyed

text \<open>
  The list together with the memory of its items and a log of the threads that have been
  joined, in order.
\<close>

record ConnectionList =
  m_mutex :: mutex
  m_head :: ptr
  items :: "nat \<rightharpoonup> ConnectionListItem"
  joined :: "pthread_t list"

text \<open>
  The default mutex: locking one that this thread holds never returns, which the model
  reports as a fault. \<open>pthread_mutex_destroy\<close> refuses a locked mutex (\<open>EBUSY\<close>).
\<close>

definition mutex_lock :: "ConnectionList \<Rightarrow> ConnectionList call" where
  "mutex_lock l = (case m_mutex l of
     Unlocked \<Rightarrow> Some (Inr (l\<lparr>m_mutex := Locked\<rparr>))
   | Locked \<Rightarrow> Some (Inl SelfDeadlock)
   | Destroyed \<Rightarrow> Some (Inl UseAfterFree))"

definition mutex_unlock :: "ConnectionList \<Rightarrow> ConnectionList" where
  "mutex_unlock l = l\<lparr>m_mutex := Unlocked\<rparr>"

definition mutex_destroy :: "ConnectionList \<Rightarrow> ConnectionList" where
  "mutex_destroy l = (if m_mutex l = Locked then l else l\<lparr>m_mutex := Destroyed\<rparr>)"

text \<open>Access to an item through a pointer.\<close>

definition item_at :: "ConnectionList \<Rightarrow> ptr \<Rightarrow> ConnectionListItem call" where
  "item_at l p = (case p of
     None \<Rightarrow> Some (Inl NullDeref)
   | Some a \<Rightarrow> (case items l a of None \<Rightarrow> Some (Inl UseAfterFree) | Some it \<Rightarrow> Some (Inr it)))"

definition set_next :: "ConnectionList \<Rightarrow> ptr \<Rightarrow> ptr \<Rightarrow> ConnectionList call" where
  "set_next l p q = bindO (item_at l p) (\<lambda>it.
     Some (Inr (l\<lparr>items := (items l)(the p \<mapsto> it\<lparr>m_nextConnectionPtr := q\<rparr>)\<rparr>)))"

section \<open>Operations\<close>

text \<open>
  The result is \<open>Some\<close> of the item and of the one before it (status 0), or \<open>None\<close>
  (status -1, with both output pointers left as they were).
\<close>

partial_function (option) find_connection_loop ::
    "ConnectionList \<Rightarrow> cint \<Rightarrow> ptr \<Rightarrow> ptr \<Rightarrow> (ptr \<times> ptr) option call" where
  "find_connection_loop l connectionFD next prev =
     (if next \<noteq> None then
        bindO (item_at l next) (\<lambda>it.
          if m_connectionFD (m_connection it) = connectionFD
          then Some (Inr (Some (next, prev)))
          else find_connection_loop l connectionFD (m_nextConnectionPtr it) next)
      else Some (Inr None))"

definition FindConnection_nolock :: "ConnectionList \<Rightarrow> cint \<Rightarrow> (ptr \<times> ptr) option call" where
  "FindConnection_nolock l connectionFD = find_connection_loop l connectionFD (m_head l) None"

partial_function (option) find_end_loop :: "ConnectionList \<Rightarrow> ptr \<Rightarrow> ptr call" where
  "find_end_loop l next =
     bindO (item_at l next) (\<lambda>it.
       if m_nextConnectionPtr it \<noteq> None then find_end_loop l (m_nextConnectionPtr it)
       else Some (Inr next))"

definition FindEnd_nolock :: "ConnectionList \<Rightarrow> ptr call" where
  "FindEnd_nolock l = (if m_head l = None then Some (Inr None) else find_end_loop l (m_head l))"

text \<open>
  \<open>new\<close> is what \<open>malloc\<close> returns: NULL, or a block that is not in use. Every field of it is
  written. The result points to the connection in the new item.
\<close>

definition AddConnection ::
    "ptr \<Rightarrow> cint \<Rightarrow> pthread_t \<Rightarrow> ConnectionList \<Rightarrow> (ptr \<times> ConnectionList) call" where
  "AddConnection new connectionFD thread l =
     bindO (mutex_lock l) (\<lambda>l.
       case new of
         None \<Rightarrow> Some (Inl NullDeref)
       | Some a \<Rightarrow>
           (let l = l\<lparr>items := (items l)(a \<mapsto>
                  \<lparr>m_connection = \<lparr>m_connectionFD = connectionFD, m_thread = thread\<rparr>,
                   m_nextConnectionPtr = None\<rparr>)\<rparr> in
            bindO (FindEnd_nolock l) (\<lambda>end_item.
              bindO (if end_item = None then Some (Inr (l\<lparr>m_head := new\<rparr>))
                     else set_next l end_item new) (\<lambda>l.
                Some (Inr (new, mutex_unlock l))))))"

definition join_and_free :: "ConnectionList \<Rightarrow> ptr \<Rightarrow> ConnectionList call" where
  "join_and_free l p = bindO (item_at l p) (\<lambda>it.
     Some (Inr (l\<lparr>joined := joined l @ [m_thread (m_connection it)],
                  items := (items l)(the p := None)\<rparr>)))"

definition CloseConnection :: "cint \<Rightarrow> ConnectionList \<Rightarrow> (cint \<times> ConnectionList) call" where
  "CloseConnection connectionFD l =
     bindO (mutex_lock l) (\<lambda>l.
       if m_head l = None then Some (Inr (1, l))
       else bindO (FindConnection_nolock l connectionFD) (\<lambda>found.
         case found of
           Some (next, prev) \<Rightarrow>
             bindO (item_at l next) (\<lambda>it.
               bindO (if prev = None then Some (Inr (l\<lparr>m_head := m_nextConnectionPtr it\<rparr>))
                      else set_next l prev (m_nextConnectionPtr it)) (\<lambda>l.
                 bindO (join_and_free l next) (\<lambda>l.
                   Some (Inr (0, mutex_unlock l)))))
         | None \<Rightarrow> Some (Inr (- 1, mutex_unlock l))))"

definition InitConnectionList :: "ConnectionList \<Rightarrow> ConnectionList" where
  "InitConnectionList l = l\<lparr>m_mutex := Unlocked, m_head := None\<rparr>"

partial_function (option) destroy_loop :: "ConnectionList \<Rightarrow> ptr \<Rightarrow> ConnectionList call" where
  "destroy_loop l next =
     (if next \<noteq> None then
        bindO (item_at l next) (\<lambda>tofree.
          bindO (CloseConnection (m_connectionFD (m_connection tofree)) l) (\<lambda>(_, l).
            destroy_loop l (m_nextConnectionPtr tofree)))
      else Some (Inr l))"

definition DestroyConnectionList :: "ConnectionList \<Rightarrow> ConnectionList call" where
  "DestroyConnectionList l = bindO (destroy_loop l (m_head l)) (\<lambda>l. Some (Inr (mutex_destroy l)))"

section \<open>Abstraction\<close>

text \<open>
  \<open>segment h p as q\<close>: following the links from \<open>p\<close> visits the items at \<open>as\<close>, in order,
  and arrives at \<open>q\<close>.
\<close>

primrec segment :: "(nat \<rightharpoonup> ConnectionListItem) \<Rightarrow> ptr \<Rightarrow> nat list \<Rightarrow> ptr \<Rightarrow> bool" where
  "segment h p [] q \<longleftrightarrow> p = q"
| "segment h p (a # as) q \<longleftrightarrow> p = Some a \<and>
     (case h a of None \<Rightarrow> False | Some it \<Rightarrow> segment h (m_nextConnectionPtr it) as q)"

definition conn_at :: "(nat \<rightharpoonup> ConnectionListItem) \<Rightarrow> nat \<Rightarrow> Connection" where
  "conn_at h a = m_connection (the (h a))"

definition linked :: "ConnectionList \<Rightarrow> nat list \<Rightarrow> bool" where
  "linked l as \<longleftrightarrow> segment (items l) (m_head l) as None \<and> distinct as \<and> set as = dom (items l)"

text \<open>The items in use are exactly those of the list, and \<open>cs\<close> is what they hold.\<close>

definition represents :: "ConnectionList \<Rightarrow> Connection list \<Rightarrow> bool" where
  "represents l cs \<longleftrightarrow> (\<exists>as. linked l as \<and> cs = map (conn_at (items l)) as)"

text \<open>The abstract list: closing removes the first connection with that descriptor.\<close>

definition has_fd :: "cint \<Rightarrow> Connection \<Rightarrow> bool" where
  "has_fd fd c \<longleftrightarrow> m_connectionFD c = fd"

fun remove_fd :: "cint \<Rightarrow> Connection list \<Rightarrow> Connection list" where
  "remove_fd fd [] = []"
| "remove_fd fd (c # cs) = (if has_fd fd c then cs else c # remove_fd fd cs)"

lemma remove_fd_append:
  "\<forall>c \<in> set xs. \<not> has_fd fd c \<Longrightarrow> has_fd fd c \<Longrightarrow> remove_fd fd (xs @ c # ys) = xs @ ys"
  by (induction xs) auto

lemma remove_fd_absent: "\<forall>c \<in> set cs. \<not> has_fd fd c \<Longrightarrow> remove_fd fd cs = cs"
  by (induction cs) auto

lemma remove_fd_None: "find (has_fd fd) cs = None \<Longrightarrow> remove_fd fd cs = cs"
  by (simp add: find_None_iff remove_fd_absent)

lemma find_fd_append:
  "\<forall>c \<in> set xs. \<not> has_fd fd c \<Longrightarrow> has_fd fd c \<Longrightarrow> find (has_fd fd) (xs @ c # ys) = Some c"
  by (induction xs) auto

lemma mset_remove_fd: "find (has_fd fd) cs = Some c \<Longrightarrow> mset cs = add_mset c (mset (remove_fd fd cs))"
  by (induction cs) (auto split: if_splits)

section \<open>Segments\<close>

lemma segment_append:
  "segment h p (xs @ ys) q \<longleftrightarrow> (\<exists>r. segment h p xs r \<and> segment h r ys q)"
  by (induction xs arbitrary: p) (auto split: option.split)

lemma segment_upd [simp]: "a \<notin> set xs \<Longrightarrow> segment (h(a := x)) p xs q = segment h p xs q"
  by (induction xs arbitrary: p) (auto split: option.split)

lemma segment_in_dom: "segment h p xs q \<Longrightarrow> set xs \<subseteq> dom h"
  by (induction xs arbitrary: p) (auto split: option.splits)

lemma segment_head: "segment h p xs None \<Longrightarrow> p = (if xs = [] then None else Some (hd xs))"
  by (cases xs) auto

lemma segment_None [simp]: "segment h None xs None \<longleftrightarrow> xs = []"
  by (cases xs) auto

lemma segment_last:
  "xs \<noteq> [] \<Longrightarrow> segment h p xs q \<Longrightarrow> \<exists>it. h (last xs) = Some it \<and> m_nextConnectionPtr it = q"
proof (induction xs arbitrary: p)
  case Nil
  then show ?case by simp
next
  case (Cons a xs)
  then show ?case by (cases "xs = []") (auto split: option.splits)
qed

text \<open>Redirecting the last link of a segment.\<close>

lemma segment_relink:
  "xs \<noteq> [] \<Longrightarrow> distinct xs \<Longrightarrow> segment h p xs q \<Longrightarrow> h (last xs) = Some it \<Longrightarrow>
     segment (h(last xs \<mapsto> it\<lparr>m_nextConnectionPtr := r\<rparr>)) p xs r"
proof (induction xs arbitrary: p)
  case Nil
  then show ?case by simp
next
  case (Cons a xs)
  then show ?case by (cases "xs = []") (auto split: option.splits)
qed

lemma conn_at_upd: "a \<notin> set xs \<Longrightarrow> map (conn_at (h(a := x))) xs = map (conn_at h) xs"
  by (simp add: conn_at_def)

lemma conn_at_relink:
  "h a = Some it \<Longrightarrow> conn_at (h(a \<mapsto> it\<lparr>m_nextConnectionPtr := r\<rparr>)) = conn_at h"
  by (auto simp: conn_at_def fun_eq_iff)

section \<open>The loops return\<close>

lemma find_connection_loop_absent:
  "segment (items l) p as None \<Longrightarrow> \<forall>a \<in> set as. \<not> has_fd fd (conn_at (items l) a) \<Longrightarrow>
     find_connection_loop l fd p prev = Some (Inr None)"
proof (induction as arbitrary: p prev)
  case Nil
  then show ?case by (simp add: find_connection_loop.simps)
next
  case (Cons a as)
  then show ?case
    by (subst find_connection_loop.simps)
       (auto simp: item_at_def conn_at_def has_fd_def split: option.splits)
qed

lemma find_connection_loop_found:
  "segment (items l) p (xs @ a # ys) None \<Longrightarrow>
     \<forall>x \<in> set xs. \<not> has_fd fd (conn_at (items l) x) \<Longrightarrow> has_fd fd (conn_at (items l) a) \<Longrightarrow>
     find_connection_loop l fd p prev = Some (Inr (Some (Some a, if xs = [] then prev else Some (last xs))))"
proof (induction xs arbitrary: p prev)
  case Nil
  then show ?case
    by (subst find_connection_loop.simps)
       (auto simp: item_at_def conn_at_def has_fd_def split: option.splits)
next
  case (Cons x xs)
  then show ?case
    by (subst find_connection_loop.simps)
       (auto simp: item_at_def conn_at_def has_fd_def split: option.splits)
qed

lemma find_end_loop_last:
  "segment (items l) p as None \<Longrightarrow> as \<noteq> [] \<Longrightarrow> find_end_loop l p = Some (Inr (Some (last as)))"
proof (induction as arbitrary: p)
  case Nil
  then show ?case by simp
next
  case (Cons a as)
  then obtain it where it: "p = Some a" "items l a = Some it"
    "segment (items l) (m_nextConnectionPtr it) as None"
    by (auto split: option.splits)
  show ?case
  proof (cases "as = []")
    case True
    with it show ?thesis by (subst find_end_loop.simps) (auto simp: item_at_def)
  next
    case False
    with it segment_head [OF it(3)] Cons.IH [OF it(3)] show ?thesis
      by (subst find_end_loop.simps) (auto simp: item_at_def)
  qed
qed

section \<open>The operations against the abstract list\<close>

lemma represents_empty: "represents l [] \<longleftrightarrow> m_head l = None \<and> items l = Map.empty"
  by (auto simp: represents_def linked_def)

lemma represents_head: "represents l cs \<Longrightarrow> m_head l = None \<longleftrightarrow> cs = []"
  by (auto simp: represents_def linked_def dest: segment_head)

lemma represents_mutex [simp]: "represents (l\<lparr>m_mutex := m\<rparr>) cs = represents l cs"
  by (simp add: represents_def linked_def)

lemma add_linked:
  assumes "linked l as" "m_mutex l = Unlocked" "a \<notin> dom (items l)"
  shows "\<exists>l'. AddConnection (Some a) fd th l = Some (Inr (Some a, l')) \<and> linked l' (as @ [a]) \<and>
     map (conn_at (items l')) (as @ [a])
       = map (conn_at (items l)) as @ [\<lparr>m_connectionFD = fd, m_thread = th\<rparr>] \<and>
     m_mutex l' = Unlocked \<and> joined l' = joined l \<and> dom (items l') = insert a (dom (items l))"
proof -
  let ?c = "\<lparr>m_connectionFD = fd, m_thread = th\<rparr>"
  let ?h = "(items l)(a \<mapsto> \<lparr>m_connection = ?c, m_nextConnectionPtr = None\<rparr>)"
  let ?l = "l\<lparr>m_mutex := Locked, items := ?h\<rparr>"
  have as: "segment (items l) (m_head l) as None" "distinct as" "set as = dom (items l)"
    using assms(1) by (auto simp: linked_def)
  have new: "a \<notin> set as" using assms(3) as(3) by simp
  have seg: "segment ?h (m_head l) as None" using as(1) new by simp
  have ca: "conn_at ?h a = ?c" by (simp add: conn_at_def)
  have cs: "map (conn_at ?h) as = map (conn_at (items l)) as" using new by (simp add: conn_at_upd)
  show ?thesis
  proof (cases "as = []")
    case True
    with as have "m_head l = None" by simp
    then have "AddConnection (Some a) fd th l
        = Some (Inr (Some a, mutex_unlock (?l\<lparr>m_head := Some a\<rparr>)))"
      by (simp add: AddConnection_def mutex_lock_def assms(2) FindEnd_nolock_def Let_def)
    moreover have "linked (mutex_unlock (?l\<lparr>m_head := Some a\<rparr>)) [a]"
      using as True by (simp add: linked_def mutex_unlock_def)
    ultimately show ?thesis
      using True ca by (simp add: mutex_unlock_def)
  next
    case False
    then have hd: "m_head l \<noteq> None" using segment_head [OF as(1)] by simp
    obtain it where it: "?h (last as) = Some it" using segment_last [OF False seg] by blast
    let ?h' = "?h(last as \<mapsto> it\<lparr>m_nextConnectionPtr := Some a\<rparr>)"
    have relink: "conn_at ?h' = conn_at ?h" by (rule conn_at_relink) (rule it)
    have "find_end_loop ?l (m_head l) = Some (Inr (Some (last as)))"
      by (rule find_end_loop_last) (simp_all add: seg False del: segment_upd)
    then have "AddConnection (Some a) fd th l = Some (Inr (Some a, mutex_unlock (?l\<lparr>items := ?h'\<rparr>)))"
      using hd it
      by (auto simp: AddConnection_def mutex_lock_def assms(2) FindEnd_nolock_def set_next_def item_at_def Let_def)
    moreover have "last as \<noteq> a" using new False by (metis last_in_set)
    then have "?h' a = Some \<lparr>m_connection = ?c, m_nextConnectionPtr = None\<rparr>" by simp
    then have "linked (mutex_unlock (?l\<lparr>items := ?h'\<rparr>)) (as @ [a])"
      using segment_relink [OF False as(2) seg it, of "Some a"] as(2,3) new False
      by (auto simp: linked_def mutex_unlock_def segment_append simp del: segment_upd fun_upd_apply)
    moreover have "map (conn_at ?h') (as @ [a]) = map (conn_at (items l)) as @ [?c]"
      using cs ca by (simp add: relink)
    moreover have "dom ?h' = insert a (dom (items l))"
      using as(3) False by (metis dom_fun_upd insert_absorb last_in_set option.distinct(1) insertCI)
    ultimately show ?thesis
      by (intro exI [of _ "mutex_unlock (?l\<lparr>items := ?h'\<rparr>)"]) (simp add: mutex_unlock_def)
  qed
qed

lemma add_item:
  assumes "represents l cs" "m_mutex l = Unlocked" "a \<notin> dom (items l)"
  shows "\<exists>l'. AddConnection (Some a) fd th l = Some (Inr (Some a, l')) \<and>
     represents l' (cs @ [\<lparr>m_connectionFD = fd, m_thread = th\<rparr>]) \<and> m_mutex l' = Unlocked \<and>
     joined l' = joined l \<and> dom (items l') = insert a (dom (items l)) \<and>
     conn_at (items l') a = \<lparr>m_connectionFD = fd, m_thread = th\<rparr>"
proof -
  obtain as where as: "linked l as" "cs = map (conn_at (items l)) as"
    using assms(1) by (auto simp: represents_def)
  obtain l' where l': "AddConnection (Some a) fd th l = Some (Inr (Some a, l'))" "linked l' (as @ [a])"
    "map (conn_at (items l')) (as @ [a]) = cs @ [\<lparr>m_connectionFD = fd, m_thread = th\<rparr>]"
    "m_mutex l' = Unlocked" "joined l' = joined l" "dom (items l') = insert a (dom (items l))"
    using add_linked [OF as(1) assms(2,3), of fd th] as(2) by blast
  moreover have "represents l' (cs @ [\<lparr>m_connectionFD = fd, m_thread = th\<rparr>])"
    using l'(2,3) unfolding represents_def by metis
  ultimately show ?thesis by simp
qed

lemma add_out_of_memory:
  "m_mutex l = Unlocked \<Longrightarrow> AddConnection None fd th l = Some (Inl NullDeref)"
  by (simp add: AddConnection_def mutex_lock_def)

lemma close_empty:
  "represents l [] \<Longrightarrow> m_mutex l = Unlocked \<Longrightarrow>
     CloseConnection fd l = Some (Inr (1, l\<lparr>m_mutex := Locked\<rparr>))"
  by (simp add: represents_empty CloseConnection_def mutex_lock_def)

lemma close_absent:
  assumes "represents l cs" "m_mutex l = Unlocked" "cs \<noteq> []" "find (has_fd fd) cs = None"
  shows "CloseConnection fd l = Some (Inr (- 1, l))"
proof -
  obtain as where as: "segment (items l) (m_head l) as None" "cs = map (conn_at (items l)) as"
    using assms(1) by (auto simp: represents_def linked_def)
  have "find_connection_loop (l\<lparr>m_mutex := Locked\<rparr>) fd (m_head l) None = Some (Inr None)"
    using as assms(4) by (intro find_connection_loop_absent [of _ _ as]) (auto simp: find_None_iff)
  moreover have "m_head l \<noteq> None" using represents_head [OF assms(1)] assms(3) by simp
  ultimately show ?thesis
    using assms(2)
    by (simp add: CloseConnection_def mutex_lock_def FindConnection_nolock_def mutex_unlock_def)
qed

lemma split_at_fd:
  assumes "find (has_fd fd) (map f as) = Some c"
  obtains xs a ys where "as = xs @ a # ys" "\<forall>x \<in> set xs. \<not> has_fd fd (f x)" "has_fd fd (f a)" "f a = c"
  using assms
proof (induction as arbitrary: thesis)
  case Nil
  then show ?case by simp
next
  case (Cons b as)
  show ?case
  proof (cases "has_fd fd (f b)")
    case True
    with Cons.prems(2) show ?thesis by (intro Cons.prems(1) [of "[]" b as]) auto
  next
    case False
    with Cons.prems(2) have "find (has_fd fd) (map f as) = Some c" by simp
    then obtain xs a ys where "as = xs @ a # ys" "\<forall>x \<in> set xs. \<not> has_fd fd (f x)" "has_fd fd (f a)" "f a = c"
      using Cons.IH by blast
    with False show ?thesis by (intro Cons.prems(1) [of "b # xs" a ys]) auto
  qed
qed

lemma close_found:
  assumes "represents l cs" "m_mutex l = Unlocked" "find (has_fd fd) cs = Some c"
  shows "\<exists>l'. CloseConnection fd l = Some (Inr (0, l')) \<and> represents l' (remove_fd fd cs) \<and>
     m_mutex l' = Unlocked \<and> joined l' = joined l @ [m_thread c]"
proof -
  obtain as where as: "segment (items l) (m_head l) as None" "distinct as" "set as = dom (items l)"
    "cs = map (conn_at (items l)) as"
    using assms(1) unfolding represents_def linked_def by (elim exE conjE) (rule that)
  obtain xs a ys where split: "as = xs @ a # ys" "\<forall>x \<in> set xs. \<not> has_fd fd (conn_at (items l) x)"
    "has_fd fd (conn_at (items l) a)" "conn_at (items l) a = c"
    using split_at_fd assms(3) unfolding as(4) by metis
  obtain it where it: "items l a = Some it" "segment (items l) (m_nextConnectionPtr it) ys None"
    using as(1) by (auto simp: split(1) segment_append split: option.splits)
  have pre: "segment (items l) (m_head l) xs (Some a)"
    using as(1) by (auto simp: split(1) segment_append)
  have thread: "m_thread (m_connection it) = m_thread c"
    using split(4) it(1) by (auto simp: conn_at_def)
  let ?l = "l\<lparr>m_mutex := Locked\<rparr>"
  have find: "FindConnection_nolock ?l fd
      = Some (Inr (Some (Some a, if xs = [] then None else Some (last xs))))"
    unfolding FindConnection_nolock_def
    using as(1) split by (intro find_connection_loop_found) auto
  have hd: "m_head l \<noteq> None" using as(1) split(1) by (auto dest: segment_head)
  have cs': "remove_fd fd cs = map (conn_at (items l)) (xs @ ys)"
    using split by (simp add: as(4) remove_fd_append)
  have out: "a \<notin> set xs" "a \<notin> set ys" using as(2) split(1) by auto
  show ?thesis
  proof (cases "xs = []")
    case True
    let ?l' = "l\<lparr>m_head := m_nextConnectionPtr it, items := (items l)(a := None),
        joined := joined l @ [m_thread c]\<rparr>"
    have "CloseConnection fd l = Some (Inr (0, ?l'))"
      using find hd it(1) True assms(2) thread
      by (simp add: CloseConnection_def mutex_lock_def item_at_def join_and_free_def mutex_unlock_def)
    moreover have "linked ?l' ys"
      using it(2) as(2,3) split(1) True out by (auto simp: linked_def)
    ultimately show ?thesis
      using True out assms(2)
      by (auto simp: represents_def cs' conn_at_upd intro!: exI [of _ ys])
  next
    case False
    obtain pit where pit: "items l (last xs) = Some pit" using segment_last [OF False pre] by blast
    let ?h = "(items l)(last xs \<mapsto> pit\<lparr>m_nextConnectionPtr := m_nextConnectionPtr it\<rparr>)"
    have relink: "conn_at ?h = conn_at (items l)" by (rule conn_at_relink) (rule pit)
    let ?l' = "l\<lparr>items := ?h(a := None), joined := joined l @ [m_thread c]\<rparr>"
    have ne: "last xs \<noteq> a" "last xs \<notin> set ys"
      using as(2) split(1) last_in_set [OF False] by (auto simp: disjoint_iff)
    have "CloseConnection fd l = Some (Inr (0, ?l'))"
      using find hd it(1) False assms(2) thread pit ne
      by (simp add: CloseConnection_def mutex_lock_def item_at_def join_and_free_def mutex_unlock_def
          set_next_def)
    moreover have "segment ?h (m_head l) xs (m_nextConnectionPtr it)"
      using segment_relink [OF False _ pre pit] as(2) split(1) by simp
    then have "segment (?h(a := None)) (m_head l) (xs @ ys) None"
      using it(2) out ne by (auto simp: segment_append simp del: fun_upd_apply)
    then have "linked ?l' (xs @ ys)"
      using as(2,3) split(1) last_in_set [OF False] by (auto simp: linked_def simp del: fun_upd_apply)
    moreover have "map (conn_at (?h(a := None))) (xs @ ys) = map (conn_at (items l)) (xs @ ys)"
      using out by (subst conn_at_upd) (simp_all add: relink)
    ultimately show ?thesis
      using assms(2) by (auto simp: represents_def cs' simp del: fun_upd_apply)
  qed
qed

lemma destroy_loop_joins:
  "segment (items l) (m_head l) as None \<Longrightarrow> represents l cs \<Longrightarrow> m_mutex l = Unlocked \<Longrightarrow>
     \<exists>l'. destroy_loop l (m_head l) = Some (Inr l') \<and> represents l' [] \<and> m_mutex l' = Unlocked \<and>
       joined l' = joined l @ map m_thread cs"
proof (induction cs arbitrary: l as)
  case Nil
  then show ?case
    by (subst destroy_loop.simps) (auto simp: represents_head)
next
  case (Cons c cs)
  obtain as where as: "segment (items l) (m_head l) as None" "distinct as" "set as = dom (items l)"
    "c # cs = map (conn_at (items l)) as"
    using Cons.prems(2) unfolding represents_def linked_def by (elim exE conjE) (rule that)
  obtain a bs where as_def: "as = a # bs" "c = conn_at (items l) a" using as(4) by (cases as) auto
  obtain it where it: "m_head l = Some a" "items l a = Some it"
    "segment (items l) (m_nextConnectionPtr it) bs None"
    using as(1) as_def by (auto split: option.splits)
  have c: "m_connection it = c" using as_def it(2) by (simp add: conn_at_def)
  have first: "find (has_fd (m_connectionFD c)) (c # cs) = Some c" by (simp add: has_fd_def)
  let ?fd = "m_connectionFD c"
  obtain l1 where l1: "CloseConnection ?fd l = Some (Inr (0, l1))" "represents l1 cs"
    "m_mutex l1 = Unlocked" "joined l1 = joined l @ [m_thread c]"
    using close_found [OF Cons.prems(2,3) first] by (auto simp: has_fd_def)
  obtain h1: "m_head l1 = m_nextConnectionPtr it"
  proof
    have "find_connection_loop (l\<lparr>m_mutex := Locked\<rparr>) ?fd (Some a) None
        = Some (Inr (Some (Some a, None)))"
      by (subst find_connection_loop.simps) (simp add: item_at_def it(2) c)
    with l1(1) show "m_head l1 = m_nextConnectionPtr it"
      using it(1,2) Cons.prems(3)
      by (auto simp: CloseConnection_def mutex_lock_def FindConnection_nolock_def item_at_def
          join_and_free_def mutex_unlock_def)
  qed
  obtain as1 where "segment (items l1) (m_head l1) as1 None"
    using l1(2) by (auto simp: represents_def linked_def)
  from Cons.IH [OF this l1(2,3)] obtain l' where l': "destroy_loop l1 (m_head l1) = Some (Inr l')"
    "represents l' []" "m_mutex l' = Unlocked" "joined l' = joined l1 @ map m_thread cs"
    by blast
  have "destroy_loop l (m_head l) = destroy_loop l1 (m_head l1)"
    using it l1(1) h1 c by (subst destroy_loop.simps) (simp add: item_at_def)
  with l' l1(4) show ?case by simp
qed

section \<open>The contract of a store of connections\<close>

text \<open>
  What a client of the list relies on, for any implementation: \<open>rep s cs\<close> is the
  abstraction (with the lock free), \<open>log\<close> the threads joined so far, \<open>alloc\<close> the allocator.
\<close>

datatype conn_op = OpAdd cint pthread_t | OpClose cint

fun op_abs :: "conn_op \<Rightarrow> Connection list \<Rightarrow> Connection list" where
  "op_abs (OpAdd fd th) cs = cs @ [\<lparr>m_connectionFD = fd, m_thread = th\<rparr>]"
| "op_abs (OpClose fd) cs = remove_fd fd cs"

fun op_joins :: "conn_op \<Rightarrow> Connection list \<Rightarrow> pthread_t list" where
  "op_joins (OpAdd fd th) cs = []"
| "op_joins (OpClose fd) cs = (case find (has_fd fd) cs of None \<Rightarrow> [] | Some c \<Rightarrow> [m_thread c])"

fun op_adds :: "conn_op \<Rightarrow> pthread_t list" where
  "op_adds (OpAdd fd th) = [th]"
| "op_adds (OpClose fd) = []"

text \<open>No descriptor is closed while the list is empty.\<close>

fun never_closes_empty :: "conn_op list \<Rightarrow> Connection list \<Rightarrow> bool" where
  "never_closes_empty [] cs \<longleftrightarrow> True"
| "never_closes_empty (p # ps) cs \<longleftrightarrow>
     (case p of OpAdd _ _ \<Rightarrow> True | OpClose _ \<Rightarrow> cs \<noteq> []) \<and> never_closes_empty ps (op_abs p cs)"

locale connection_store =
  fixes rep :: "'s \<Rightarrow> Connection list \<Rightarrow> bool"
    and step :: "conn_op \<Rightarrow> 's \<Rightarrow> 's call"
    and destroy :: "'s \<Rightarrow> 's call"
    and log :: "'s \<Rightarrow> pthread_t list"
    and dead :: "'s \<Rightarrow> bool"
  assumes add_law: "rep s cs \<Longrightarrow> \<exists>s'. step (OpAdd fd th) s = Some (Inr s') \<and>
      rep s' (op_abs (OpAdd fd th) cs) \<and> log s' = log s"
    and close_law: "rep s cs \<Longrightarrow> cs \<noteq> [] \<Longrightarrow> \<exists>s'. step (OpClose fd) s = Some (Inr s') \<and>
      rep s' (op_abs (OpClose fd) cs) \<and> log s' = log s @ op_joins (OpClose fd) cs"
    and destroy_law: "rep s cs \<Longrightarrow> \<exists>s'. destroy s = Some (Inr s') \<and> dead s' \<and>
      log s' = log s @ map m_thread cs"
begin

lemma step_ok:
  assumes "rep s cs" "case p of OpAdd _ _ \<Rightarrow> True | OpClose _ \<Rightarrow> cs \<noteq> []"
  shows "\<exists>s'. step p s = Some (Inr s') \<and> rep s' (op_abs p cs) \<and> log s' = log s @ op_joins p cs"
proof (cases p)
  case (OpAdd fd th)
  with add_law [OF assms(1), of fd th] show ?thesis by auto
next
  case (OpClose fd)
  with close_law [OF assms(1), of fd] assms(2) show ?thesis by auto
qed

lemma step_conserves:
  "mset (op_joins p cs) + image_mset m_thread (mset (op_abs p cs))
     = mset (op_adds p) + image_mset m_thread (mset cs)"
proof (cases p)
  case (OpClose fd)
  then show ?thesis
    by (cases "find (has_fd fd) cs")
       (auto simp: remove_fd_None dest: mset_remove_fd)
qed simp

lemma run_ok:
  "rep s cs \<Longrightarrow> never_closes_empty ps cs \<Longrightarrow>
     \<exists>s' cs' js. run_calls step ps s = Some (Inr s') \<and> rep s' cs' \<and> log s' = log s @ js \<and>
       mset js + image_mset m_thread (mset cs')
         = mset (concat (map op_adds ps)) + image_mset m_thread (mset cs)"
proof (induction ps arbitrary: s cs)
  case Nil
  then show ?case by (intro exI [of _ s] exI [of _ cs] exI [of _ "[]"]) simp
next
  case (Cons p ps)
  obtain s1 where s1: "step p s = Some (Inr s1)" "rep s1 (op_abs p cs)" "log s1 = log s @ op_joins p cs"
    using step_ok [OF Cons.prems(1), of p] Cons.prems(2) by auto
  obtain s' cs' js where r: "run_calls step ps s1 = Some (Inr s')" "rep s' cs'" "log s' = log s1 @ js"
    "mset js + image_mset m_thread (mset cs')
       = mset (concat (map op_adds ps)) + image_mset m_thread (mset (op_abs p cs))"
    using Cons.IH [OF s1(2)] Cons.prems(2) by auto
  have "mset (op_joins p cs @ js) + image_mset m_thread (mset cs')
      = mset (concat (map op_adds (p # ps))) + image_mset m_thread (mset cs)"
    by (simp add: union_assoc r(4)) (metis step_conserves)
  with s1 r(1-3) show ?case
    by (intro exI [of _ s'] exI [of _ cs'] exI [of _ "op_joins p cs @ js"]) simp
qed

text \<open>Every thread that was added is joined exactly once by the time the store is gone.\<close>

lemma run_then_destroy:
  assumes "rep s []" "never_closes_empty ps []"
  shows "\<exists>s' js. bindO (run_calls step ps s) destroy = Some (Inr s') \<and> dead s' \<and>
    log s' = log s @ js \<and> mset js = mset (concat (map op_adds ps))"
proof -
  obtain s1 cs js where r: "run_calls step ps s = Some (Inr s1)" "rep s1 cs" "log s1 = log s @ js"
    "mset js + image_mset m_thread (mset cs) = mset (concat (map op_adds ps))"
    using run_ok [OF assms] by auto
  obtain s' where "destroy s1 = Some (Inr s')" "dead s'" "log s' = log s1 @ map m_thread cs"
    using destroy_law [OF r(2)] by blast
  with r show ?thesis
    by (intro exI [of _ s'] exI [of _ "js @ map m_thread cs"]) simp
qed

end

section \<open>The list implements the contract\<close>

definition conn_step :: "((nat \<rightharpoonup> ConnectionListItem) \<Rightarrow> nat) \<Rightarrow> conn_op \<Rightarrow> ConnectionList \<Rightarrow> ConnectionList call" where
  "conn_step alloc p l = (case p of
     OpAdd fd th \<Rightarrow> bindO (AddConnection (Some (alloc (items l))) fd th l) (\<lambda>(_, l). Some (Inr l))
   | OpClose fd \<Rightarrow> bindO (CloseConnection fd l) (\<lambda>(_, l). Some (Inr l)))"

definition ready :: "ConnectionList \<Rightarrow> Connection list \<Rightarrow> bool" where
  "ready l cs \<longleftrightarrow> represents l cs \<and> m_mutex l = Unlocked \<and> finite (dom (items l))"

definition torn_down :: "ConnectionList \<Rightarrow> bool" where
  "torn_down l \<longleftrightarrow> m_mutex l = Destroyed \<and> m_head l = None \<and> items l = Map.empty"

text \<open>An allocator that returns the smallest block number above all those in use.\<close>

definition next_free :: "(nat \<rightharpoonup> ConnectionListItem) \<Rightarrow> nat" where
  "next_free h = Suc (Max (insert 0 (dom h)))"

lemma next_free_fresh: "finite (dom h) \<Longrightarrow> next_free h \<notin> dom h"
  unfolding next_free_def by (metis Max_ge finite_insert insertI2 not_less_eq_eq order_refl)

lemma represents_finite: "represents l cs \<Longrightarrow> finite (dom (items l))"
  unfolding represents_def linked_def by (metis List.finite_set)

lemma close_ready:
  assumes "ready l cs" "cs \<noteq> []"
  shows "\<exists>r l'. CloseConnection fd l = Some (Inr (r, l')) \<and> ready l' (remove_fd fd cs) \<and>
    joined l' = joined l @ (case find (has_fd fd) cs of None \<Rightarrow> [] | Some c \<Rightarrow> [m_thread c]) \<and>
    r = (case find (has_fd fd) cs of None \<Rightarrow> - 1 | Some c \<Rightarrow> 0)"
proof (cases "find (has_fd fd) cs")
  case None
  with close_absent [of l cs fd] assms show ?thesis
    by (auto simp: ready_def remove_fd_None)
next
  case (Some c)
  with close_found [of l cs fd c] assms show ?thesis
    by (auto simp: ready_def dest: represents_finite)
qed

lemma destroy_ready:
  assumes "ready l cs"
  shows "\<exists>l'. DestroyConnectionList l = Some (Inr l') \<and> torn_down l' \<and>
    joined l' = joined l @ map m_thread cs"
proof -
  obtain as where "segment (items l) (m_head l) as None"
    using assms by (auto simp: ready_def represents_def linked_def)
  then obtain l1 where l1: "destroy_loop l (m_head l) = Some (Inr l1)" "represents l1 []"
    "m_mutex l1 = Unlocked" "joined l1 = joined l @ map m_thread cs"
    using destroy_loop_joins assms unfolding ready_def by blast
  then show ?thesis
    by (simp add: DestroyConnectionList_def mutex_destroy_def torn_down_def represents_empty)
qed

interpretation conns: connection_store ready "conn_step next_free" DestroyConnectionList joined torn_down
proof unfold_locales
  show "\<exists>s'. conn_step next_free (OpAdd fd th) s = Some (Inr s') \<and>
      ready s' (op_abs (OpAdd fd th) cs) \<and> joined s' = joined s" if "ready s cs" for s cs fd th
    using add_item [of s cs "next_free (items s)" fd th] that next_free_fresh
    by (auto simp: ready_def conn_step_def dest: represents_finite)
  show "\<exists>s'. conn_step next_free (OpClose fd) s = Some (Inr s') \<and> ready s' (op_abs (OpClose fd) cs) \<and>
      joined s' = joined s @ op_joins (OpClose fd) cs" if "ready s cs" "cs \<noteq> []" for s cs fd
    using close_ready [OF that, of fd] by (auto simp: conn_step_def)
qed (rule destroy_ready)

section \<open>Properties\<close>

text \<open>
  Adding a connection to a list that is in order and unlocked returns a pointer to a
  new item with the given descriptor and thread, appended at the end; the other items are
  unchanged and the lock is free again. The result of \<open>malloc\<close> is not checked: when it is
  NULL the function writes through it.
\<close>

theorem AddConnection_appends:
  assumes "represents l cs" and "m_mutex l = Unlocked" and "a \<notin> dom (items l)"
  shows "(\<exists>l'. AddConnection (Some a) fd th l = Some (Inr (Some a, l')) \<and>
      represents l' (cs @ [\<lparr>m_connectionFD = fd, m_thread = th\<rparr>]) \<and> m_mutex l' = Unlocked \<and>
      dom (items l') = insert a (dom (items l)) \<and> joined l' = joined l \<and>
      conn_at (items l') a = \<lparr>m_connectionFD = fd, m_thread = th\<rparr>) \<and>
    AddConnection None fd th l = Some (Inl NullDeref)"
  using add_item [OF assms] add_out_of_memory [OF assms(2)] by blast+

definition fresh_list :: ConnectionList where
  "fresh_list = InitConnectionList \<lparr>m_mutex = Unlocked, m_head = None, items = Map.empty, joined = []\<rparr>"

lemma fresh_list_facts: "represents fresh_list []" "m_mutex fresh_list = Unlocked"
    "items fresh_list = Map.empty" "joined fresh_list = []" "ready fresh_list []"
  by (simp_all add: fresh_list_def InitConnectionList_def represents_empty ready_def)

theorem AddConnection_appends_witness:
  "\<exists>l'. AddConnection (Some 7) 4 11 fresh_list = Some (Inr (Some 7, l')) \<and>
     represents l' [\<lparr>m_connectionFD = 4, m_thread = 11\<rparr>]"
  using AddConnection_appends [OF fresh_list_facts(1,2), of 7 4 11] by (auto simp: fresh_list_facts)

text \<open>
  Closing a descriptor on a non-empty list returns, frees the lock and tells whether
  the descriptor was there: if so (0) the first connection with it is unlinked, its thread
  joined and its item freed, and the order of the others kept; if not (-1) nothing changes.
\<close>

theorem CloseConnection_removes_first:
  assumes "represents l cs" and "m_mutex l = Unlocked" and "cs \<noteq> []"
  shows "\<exists>r l'. CloseConnection fd l = Some (Inr (r, l')) \<and>
    represents l' (remove_fd fd cs) \<and> m_mutex l' = Unlocked \<and>
    card (dom (items l')) = length (remove_fd fd cs) \<and>
    (case find (has_fd fd) cs of
       None \<Rightarrow> r = - 1 \<and> l' = l
     | Some c \<Rightarrow> r = 0 \<and> joined l' = joined l @ [m_thread c])"
proof -
  have card: "represents l' cs' \<Longrightarrow> card (dom (items l')) = length cs'" for l' cs'
    unfolding represents_def linked_def by (metis distinct_card length_map)
  show ?thesis
  proof (cases "find (has_fd fd) cs")
    case None
    with close_absent [OF assms None] assms card show ?thesis
      by (auto simp: remove_fd_None)
  next
    case (Some c)
    with close_found [OF assms(1,2) Some] card show ?thesis by auto
  qed
qed

lemma demo_list:
  obtains l where "represents l [\<lparr>m_connectionFD = 4, m_thread = 11\<rparr>, \<lparr>m_connectionFD = 6, m_thread = 12\<rparr>]"
    "m_mutex l = Unlocked" "joined l = []"
proof -
  obtain l1 where l1: "represents l1 [\<lparr>m_connectionFD = 4, m_thread = 11\<rparr>]" "m_mutex l1 = Unlocked"
    "dom (items l1) = {7}" "joined l1 = []"
    using add_item [OF fresh_list_facts(1,2), of 7 4 11] by (auto simp: fresh_list_facts)
  then obtain l2 where "represents l2 [\<lparr>m_connectionFD = 4, m_thread = 11\<rparr>, \<lparr>m_connectionFD = 6, m_thread = 12\<rparr>]"
    "m_mutex l2 = Unlocked" "joined l2 = []"
    using add_item [OF l1(1,2), of 8 6 12] by auto
  then show ?thesis by (rule that)
qed

theorem CloseConnection_removes_first_witness:
  "\<exists>l l'. CloseConnection 6 l = Some (Inr (0, l')) \<and> joined l' = [12] \<and>
     represents l' [\<lparr>m_connectionFD = 4, m_thread = 11\<rparr>]"
proof -
  obtain l where l: "represents l [\<lparr>m_connectionFD = 4, m_thread = 11\<rparr>, \<lparr>m_connectionFD = 6, m_thread = 12\<rparr>]"
    "m_mutex l = Unlocked" "joined l = []" by (rule demo_list)
  from CloseConnection_removes_first [OF l(1,2), of 6] l(3) show ?thesis
    by (auto simp: has_fd_def)
qed



text \<open>
  Closing on an empty list returns 1 without unlocking: from then on every operation
  that takes the lock hangs, and the mutex is still locked when the list is destroyed.
\<close>

theorem close_on_empty_keeps_lock:
  assumes "represents l []" and "m_mutex l = Unlocked"
  shows "\<exists>l'. CloseConnection fd l = Some (Inr (1, l')) \<and> represents l' [] \<and>
    AddConnection new fd' th l' = Some (Inl SelfDeadlock) \<and>
    CloseConnection fd' l' = Some (Inl SelfDeadlock) \<and>
    (\<exists>l''. DestroyConnectionList l' = Some (Inr l'') \<and> m_mutex l'' = Locked)"
proof -
  let ?l = "l\<lparr>m_mutex := Locked\<rparr>"
  have "AddConnection new fd' th ?l = Some (Inl SelfDeadlock)"
    "CloseConnection fd' ?l = Some (Inl SelfDeadlock)"
    by (simp_all add: AddConnection_def CloseConnection_def mutex_lock_def)
  moreover have "DestroyConnectionList ?l = Some (Inr ?l)"
    using assms(1)
    by (simp add: DestroyConnectionList_def represents_empty destroy_loop.simps mutex_destroy_def)
  ultimately show ?thesis
    using close_empty [OF assms, of fd] assms(1) by (intro exI [of _ ?l]) simp
qed

theorem close_on_empty_keeps_lock_witness:
  "\<exists>l'. CloseConnection 4 fresh_list = Some (Inr (1, l')) \<and>
     AddConnection (Some 1) 5 9 l' = Some (Inl SelfDeadlock)"
  using close_on_empty_keeps_lock [OF fresh_list_facts(1,2), of 4 "Some 1" 5 9] by blast

end
