(* ===== verification/Receiver.thy ===== *)
theory Receiver
  imports Connection_List
begin

text \<open>
  The thread that accepts connections, \<open>server/connectionReceiverThread.c\<close>. Everything it
  learns from the system in one turn of its loop is a record \<open>turn\<close>; the loop runs over a
  list of turns and is \<open>None\<close> when they are used up before it ends. The connection list and
  its memory are those of \<open>Connection_List\<close>. Log messages are left out.
\<close>

section \<open>Data\<close>

datatype poll =
    Timeout            \<comment> \<open>epoll_wait returned 0\<close>
  | PollFailed         \<comment> \<open>epoll_wait returned -1 and left the array of events alone\<close>
  | Event cint         \<comment> \<open>the descriptor of the first event\<close>

text \<open>What one call of \<open>recv\<close> on the interthread socket finds.\<close>

datatype arrival = NoMessage | Message "byte list"

record turn =
  t_close :: bool             \<comment> \<open>closeRequested at the head of the loop\<close>
  t_poll :: poll
  t_its :: cint               \<comment> \<open>interthreadSocketFD, which another thread sets\<close>
  t_arrivals :: "arrival list"
  t_accept :: cint            \<comment> \<open>the result of accept\<close>
  t_create :: nat             \<comment> \<open>the result of pthread_create\<close>
  t_new :: pthread_t          \<comment> \<open>the id of the thread it created\<close>

record receiver_env =
  new_item :: "(nat \<rightharpoonup> ConnectionListItem) \<Rightarrow> ptr"     \<comment> \<open>malloc\<close>
  socketFD :: cint
  message_address :: "byte list"      \<comment> \<open>the bytes of the pointer messagePtr\<close>

text \<open>
  \<open>event_fd\<close> is \<open>events[0].data.fd\<close>, which is not initialised before the first event and
  keeps its value when \<open>epoll_wait\<close> fails. \<open>started\<close> lists the handler threads with the
  pointer each was given.
\<close>

record receiver =
  connections :: ConnectionList
  watched :: "cint list"
  event_fd :: cint
  started :: "(pthread_t \<times> ptr) list"

section \<open>The thread\<close>

text \<open>
  The loop that is to read one \<open>int\<close>. It passes \<open>&messagePtr\<close>, so the bytes go over the
  pointer itself (8 bytes) and never into \<open>message\<close>. A \<open>recv\<close> that fails returns \<open>-1\<close>, and
  subtracting it makes \<open>needed\<close> larger.
\<close>

fun drain :: "size_t \<Rightarrow> byte list \<Rightarrow> arrival list \<Rightarrow> byte list call" where
  "drain needed messagePtr [] = (if needed \<noteq> 0 then None else Some (Inr messagePtr))"
| "drain needed messagePtr (x # xs) =
     (if needed \<noteq> 0 then
        (case x of
           NoMessage \<Rightarrow> drain (needed - (- 1)) messagePtr xs
         | Message bs \<Rightarrow>
             (let got = take (unat needed) bs in
              if length got > length messagePtr then Some (Inl OutOfBounds)
              else drain (needed - of_nat (length got)) (got @ drop (length got) messagePtr) xs))
      else Some (Inr messagePtr))"

text \<open>The store \<open>connection->m_thread = th\<close> through the pointer into the list item.\<close>

definition set_thread :: "ConnectionList \<Rightarrow> ptr \<Rightarrow> pthread_t \<Rightarrow> ConnectionList call" where
  "set_thread l p th = bindO (item_at l p) (\<lambda>it.
     Some (Inr (l\<lparr>items := (items l)(the p \<mapsto>
       it\<lparr>m_connection := (m_connection it)\<lparr>m_thread := th\<rparr>\<rparr>)\<rparr>)))"

text \<open>The two branches of the loop body; the first one tells whether to leave the loop.\<close>

definition interthread_event :: "receiver_env \<Rightarrow> turn \<Rightarrow> receiver \<Rightarrow> (bool \<times> receiver) call" where
  "interthread_event env t r =
     (let message = (- 1 :: cint); needed = (4 :: size_t) in
      bindO (drain needed (message_address env) (t_arrivals t)) (\<lambda>_.
        if message = 0 then Some (Inr (True, r))
        else bindO (CloseConnection message (connections r)) (\<lambda>(_, l).
          Some (Inr (False, r\<lparr>connections := l\<rparr>)))))"

definition accept_event :: "receiver_env \<Rightarrow> turn \<Rightarrow> receiver \<Rightarrow> receiver call" where
  "accept_event env t r =
     (let connectionFD = t_accept t in
      if connectionFD = - 1 then Some (Inr r)
      else bindO (AddConnection (new_item env (items (connections r))) connectionFD 0 (connections r))
        (\<lambda>(connection, l).
          bindO (set_thread l connection (t_create t)) (\<lambda>l.
            Some (Inr (r\<lparr>connections := l,
              started := (if t_create t = 0 then started r @ [(t_new t, connection)] else started r)\<rparr>)))))"

text \<open>\<open>None\<close> is a timeout; otherwise the content of the first event.\<close>

definition found_event :: "poll \<Rightarrow> cint \<Rightarrow> cint option" where
  "found_event p old = (case p of Timeout \<Rightarrow> None | PollFailed \<Rightarrow> Some old | Event fd \<Rightarrow> Some fd)"

fun receiver_loop :: "receiver_env \<Rightarrow> turn list \<Rightarrow> receiver \<Rightarrow> receiver call" where
  "receiver_loop env [] r = None"
| "receiver_loop env (t # ts) r =
     (if \<not> t_close t then
        (case found_event (t_poll t) (event_fd r) of
           None \<Rightarrow> receiver_loop env ts r
         | Some fd \<Rightarrow>
             (let r = r\<lparr>event_fd := fd\<rparr> in
              if event_fd r = t_its t then
                bindO (interthread_event env t r) (\<lambda>(stop, r).
                  if stop then Some (Inr r) else receiver_loop env ts r)
              else if event_fd r = socketFD env then
                bindO (accept_event env t r) (receiver_loop env ts)
              else receiver_loop env ts r))
      else Some (Inr r))"

text \<open>
  \<open>stack\<close> is the list as it lies on the stack before it is initialised, \<open>garbage\<close> what the
  array of events holds, \<open>its\<close> the value of \<open>interthreadSocketFD\<close> when it is registered.
\<close>

definition ConnectionReceiverThread ::
    "receiver_env \<Rightarrow> ConnectionList \<Rightarrow> cint \<Rightarrow> cint \<Rightarrow> turn list \<Rightarrow> receiver call" where
  "ConnectionReceiverThread env stack garbage its ts =
     (let r = \<lparr>connections = InitConnectionList stack, watched = [socketFD env, its],
               event_fd = garbage, started = []\<rparr> in
      bindO (receiver_loop env ts r) (\<lambda>r.
        bindO (DestroyConnectionList (connections r)) (\<lambda>l.
          Some (Inr (r\<lparr>connections := l, watched := []\<rparr>)))))"

section \<open>What a run serves\<close>

text \<open>The turns that handle an event, with the descriptor each one goes by.\<close>

fun served :: "cint \<Rightarrow> turn list \<Rightarrow> (turn \<times> cint) list" where
  "served e [] = []"
| "served e (t # ts) =
     (if t_close t then []
      else case found_event (t_poll t) e of
        None \<Rightarrow> served e ts
      | Some fd \<Rightarrow> (t, fd) # served fd ts)"

text \<open>The turns that accept a connection.\<close>

definition accepted :: "cint \<Rightarrow> cint \<Rightarrow> turn list \<Rightarrow> turn list" where
  "accepted s e ts = [t. (t, fd) \<leftarrow> served e ts, fd = s \<and> t_accept t \<noteq> - 1]"

definition conn_of :: "turn \<Rightarrow> Connection" where
  "conn_of t = \<lparr>m_connectionFD = t_accept t, m_thread = t_create t\<rparr>"

definition fresh_alloc :: "((nat \<rightharpoonup> ConnectionListItem) \<Rightarrow> ptr) \<Rightarrow> bool" where
  "fresh_alloc alloc \<longleftrightarrow> (\<forall>h. finite (dom h) \<longrightarrow> (\<exists>a. alloc h = Some a \<and> a \<notin> dom h))"

section \<open>Accepting a connection\<close>

lemma segment_same_links:
  "h a = Some it \<Longrightarrow> m_nextConnectionPtr it' = m_nextConnectionPtr it \<Longrightarrow>
     segment (h(a \<mapsto> it')) p xs q = segment h p xs q"
  by (induction xs arbitrary: p) (auto split: option.splits)

lemma set_thread_last:
  assumes "linked l (as @ [a])"
  shows "\<exists>l'. set_thread l (Some a) th = Some (Inr l') \<and> linked l' (as @ [a]) \<and>
    map (conn_at (items l')) as = map (conn_at (items l)) as \<and>
    conn_at (items l') a = (conn_at (items l) a)\<lparr>m_thread := th\<rparr> \<and>
    m_mutex l' = m_mutex l \<and> joined l' = joined l \<and> dom (items l') = dom (items l)"
proof -
  have "a \<in> dom (items l)" and new: "a \<notin> set as"
    using assms by (auto simp: linked_def)
  then obtain it where it: "items l a = Some it" by blast
  let ?it = "it\<lparr>m_connection := (m_connection it)\<lparr>m_thread := th\<rparr>\<rparr>"
  let ?l = "l\<lparr>items := (items l)(a \<mapsto> ?it)\<rparr>"
  have "linked ?l (as @ [a])"
    using assms it by (auto simp: linked_def segment_same_links)
  moreover have "map (conn_at (items ?l)) as = map (conn_at (items l)) as"
    using new by (simp add: conn_at_upd)
  ultimately show ?thesis
    using it by (intro exI [of _ ?l]) (auto simp: set_thread_def item_at_def conn_at_def)
qed

text \<open>
  A turn that accepts: one item more at the end of the list, with the result of
  \<open>pthread_create\<close> as its thread.
\<close>

lemma accept_event_adds:
  assumes "ready (connections r) cs" "fresh_alloc (new_item env)" "t_accept t \<noteq> - 1"
  shows "\<exists>r' a. accept_event env t r = Some (Inr r') \<and> ready (connections r') (cs @ [conn_of t]) \<and>
    joined (connections r') = joined (connections r) \<and> event_fd r' = event_fd r \<and>
    started r' = started r @ (if t_create t = 0 then [(t_new t, Some a)] else []) \<and>
    (\<exists>it. item_at (connections r') (Some a) = Some (Inr it) \<and> m_connection it = conn_of t)"
proof -
  obtain as where as: "linked (connections r) as" "cs = map (conn_at (items (connections r))) as"
    using assms(1) by (auto simp: ready_def represents_def)
  obtain a where a: "new_item env (items (connections r)) = Some a" "a \<notin> dom (items (connections r))"
    using assms(1,2) by (auto simp: ready_def fresh_alloc_def)
  obtain l where l: "AddConnection (Some a) (t_accept t) 0 (connections r) = Some (Inr (Some a, l))"
    "linked l (as @ [a])"
    "map (conn_at (items l)) (as @ [a]) = cs @ [\<lparr>m_connectionFD = t_accept t, m_thread = 0\<rparr>]"
    "m_mutex l = Unlocked" "joined l = joined (connections r)"
    using add_linked [OF as(1) _ a(2), of "t_accept t" 0] assms(1) as(2) by (auto simp: ready_def)
  obtain l' where l': "set_thread l (Some a) (t_create t) = Some (Inr l')" "linked l' (as @ [a])"
    "map (conn_at (items l')) as = map (conn_at (items l)) as"
    "conn_at (items l') a = (conn_at (items l) a)\<lparr>m_thread := t_create t\<rparr>"
    "m_mutex l' = m_mutex l" "joined l' = joined l"
    using set_thread_last [OF l(2)] by blast
  have "cs @ [conn_of t] = map (conn_at (items l')) (as @ [a])"
    using l(3) l'(3,4) by (simp add: conn_of_def)
  then have "represents l' (cs @ [conn_of t])" using l'(2) unfolding represents_def by blast
  then have "ready l' (cs @ [conn_of t])"
    using l(4) l'(5) by (simp add: ready_def represents_finite)
  moreover have "conn_at (items l') a = conn_of t" "a \<in> dom (items l')"
    using l(3) l'(2,4) by (auto simp: conn_of_def linked_def)
  then have "\<exists>it. item_at l' (Some a) = Some (Inr it) \<and> m_connection it = conn_of t"
    by (auto simp: item_at_def conn_at_def)
  ultimately show ?thesis
    using a(1) l l'(1,5,6) assms(3) by (simp add: accept_event_def) blast
qed

section \<open>A run without interthread messages\<close>

lemma accepted_Cons:
  "accepted s e (t # ts) =
     (if t_close t then []
      else case found_event (t_poll t) e of
        None \<Rightarrow> accepted s e ts
      | Some fd \<Rightarrow> (if fd = s \<and> t_accept t \<noteq> - 1 then [t] else []) @ accepted s fd ts)"
  by (auto simp: accepted_def split: option.splits)

text \<open>What a run adds to the list and to the threads it has started.\<close>

definition serves :: "receiver \<Rightarrow> turn list \<Rightarrow> Connection list \<Rightarrow> receiver \<Rightarrow> bool" where
  "serves r acc cs r' \<longleftrightarrow> ready (connections r') (cs @ map conn_of acc) \<and>
     joined (connections r') = joined (connections r) \<and>
     map fst (started r') = map fst (started r) @ map t_new (filter (\<lambda>t. t_create t = 0) acc) \<and>
     (None \<notin> snd ` set (started r) \<longrightarrow> None \<notin> snd ` set (started r'))"

lemma serves_Nil: "ready (connections r) cs \<Longrightarrow> serves r [] cs r"
  by (simp add: serves_def)

lemma serves_event_fd: "serves (r\<lparr>event_fd := fd\<rparr>) acc cs r' = serves r acc cs r'"
  by (simp add: serves_def)

lemma serves_trans: "serves r acc cs r1 \<Longrightarrow> serves r1 acc' (cs @ map conn_of acc) r' \<Longrightarrow> serves r (acc @ acc') cs r'"
  by (auto simp: serves_def)

lemma accept_event_serves:
  assumes "ready (connections r) cs" "fresh_alloc (new_item env)"
  shows "\<exists>r'. accept_event env t r = Some (Inr r') \<and> event_fd r' = event_fd r \<and>
    serves r (if t_accept t \<noteq> - 1 then [t] else []) cs r'"
proof (cases "t_accept t = - 1")
  case True
  with assms(1) show ?thesis by (simp add: accept_event_def serves_Nil)
next
  case False
  obtain r' a where "accept_event env t r = Some (Inr r')" "ready (connections r') (cs @ [conn_of t])"
    "joined (connections r') = joined (connections r)" "event_fd r' = event_fd r"
    "started r' = started r @ (if t_create t = 0 then [(t_new t, Some a)] else [])"
    using accept_event_adds [OF assms False] by metis
  then show ?thesis
    using False by (intro exI [of _ r']) (auto simp: serves_def)
qed

lemma receiver_loop_serves:
  assumes "fresh_alloc (new_item env)"
  shows "ready (connections r) cs \<Longrightarrow> \<exists>t \<in> set ts. t_close t \<Longrightarrow>
    \<forall>(t, fd) \<in> set (served (event_fd r) ts). fd \<noteq> t_its t \<Longrightarrow>
    \<exists>r'. receiver_loop env ts r = Some (Inr r') \<and>
      serves r (accepted (socketFD env) (event_fd r) ts) cs r'"
proof (induction ts arbitrary: r cs)
  case Nil
  then show ?case by simp
next
  case (Cons t ts)
  show ?case
  proof (cases "t_close t")
    case True
    with Cons.prems(1) show ?thesis by (simp add: accepted_Cons serves_Nil)
  next
    case False
    with Cons.prems(2) have close: "\<exists>t \<in> set ts. t_close t" by simp
    show ?thesis
    proof (cases "found_event (t_poll t) (event_fd r)")
      case None
      with False Cons.IH [OF Cons.prems(1) close] Cons.prems(3) show ?thesis
        by (simp add: accepted_Cons)
    next
      case (Some fd)
      let ?r = "r\<lparr>event_fd := fd\<rparr>"
      from Some False Cons.prems(3) have its: "fd \<noteq> t_its t"
        and rest: "\<forall>(t, fd) \<in> set (served fd ts). fd \<noteq> t_its t" by auto
      show ?thesis
      proof (cases "fd = socketFD env")
        case True
        obtain r1 where r1: "accept_event env t ?r = Some (Inr r1)" "event_fd r1 = fd"
          "serves r (if t_accept t \<noteq> - 1 then [t] else []) cs r1"
          using accept_event_serves [of ?r cs env t] Cons.prems(1) assms
          by (auto simp: serves_event_fd)
        obtain r' where r': "receiver_loop env ts r1 = Some (Inr r')"
          "serves r1 (accepted (socketFD env) fd ts)
             (cs @ map conn_of (if t_accept t \<noteq> - 1 then [t] else [])) r'"
          using Cons.IH [of r1 "cs @ map conn_of (if t_accept t \<noteq> - 1 then [t] else [])"]
            close rest r1(2,3) by (auto simp: serves_def)
        have "accepted (socketFD env) (event_fd r) (t # ts)
            = (if t_accept t \<noteq> - 1 then [t] else []) @ accepted (socketFD env) fd ts"
          using False Some True by (simp add: accepted_Cons)
        then show ?thesis
          using serves_trans [OF r1(3) r'(2)] r'(1) r1(1) False Some True its by simp
      next
        case other: False
        with False Some its Cons.IH [of ?r cs] Cons.prems(1) close rest show ?thesis
          by (simp add: accepted_Cons serves_event_fd)
      qed
    qed
  qed
qed

section \<open>Reading from the interthread socket\<close>

lemma drain_no_message:
  "unat needed + n < 2 ^ 64 \<Longrightarrow> needed \<noteq> 0 \<Longrightarrow>
     drain needed p (replicate n NoMessage @ xs) = drain (needed + of_nat n) p xs"
proof (induction n arbitrary: needed)
  case (Suc n)
  have u: "unat (needed + 1) = Suc (unat needed)"
    using Suc.prems(1) by (simp add: unat_word_ariths)
  then have "needed + 1 \<noteq> 0" by (metis nat.distinct(1) unat_0)
  with Suc u show ?case by (simp add: add.assoc [symmetric])
qed simp

lemma interthread_event_never_stops:
  "interthread_event env t r = Some (Inr (stop, r')) \<Longrightarrow> \<not> stop"
  by (cases "drain 4 (message_address env) (t_arrivals t)";
      cases "the (drain 4 (message_address env) (t_arrivals t))";
      cases "CloseConnection (- 1) (connections r)";
      cases "the (CloseConnection (- 1) (connections r))")
     (auto simp: interthread_event_def)

lemma loop_needs_the_flag: "receiver_loop env ts r = Some (Inr r') \<Longrightarrow> \<exists>t \<in> set ts. t_close t"
proof (induction ts arbitrary: r)
  case (Cons t ts)
  let ?r = "\<lambda>fd. r\<lparr>event_fd := fd\<rparr>"
  show ?case
  proof (cases "t_close t")
    case False
    then consider (none) "found_event (t_poll t) (event_fd r) = None"
      | (its) fd where "found_event (t_poll t) (event_fd r) = Some fd" "fd = t_its t"
      | (acc) fd where "found_event (t_poll t) (event_fd r) = Some fd" "fd \<noteq> t_its t" "fd = socketFD env"
      | (other) fd where "found_event (t_poll t) (event_fd r) = Some fd" "fd \<noteq> t_its t" "fd \<noteq> socketFD env"
      by fastforce
    then obtain r1 where "receiver_loop env ts r1 = Some (Inr r')"
    proof cases
      case its
      with Cons.prems False show ?thesis
        by (cases "interthread_event env t (?r fd)"; cases "the (interthread_event env t (?r fd))")
           (auto intro: that dest: interthread_event_never_stops split: if_splits)
    next
      case acc
      with Cons.prems False show ?thesis
        by (cases "accept_event env t (?r fd)"; cases "the (accept_event env t (?r fd))")
           (auto intro: that)
    qed (use Cons.prems False in \<open>auto intro: that\<close>)
    with Cons.IH show ?thesis by auto
  qed simp
qed simp

section \<open>Properties\<close>


definition idle_turn :: turn where
  "idle_turn = \<lparr>t_close = False, t_poll = Timeout, t_its = 5, t_arrivals = [], t_accept = - 1,
     t_create = 0, t_new = 0\<rparr>"

definition demo_receiver :: receiver_env where
  "demo_receiver = \<lparr>new_item = (\<lambda>h. Some (next_free h)), socketFD = 3, message_address = replicate 8 CHR ''a''\<rparr>"

lemma demo_receiver_fresh: "fresh_alloc (new_item demo_receiver)"
  by (simp add: fresh_alloc_def demo_receiver_def next_free_fresh)


text \<open>
  The way out of the loop for the closing message is never taken, because the bytes of
  a message never reach the variable that is tested: whatever arrives on the interthread
  socket and whatever else happens, the thread returns only if \<open>closeRequested\<close> was set.
\<close>

theorem receiver_stops_only_on_flag:
  assumes "ConnectionReceiverThread env stack garbage its ts = Some (Inr r)"
  shows "\<exists>t \<in> set ts. t_close t"
proof -
  let ?r = "\<lparr>connections = InitConnectionList stack, watched = [socketFD env, its],
             event_fd = garbage, started = []\<rparr>"
  from assms obtain r1 where "receiver_loop env ts ?r = Some (Inr r1)"
    by (cases "receiver_loop env ts ?r"; cases "the (receiver_loop env ts ?r)")
       (auto simp: ConnectionReceiverThread_def Let_def)
  then show ?thesis by (rule loop_needs_the_flag)
qed

theorem receiver_stops_only_on_flag_witness:
  "\<exists>r. ConnectionReceiverThread demo_receiver fresh_list 0 5 [idle_turn\<lparr>t_close := True\<rparr>] = Some (Inr r) \<and>
     (\<exists>t \<in> set [idle_turn\<lparr>t_close := True\<rparr>]. t_close t)"
proof -
  have "destroy_loop fresh_list None = Some (Inr fresh_list)"
    by (simp add: destroy_loop.simps)
  then have "ConnectionReceiverThread demo_receiver fresh_list 0 5 [idle_turn\<lparr>t_close := True\<rparr>]
      = Some (Inr \<lparr>connections = mutex_destroy fresh_list, watched = [], event_fd = 0, started = []\<rparr>)"
    by (simp add: ConnectionReceiverThread_def Let_def DestroyConnectionList_def
        fresh_list_def InitConnectionList_def)
  with receiver_stops_only_on_flag [OF this] show ?thesis by blast
qed

text \<open>
  The four zero bytes of the closing message are taken for a request to close
  descriptor -1. With connections in the list nothing happens; when the list is empty it
  stays locked, and the next connection that is accepted hangs the receiver thread for good.
\<close>

theorem closing_message_locks_empty_list:
  assumes "length (message_address env) = 8" and "socketFD env \<noteq> t_its t"
    and "represents (connections r) []" and "m_mutex (connections r) = Unlocked"
    and "\<not> t_close t" and "t_poll t = Event (t_its t)" and "t_arrivals t = [Message (replicate 4 (CHR 0x00))]"
    and "\<not> t_close t'" and "t_poll t' = Event (socketFD env)" and "t_its t' = t_its t" and "t_accept t' \<noteq> - 1"
  shows "receiver_loop env (t # t' # ts) r = Some (Inl SelfDeadlock)"
proof -
  let ?r = "r\<lparr>event_fd := t_its t\<rparr>"
  let ?l = "(connections r)\<lparr>m_mutex := Locked\<rparr>"
  have "drain 4 (message_address env) (t_arrivals t)
      = Some (Inr (replicate 4 (CHR 0x00) @ drop 4 (message_address env)))"
    using assms(1,7) by (simp add: Let_def)
  then have "interthread_event env t ?r = Some (Inr (False, ?r\<lparr>connections := ?l\<rparr>))"
    using close_empty [OF assms(3,4)] by (simp add: interthread_event_def)
  moreover have "AddConnection new fd th ?l = Some (Inl SelfDeadlock)" for new fd th
    by (simp add: AddConnection_def mutex_lock_def)
  ultimately show ?thesis
    using assms(2,5,6,8-11) by (auto simp: found_event_def accept_event_def Let_def)
qed

theorem closing_message_locks_empty_list_witness:
  "\<exists>r. represents (connections r) [] \<and> receiver_loop demo_receiver
      [idle_turn\<lparr>t_poll := Event 5, t_arrivals := [Message (replicate 4 (CHR 0x00))]\<rparr>,
       idle_turn\<lparr>t_poll := Event 3, t_accept := 7\<rparr>] r = Some (Inl SelfDeadlock)"
  using closing_message_locks_empty_list
    [of demo_receiver "idle_turn\<lparr>t_poll := Event 5, t_arrivals := [Message (replicate 4 (CHR 0x00))]\<rparr>"
        "\<lparr>connections = fresh_list, watched = [3, 5], event_fd = 0, started = []\<rparr>"
        "idle_turn\<lparr>t_poll := Event 3, t_accept := 7\<rparr>" "[]"]
  by (intro exI [of _ "\<lparr>connections = fresh_list, watched = [3, 5], event_fd = 0, started = []\<rparr>"])
     (simp add: fresh_list_facts idle_turn_def demo_receiver_def)

text \<open>
  An event on the interthread socket with no message to read makes the loop spin: every
  failed \<open>recv\<close> raises the number of bytes still wanted by one, so it does not end while
  fewer than \<open>2 ^ 64 - 4\<close> of them fail; and after five or more failures a datagram of nine
  bytes is written past the end of the pointer that serves as the buffer.
\<close>

theorem drain_grows_on_failure:
  assumes "length messagePtr = 8" and "n < 2 ^ 64 - 4"
  shows "drain 4 messagePtr (replicate n NoMessage) = None \<and>
    (5 \<le> n \<longrightarrow> drain 4 messagePtr (replicate n NoMessage @ [Message (replicate 9 c)]) = Some (Inl OutOfBounds))"
proof -
  have n: "unat (4 :: size_t) + n < 2 ^ 64" using assms(2) by simp
  have u: "unat (4 + of_nat n :: size_t) = 4 + n"
    using n by (simp add: unat_word_ariths unat_of_nat)
  then have nz: "4 + of_nat n \<noteq> (0 :: size_t)" by (metis add_is_0 unat_0 zero_neq_numeral)
  have "drain 4 messagePtr (replicate n NoMessage @ xs) = drain (4 + of_nat n) messagePtr xs" for xs
    by (rule drain_no_message) (use n in simp_all)
  from this [of "[]"] this [of "[Message (replicate 9 c)]"] show ?thesis
    using nz u assms(1) by (simp add: min_def)
qed

theorem drain_grows_on_failure_witness:
  "drain 4 (replicate 8 CHR ''a'') (replicate 1000 NoMessage) = None \<and>
   drain 4 (replicate 8 CHR ''a'') (replicate 5 NoMessage @ [Message (replicate 9 CHR ''x'')]) = Some (Inl OutOfBounds)"
  using drain_grows_on_failure [of "replicate 8 CHR ''a''" 1000]
    drain_grows_on_failure [of "replicate 8 CHR ''a''" 5 "CHR ''x''"]
  by (simp del: drain.simps replicate.simps add: numeral_eq_Suc [symmetric])

end
