(* ===== verification/Sessions.thy ===== *)
theory Sessions
  imports Device_File Receiver
begin

text \<open>
  Whole connections: the receiver thread accepts, the handler thread serves lines over the
  driver until the peer closes. The definitions compose those of \<open>Receiver\<close>, \<open>Handler\<close> and
  \<open>Device_File\<close>; the lemmas put their contracts together.
\<close>

section \<open>One connection\<close>

text \<open>
  The handler thread for a peer that sends the lines \<open>ks\<close> one by one and then closes.
  \<open>stack1\<close> and \<open>stack2\<close> are what its two arrays hold at the start.
\<close>

definition serve :: "kernel_env \<Rightarrow> byte list \<Rightarrow> byte list \<Rightarrow> cint \<times> byte list list
    \<Rightarrow> (kstate \<times> struct_file) world \<Rightarrow> (kstate \<times> struct_file) world call" where
  "serve env stack1 stack2 = (\<lambda>(cfd, ks) w.
     bindO (ConnectionHandlerThread True (driver_ops env) cfd True stack1 stack2 (concat ks)
              (one_by_one ks @ [(Arrives 0, False)]) w)
       (\<lambda>(_, _, w). Some (Inr w)))"

text \<open>What was sent, byte by byte, with the connection each byte went to.\<close>

definition sent_bytes :: "(cint \<times> byte list) list \<Rightarrow> (cint \<times> byte) list" where
  "sent_bytes ss = concat (map (\<lambda>(fd, bs). map (Pair fd) bs) ss)"

text \<open>
  The specification: connections served one after another on a device that holds the lines
  \<open>ls\<close>; each line is answered with the whole content.
\<close>

fun answers :: "byte list list \<Rightarrow> (cint \<times> byte list list) list \<Rightarrow> (cint \<times> byte) list" where
  "answers ls [] = []"
| "answers ls ((cfd, ks) # ss) =
     map (Pair cfd) (concat (contents_after ls ks)) @ answers (keep_last 10 (ls @ ks)) ss"

lemma handler_loop_append:
  "handler_loop use_dev ops cfd evs hw = Some (Inr (Waiting, hw')) \<Longrightarrow>
     handler_loop use_dev ops cfd (evs @ evs') hw = handler_loop use_dev ops cfd evs' hw'"
proof (induction evs arbitrary: hw)
  case (Cons x evs)
  obtain ev b h w where x: "x = (ev, b)" "hw = (h, w)" by (cases x; cases hw)
  show ?case
  proof (cases ev)
    case (Arrives n)
    show ?thesis
    proof (cases "received n h = []")
      case True
      with Cons.prems x Arrives show ?thesis by simp
    next
      case False
      with Cons x Arrives show ?thesis
        by (cases "handler_chunk use_dev ops cfd n (h, w)"; cases "the (handler_chunk use_dev ops cfd n (h, w))")
           (auto split: if_splits)
    qed
  qed (use Cons x in \<open>auto split: if_splits\<close>)
qed simp

lemma sent_bytes_append [simp]: "sent_bytes (xs @ ys) = sent_bytes xs @ sent_bytes ys"
  by (simp add: sent_bytes_def)

lemma sent_bytes_one: "sent_bytes (map (Pair cfd) chunks) = map (Pair cfd) (concat chunks)"
  by (induction chunks) (simp_all add: sent_bytes_def)

lemma serve_session:
  assumes "device_shut env (target w) ls" "length ls \<le> 10" "\<not> FileMutex w"
    and "length stack1 = 400" "NUL \<in> set (drop m stack1)"
    and "\<forall>k \<in> set ks. plain k \<and> length k \<le> m"
  shows "\<exists>w'. serve env stack1 stack2 (cfd, ks) w = Some (Inr w') \<and>
    device_shut env (target w') (keep_last 10 (ls @ ks)) \<and> \<not> FileMutex w' \<and>
    closed w' = closed w @ [cfd] \<and>
    sent_bytes (sends w') = sent_bytes (sends w) @ map (Pair cfd) (concat (contents_after ls ks))"
proof -
  let ?h = "\<lparr>buffer = stack1, residual = stack2, residualSize = 0, lastCall = False, peer_input = concat ks\<rparr>"
  have h: "between_lines m ?h" "peer_input ?h = concat ks @ []"
    using assms(4,5) by (simp_all add: between_lines_def)
  obtain h' w1 chunks where r:
    "handler_loop True (driver_ops env) cfd (one_by_one ks) (?h, w) = Some (Inr (Waiting, h', w1))"
    "sends w1 = sends w @ map (Pair cfd) chunks" "concat chunks = concat (contents_after ls ks)"
    "device_shut env (target w1) (keep_last 10 (ls @ ks))" "peer_input h' = []"
    "\<not> FileMutex w1" "closed w1 = closed w"
    using driver.session [OF assms(1-3) h assms(6), of cfd] by blast
  have "received 0 h' = []" by (simp add: received_def)
  then have "serve env stack1 stack2 (cfd, ks) w = Some (Inr (w1\<lparr>closed := closed w1 @ [cfd]\<rparr>))"
    using handler_loop_append [OF r(1), of "[(Arrives 0, False)]"]
    by (simp add: serve_def ConnectionHandlerThread_def)
  with r show ?thesis
    by (intro exI [of _ "w1\<lparr>closed := closed w1 @ [cfd]\<rparr>"]) (simp add: sent_bytes_one)
qed

lemma serve_all_sessions:
  assumes "length stack1 = 400" "NUL \<in> set (drop m stack1)"
  shows "device_shut env (target w) ls \<Longrightarrow> length ls \<le> 10 \<Longrightarrow> \<not> FileMutex w \<Longrightarrow>
    \<forall>(cfd, ks) \<in> set ss. \<forall>k \<in> set ks. plain k \<and> length k \<le> m \<Longrightarrow>
    \<exists>w'. run_calls (serve env stack1 stack2) ss w = Some (Inr w') \<and>
      device_shut env (target w') (keep_last 10 (ls @ concat (map snd ss))) \<and> \<not> FileMutex w' \<and>
      closed w' = closed w @ map fst ss \<and> sent_bytes (sends w') = sent_bytes (sends w) @ answers ls ss"
proof (induction ss arbitrary: ls w)
  case Nil
  then show ?case by (simp add: keep_last_small)
next
  case (Cons s ss)
  obtain cfd ks where s: "s = (cfd, ks)" by (cases s)
  have plain: "\<forall>k \<in> set ks. plain k \<and> length k \<le> m" using Cons.prems(4) s by simp
  obtain w1 where w1: "serve env stack1 stack2 (cfd, ks) w = Some (Inr w1)"
    "device_shut env (target w1) (keep_last 10 (ls @ ks))" "\<not> FileMutex w1" "closed w1 = closed w @ [cfd]"
    "sent_bytes (sends w1) = sent_bytes (sends w) @ map (Pair cfd) (concat (contents_after ls ks))"
    using serve_session [OF Cons.prems(1-3) assms plain, of stack2 cfd] by blast
  obtain w' where "run_calls (serve env stack1 stack2) ss w1 = Some (Inr w')"
    "device_shut env (target w') (keep_last 10 (keep_last 10 (ls @ ks) @ concat (map snd ss)))" "\<not> FileMutex w'"
    "closed w' = closed w1 @ map fst ss"
    "sent_bytes (sends w') = sent_bytes (sends w1) @ answers (keep_last 10 (ls @ ks)) ss"
    using Cons.IH [OF w1(2) _ w1(3)] Cons.prems(4) by auto
  then show ?case
    using w1 s by (simp add: keep_last_append)
qed

end
