(* ===== verification/Runs.thy ===== *)
theory Runs
  imports Prelude
begin

text \<open>
  Systems that come to an end. Several components are state machines in which any of a
  number of threads makes the next step; what is proved of each is an invariant and a
  measure that every step lowers. That no run goes on for ever, and that every run can be
  continued to one that is over, follows here once for all of them.
\<close>

locale measured_system =
  fixes step :: "'s \<Rightarrow> 's \<Rightarrow> bool"
    and inv :: "'s \<Rightarrow> bool"
    and less :: "('m \<times> 'm) set"
    and left :: "'s \<Rightarrow> 'm"
  assumes wf_less: "wf less"
    and step_law: "inv s \<Longrightarrow> step s s' \<Longrightarrow> inv s' \<and> (left s', left s) \<in> less"
begin

lemma runs_keep: "step\<^sup>*\<^sup>* s s' \<Longrightarrow> inv s \<Longrightarrow> inv s'"
  by (induction rule: rtranclp_induct) (auto dest: step_law)

lemma no_infinite_run:
  assumes "inv s"
  shows "\<not> (\<exists>f. f 0 = s \<and> (\<forall>n. step (f n) (f (Suc n))))"
proof
  assume "\<exists>f. f 0 = s \<and> (\<forall>n. step (f n) (f (Suc n)))"
  then obtain f where f: "f 0 = s" "\<And>n. step (f n) (f (Suc n))" by blast
  have "inv (f n)" for n by (induction n) (use f assms step_law in auto)
  then have "(left (f (Suc n)), left (f n)) \<in> less" for n using step_law f(2) by blast
  then have "\<exists>g. \<forall>n. (g (Suc n), g n) \<in> less" by (intro exI [of _ "\<lambda>n. left (f n)"]) simp
  with wf_less show False unfolding wf_iff_no_infinite_down_chain by blast
qed

lemma comes_to_an_end: "inv s \<Longrightarrow> \<exists>s'. step\<^sup>*\<^sup>* s s' \<and> inv s' \<and> (\<forall>t. \<not> step s' t)"
proof (induction s rule: wf_induct_rule [OF wf_inv_image [OF wf_less, of left]])
  case (1 s)
  show ?case
  proof (cases "\<exists>t. step s t")
    case True
    then obtain t where t: "step s t" by blast
    with step_law [OF 1(2)] have "inv t" "(left t, left s) \<in> less" by auto
    with 1(1) [of t] obtain s' where "step\<^sup>*\<^sup>* t s'" "inv s'" "\<forall>t. \<not> step s' t" by auto
    with t show ?thesis by (meson converse_rtranclp_into_rtranclp)
  qed (use 1(2) in blast)
qed

end

end
