(* ===== verification/Concurrent.thy ===== *)
theory Concurrent
  imports Device_File Runs
begin

text \<open>
  Many handler threads of \<open>server/connectionHandlerThread.c\<close> at once on the one device. The
  body of the loop of the thread is cut at every point where another thread can run: after
  the \<open>open\<close>, at the mutex, after the \<open>write\<close>, after every \<open>read\<close> and \<open>send\<close>, after the
  unlock and after the \<open>close\<close>. Each connection has its own open file, the device and
  \<open>FileMutex\<close> are shared. Here every \<open>recv\<close> delivers one whole line, of at most the 400 bytes
  it asks for, so that nothing is left over between two of them; other pieces of input are
  the subject of \<open>Handler\<close>, with which the steps of one thread alone are proved to agree.
\<close>

section \<open>Threads\<close>

text \<open>What the thread does next.\<close>

datatype handler_place = H_Receive | H_Lock | H_Store | H_Echo | H_Unlock | H_Close

text \<open>
  \<open>h_todo\<close>: the line that is being handled, or that the next \<open>recv\<close> delivers, and those
  after it;
  \<open>h_file\<close>: the open file behind \<open>h_fileFD\<close>, with its position.
\<close>

record hthread =
  h_place :: handler_place
  h_todo :: "byte list list"
  h_buffer :: "byte list"
  h_fileFD :: cint
  h_file :: struct_file

text \<open>
  The shared state: the device, who holds \<open>FileMutex\<close>, the threads, what has been sent by
  which thread, and the lines in the order in which they were written.
\<close>

record service =
  device :: kstate
  lock_of :: "nat option"
  hthreads :: "nat \<rightharpoonup> hthread"
  sent :: "(nat \<times> byte list) list"
  stored :: "(nat \<times> byte list) list"

definition put_thread :: "nat \<Rightarrow> hthread \<Rightarrow> service \<Rightarrow> service" where
  "put_thread t h s = s\<lparr>hthreads := (hthreads s)(t \<mapsto> h)\<rparr>"

text \<open>\<open>recv\<close> delivers the line at the start of the buffer, and the file is opened.\<close>

definition receive_line :: "kernel_env \<Rightarrow> nat \<Rightarrow> hthread \<Rightarrow> byte list \<Rightarrow> service \<Rightarrow> service res" where
  "receive_line env t h k s =
     bindR (f_open (driver_ops env) (device s, h_file h)) (\<lambda>(fd, d, f).
       Inr (put_thread t (h\<lparr>h_buffer := k @ drop (length k) (h_buffer h), h_fileFD := fd,
                h_file := f, h_place := H_Lock\<rparr>) (s\<lparr>device := d\<rparr>)))"

definition store_line :: "kernel_env \<Rightarrow> nat \<Rightarrow> hthread \<Rightarrow> byte list \<Rightarrow> service \<Rightarrow> service res" where
  "store_line env t h k s =
     bindR (store_or_seek (driver_ops env) (h_buffer h) (length k) (h_fileFD h)
              \<lparr>target = (device s, h_file h), FileMutex = True, sends = [], closed = []\<rparr>) (\<lambda>w.
       Inr (put_thread t (h\<lparr>h_file := snd (target w), h_place := H_Echo\<rparr>)
              (s\<lparr>device := fst (target w), stored := stored s @ [(t, k)]\<rparr>)))"

definition echo_once :: "kernel_env \<Rightarrow> nat \<Rightarrow> hthread \<Rightarrow> service \<Rightarrow> service res" where
  "echo_once env t h s =
     bindR (f_read (driver_ops env) (h_fileFD h) 4096 (device s, h_file h)) (\<lambda>(r, bs, d, f).
       if 0 <s r
       then Inr (put_thread t (h\<lparr>h_file := f\<rparr>)
              (s\<lparr>device := d, sent := sent s @ [(t, take (unat r) bs)]\<rparr>))
       else Inr (put_thread t (h\<lparr>h_file := f, h_place := H_Unlock\<rparr>) (s\<lparr>device := d\<rparr>)))"

definition close_file :: "kernel_env \<Rightarrow> nat \<Rightarrow> hthread \<Rightarrow> service \<Rightarrow> service res" where
  "close_file env t h s =
     bindR (f_close (driver_ops env) (h_fileFD h) (device s, h_file h)) (\<lambda>(d, f).
       Inr (put_thread t (h\<lparr>h_file := f, h_place := H_Receive, h_todo := tl (h_todo h)\<rparr>)
              (s\<lparr>device := d\<rparr>)))"

text \<open>The next step of thread \<open>t\<close>; \<open>None\<close> when it waits for its peer or for the mutex.\<close>

definition handler_move :: "kernel_env \<Rightarrow> nat \<Rightarrow> service \<Rightarrow> service res option" where
  "handler_move env t s = (case hthreads s t of
     None \<Rightarrow> None
   | Some h \<Rightarrow>
       (case h_todo h of
          [] \<Rightarrow> None
        | k # _ \<Rightarrow>
            (case h_place h of
               H_Receive \<Rightarrow> Some (receive_line env t h k s)
             | H_Lock \<Rightarrow>
                 (case lock_of s of
                    None \<Rightarrow> Some (Inr (put_thread t (h\<lparr>h_place := H_Store\<rparr>) (s\<lparr>lock_of := Some t\<rparr>)))
                  | Some u \<Rightarrow> if u = t then Some (Inl SelfDeadlock) else None)
             | H_Store \<Rightarrow> Some (store_line env t h k s)
             | H_Echo \<Rightarrow> Some (echo_once env t h s)
             | H_Unlock \<Rightarrow> Some (Inr (put_thread t (h\<lparr>h_place := H_Close\<rparr>) (s\<lparr>lock_of := None\<rparr>)))
             | H_Close \<Rightarrow> Some (close_file env t h s))))"

inductive service_step :: "kernel_env \<Rightarrow> service \<Rightarrow> service \<Rightarrow> bool" for env where
  a_thread_moves: "handler_move env t s = Some (Inr s') \<Longrightarrow> service_step env s s'"

inductive_cases service_stepE: "service_step env s s'"

section \<open>Specification\<close>

text \<open>The lines of one thread, in the order of the log; the bytes it has sent.\<close>

definition lines_of :: "nat \<Rightarrow> (nat \<times> byte list) list \<Rightarrow> byte list list" where
  "lines_of t st = map snd (filter (\<lambda>(u, _). u = t) st)"

definition sent_by :: "nat \<Rightarrow> (nat \<times> byte list) list \<Rightarrow> byte list" where
  "sent_by t xs = concat (map snd (filter (\<lambda>(u, _). u = t) xs))"

text \<open>The content of a device with the lines \<open>ls\<close> after those of the log.\<close>

definition held :: "byte list list \<Rightarrow> (nat \<times> byte list) list \<Rightarrow> byte list list" where
  "held ls st = keep_last 10 (ls @ map snd st)"

text \<open>What thread \<open>t\<close> has to answer: the whole content as it is right after each of its lines.\<close>

fun answers_to :: "nat \<Rightarrow> byte list list \<Rightarrow> (nat \<times> byte list) list \<Rightarrow> byte list" where
  "answers_to t ls [] = []"
| "answers_to t ls ((u, k) # st) =
     (if u = t then concat (keep_last 10 (ls @ [k])) else []) @ answers_to t (keep_last 10 (ls @ [k])) st"

lemma held_snoc: "held ls (st @ [(u, k)]) = keep_last 10 (held ls st @ [k])"
  by (simp add: held_def keep_last_append)

lemma answers_to_snoc:
  "length ls \<le> 10 \<Longrightarrow> answers_to t ls (st @ [(u, k)]) =
     answers_to t ls st @ (if u = t then concat (held ls (st @ [(u, k)])) else [])"
proof (induction st arbitrary: ls)
  case Nil
  then show ?case by (simp add: held_def)
next
  case (Cons x st)
  obtain v l where x: "x = (v, l)" by (cases x)
  have "held (keep_last 10 (ls @ [l])) (st @ [(u, k)]) = held ls ((x # st) @ [(u, k)])"
    by (simp add: held_def x keep_last_append)
  with Cons.IH [of "keep_last 10 (ls @ [l])"] show ?case by (auto simp: x)
qed

lemma lines_of_snoc [simp]: "lines_of t (st @ [(u, k)]) = lines_of t st @ (if u = t then [k] else [])"
  by (simp add: lines_of_def)

lemma sent_by_snoc [simp]: "sent_by t (xs @ [(u, bs)]) = sent_by t xs @ (if u = t then bs else [])"
  by (simp add: sent_by_def)

section \<open>Invariant\<close>

definition critical :: "hthread \<Rightarrow> bool" where
  "critical h \<longleftrightarrow> h_place h = H_Store \<or> h_place h = H_Echo \<or> h_place h = H_Unlock"

text \<open>The lines that are not yet stored, and the part of the current answer that is not yet sent.\<close>

definition unstored :: "hthread \<Rightarrow> byte list list" where
  "unstored h = (if h_place h = H_Echo \<or> h_place h = H_Unlock \<or> h_place h = H_Close
                 then tl (h_todo h) else h_todo h)"

definition unsent :: "byte list list \<Rightarrow> hthread \<Rightarrow> byte list" where
  "unsent content h = (if h_place h = H_Echo then drop (unat (f_pos (h_file h))) (concat content) else [])"

definition thread_ok :: "nat \<Rightarrow> byte list list \<Rightarrow> service \<Rightarrow> service \<Rightarrow> nat \<Rightarrow> hthread \<Rightarrow> bool" where
  "thread_ok m ls s0 s t h \<longleftrightarrow>
     (critical h \<longleftrightarrow> lock_of s = Some t) \<and>
     (h_place h \<noteq> H_Receive \<longrightarrow> h_todo h \<noteq> [] \<and> private_data (h_file h) \<noteq> None \<and> unat (f_pos (h_file h)) < 2 ^ 32) \<and>
     (h_place h = H_Lock \<or> h_place h = H_Store \<longrightarrow> f_pos (h_file h) = 0 \<and>
        (\<exists>post. h_buffer h = hd (h_todo h) @ post \<and> NUL \<in> set post)) \<and>
     NUL \<in> set (drop m (h_buffer h)) \<and> (\<forall>k \<in> set (h_todo h). plain k \<and> length k \<le> m) \<and>
     lines_of t (stored s) @ unstored h = h_todo (the (hthreads s0 t)) \<and>
     sent_by t (sent s) @ unsent (held ls (stored s)) h = answers_to t ls (stored s)"

definition service_inv :: "kernel_env \<Rightarrow> nat \<Rightarrow> byte list list \<Rightarrow> service \<Rightarrow> service \<Rightarrow> bool" where
  "service_inv env m ls s0 s \<longleftrightarrow>
     device_holds env (device s) (held ls (stored s)) \<and> lseekPos (device s) = 0 \<and>
     dom (hthreads s) = dom (hthreads s0) \<and>
     (\<forall>t h. hthreads s t = Some h \<longrightarrow> thread_ok m ls s0 s t h) \<and>
     (\<forall>t. lock_of s = Some t \<longrightarrow> t \<in> dom (hthreads s))"

text \<open>The start: the device is closed, the mutex free, every thread waits for its first line.\<close>

definition service_start :: "kernel_env \<Rightarrow> nat \<Rightarrow> byte list list \<Rightarrow> service \<Rightarrow> bool" where
  "service_start env m ls s \<longleftrightarrow>
     device_holds env (device s) ls \<and> lseekPos (device s) = 0 \<and> length ls \<le> 10 \<and>
     lock_of s = None \<and> sent s = [] \<and> stored s = [] \<and> finite (dom (hthreads s)) \<and>
     (\<forall>t h. hthreads s t = Some h \<longrightarrow> h_place h = H_Receive \<and> NUL \<in> set (drop m (h_buffer h)) \<and>
        (\<forall>k \<in> set (h_todo h). plain k \<and> length k \<le> m))"

lemma service_start_inv: "service_start env m ls s \<Longrightarrow> service_inv env m ls s s"
  by (auto simp: service_start_def service_inv_def thread_ok_def critical_def unstored_def unsent_def
      held_def lines_of_def sent_by_def keep_last_small)

lemma thread_ok_frame:
  assumes "thread_ok m ls s0 s u h" "lock_of s' = Some u \<longleftrightarrow> lock_of s = Some u"
    and "lines_of u (stored s') = lines_of u (stored s)" "sent_by u (sent s') = sent_by u (sent s)"
    and "answers_to u ls (stored s') = answers_to u ls (stored s)"
    and "h_place h = H_Echo \<Longrightarrow> held ls (stored s') = held ls (stored s)"
  shows "thread_ok m ls s0 s' u h"
proof -
  have "unsent (held ls (stored s')) h = unsent (held ls (stored s)) h"
    using assms(6) by (simp add: unsent_def)
  with assms(1-5) show ?thesis unfolding thread_ok_def by simp
qed

text \<open>A step of \<open>t\<close> that leaves the log alone, or is done under the lock.\<close>

lemma service_inv_update:
  assumes "service_inv env m ls s0 s" "hthreads s t = Some h"
    and "hthreads s' = (hthreads s)(t \<mapsto> h')"
    and "device_holds env (device s') (held ls (stored s'))" "lseekPos (device s') = 0"
    and "thread_ok m ls s0 s' t h'"
    and "\<And>u. u \<noteq> t \<Longrightarrow> lock_of s' = Some u \<longleftrightarrow> lock_of s = Some u"
    and "\<And>u. u \<noteq> t \<Longrightarrow> sent_by u (sent s') = sent_by u (sent s)"
    and "stored s' = stored s \<or> (length ls \<le> 10 \<and> lock_of s = Some t \<and> (\<exists>k. stored s' = stored s @ [(t, k)]))"
  shows "service_inv env m ls s0 s'"
proof -
  have "thread_ok m ls s0 s' u g" if u: "hthreads s u = Some g" "u \<noteq> t" for u g
  proof (rule thread_ok_frame)
    show ok: "thread_ok m ls s0 s u g" using assms(1) u(1) by (simp add: service_inv_def)
    show "lines_of u (stored s') = lines_of u (stored s)"
      "answers_to u ls (stored s') = answers_to u ls (stored s)"
      using assms(9) u(2) by (auto simp: answers_to_snoc)
    show "held ls (stored s') = held ls (stored s)" if "h_place g = H_Echo"
    proof -
      have "lock_of s = Some u" using ok that by (simp add: thread_ok_def critical_def)
      with u(2) assms(9) show ?thesis by auto
    qed
  qed (use assms(7,8) u(2) in simp_all)
  moreover have "lock_of s' = Some u \<Longrightarrow> u \<in> dom (hthreads s')" for u
    using assms(1,2,3,7) by (cases "u = t") (auto simp: service_inv_def)
  moreover have "dom (hthreads s') = dom (hthreads s0)"
    using assms(1-3) by (auto simp: service_inv_def)
  ultimately show ?thesis
    using assms(3-6) unfolding service_inv_def by (auto split: if_splits)
qed

section \<open>The steps of one thread\<close>

lemma device_openD:
  "device_open env (d, f) L fp 0 \<Longrightarrow>
     device_holds env d L \<and> lseekPos d = 0 \<and> private_data f \<noteq> None \<and> unat (f_pos f) = fp \<and> fp < 2 ^ 32"
  by (simp add: unat_eq_zero)

lemma service_openI:
  assumes "service_inv env m ls s0 s" "hthreads s t = Some h" "h_place h \<noteq> H_Receive"
  shows "device_open env (device s, h_file h) (held ls (stored s)) (unat (f_pos (h_file h))) 0"
  using assms by (auto simp: service_inv_def thread_ok_def)

lemma service_line:
  assumes "service_inv env m ls s0 s" "hthreads s t = Some h" "h_todo h = k # ks"
  shows "plain k" "is_line k" "length k \<le> m" "length k \<le> 400"
proof -
  have "plain k \<and> length k \<le> m" using assms by (auto simp: service_inv_def thread_ok_def)
  then show "plain k" "is_line k" "length k \<le> m" "length k \<le> 400"
    by (simp_all add: plain_def is_line_def)
qed

lemma receive_ok:
  assumes inv: "service_inv env m ls s0 s" and h: "hthreads s t = Some h" "h_todo h = k # ks"
    and pl: "h_place h = H_Receive"
  shows "\<exists>s'. receive_line env t h k s = Inr s' \<and> service_inv env m ls s0 s'"
proof -
  have ok: "thread_ok m ls s0 s t h" using inv h(1) by (simp add: service_inv_def)
  have "device_shut env (device s, h_file h) (held ls (stored s))"
    using inv by (simp add: service_inv_def)
  then obtain fd d f where f: "f_open (driver_ops env) (device s, h_file h) = Inr (fd, d, f)"
    "device_open env (d, f) (held ls (stored s)) 0 0"
    using driver.open_law by (metis surj_pair)
  note d = device_openD [OF f(2)]
  let ?h = "h\<lparr>h_buffer := k @ drop (length k) (h_buffer h), h_fileFD := fd, h_file := f, h_place := H_Lock\<rparr>"
  let ?s = "put_thread t ?h (s\<lparr>device := d\<rparr>)"
  have k: "length k \<le> m" by (rule service_line [OF inv h])
  have nul: "NUL \<in> set (drop m (h_buffer h))" using ok by (simp add: thread_ok_def)
  have "drop m (k @ drop (length k) (h_buffer h)) = drop m (h_buffer h)"
    using k by simp
  moreover have "NUL \<in> set (drop (length k) (h_buffer h))" by (rule NUL_before [OF nul k])
  ultimately have "thread_ok m ls s0 ?s t ?h"
    using ok pl d h(2) nul
    by (auto simp: thread_ok_def put_thread_def critical_def unstored_def unsent_def unat_eq_zero)
  then have "service_inv env m ls s0 ?s"
    by (intro service_inv_update [OF inv h(1)]) (use d in \<open>simp_all add: put_thread_def\<close>)
  with f(1) show ?thesis by (simp add: receive_line_def)
qed

lemma store_ok:
  assumes inv: "service_inv env m ls s0 s" and h: "hthreads s t = Some h" "h_todo h = k # ks"
    and pl: "h_place h = H_Store" and small: "length ls \<le> 10"
  shows "\<exists>s'. store_line env t h k s = Inr s' \<and> service_inv env m ls s0 s'"
proof -
  have ok: "thread_ok m ls s0 s t h" using inv h(1) by (simp add: service_inv_def)
  then obtain post where post: "h_buffer h = k @ post" "NUL \<in> set post" "f_pos (h_file h) = 0"
    using pl h(2) by (auto simp: thread_ok_def)
  have op: "device_open env (device s, h_file h) (held ls (stored s)) 0 0"
    using service_openI [OF inv h(1)] pl post(3) by simp
  obtain d f where w: "f_write (driver_ops env) (h_fileFD h) k (device s, h_file h) = Inr (of_nat (length k), d, f)"
    "device_open env (d, f) (keep_last 10 (held ls (stored s) @ [k])) 0 0"
    using driver.write_law [OF op service_line(2) [OF inv h]] by (metis surj_pair)
  note d = device_openD [OF w(2)]
  let ?h = "h\<lparr>h_file := f, h_place := H_Echo\<rparr>"
  let ?s = "put_thread t ?h (s\<lparr>device := d, stored := stored s @ [(t, k)]\<rparr>)"
  have st: "store_or_seek (driver_ops env) (h_buffer h) (length k) (h_fileFD h)
      \<lparr>target = (device s, h_file h), FileMutex = True, sends = [], closed = []\<rparr>
      = Inr \<lparr>target = (d, f), FileMutex = True, sends = [], closed = []\<rparr>"
    using w(1) written_fits [OF service_line(4) [OF inv h]]
    by (simp add: store_or_seek_def post(1) plain_not_seek [OF service_line(1) [OF inv h] post(2)])
  have "thread_ok m ls s0 ?s t ?h"
    using ok pl d h(2) small
    by (auto simp: thread_ok_def put_thread_def critical_def unstored_def unsent_def unat_eq_zero
        answers_to_snoc held_snoc)
  moreover have "lock_of s = Some t" using ok pl by (simp add: thread_ok_def critical_def)
  ultimately have "service_inv env m ls s0 ?s"
    by (intro service_inv_update [OF inv h(1)]) (use d small in \<open>simp_all add: put_thread_def held_snoc\<close>)
  with st show ?thesis by (simp add: store_line_def)
qed

text \<open>One turn of the read loop: it sends something, or it is at the end.\<close>

lemma echo_ok:
  assumes inv: "service_inv env m ls s0 s" and h: "hthreads s t = Some h" "h_todo h = k # ks"
    and pl: "h_place h = H_Echo"
  shows "\<exists>s' f' bs. echo_once env t h s = Inr s' \<and> service_inv env m ls s0 s' \<and> stored s' = stored s \<and>
    lock_of s' = lock_of s \<and>
    hthreads s' = (hthreads s)(t \<mapsto> h\<lparr>h_file := f', h_place := if bs = [] then H_Unlock else H_Echo\<rparr>) \<and>
    unsent (held ls (stored s)) h = bs @ drop (unat (f_pos f')) (concat (held ls (stored s)))"
proof -
  let ?L = "held ls (stored s)"
  let ?fp = "unat (f_pos (h_file h))"
  have ok: "thread_ok m ls s0 s t h" using inv h(1) by (simp add: service_inv_def)
  have op: "device_open env (device s, h_file h) ?L ?fp 0"
    using service_openI [OF inv h(1)] pl by simp
  obtain bs d f where r: "f_read (driver_ops env) (h_fileFD h) 4096 (device s, h_file h)
      = Inr (of_nat (length bs), bs, d, f)" "device_open env (d, f) ?L (?fp + length bs) 0"
    "length bs \<le> 4096" "bs = take (length bs) (drop ?fp (concat ?L))" "bs = [] \<longleftrightarrow> length (concat ?L) \<le> ?fp"
    using driver.read_law [OF op] by (metis add.right_neutral surj_pair)
  note d = device_openD [OF r(2)]
  have rest: "drop ?fp (concat ?L) = bs @ drop (?fp + length bs) (concat ?L)"
    using r(4) by (metis append_take_drop_id add.commute drop_drop)
  have un: "unat (of_nat (length bs) :: ssize_t) = length bs"
    using r(3) by (intro unat_of_nat_64) simp
  have pos: "0 <s (of_nat (length bs) :: ssize_t) \<longleftrightarrow> bs \<noteq> []"
    using r(3) un by (simp add: word_sless_alt sint_eq_unat_64)
  let ?h = "h\<lparr>h_file := f, h_place := if bs = [] then H_Unlock else H_Echo\<rparr>"
  let ?s = "put_thread t ?h (s\<lparr>device := d,
      sent := if bs = [] then sent s else sent s @ [(t, bs)]\<rparr>)"
  have "thread_ok m ls s0 ?s t ?h"
  proof (cases "bs = []")
    case True
    with r(5) have "drop ?fp (concat ?L) = []" by simp
    with True ok pl d h(2) show ?thesis
      by (auto simp: thread_ok_def put_thread_def critical_def unstored_def unsent_def)
  next
    case False
    with ok pl d h(2) rest show ?thesis
      by (simp add: thread_ok_def put_thread_def critical_def unstored_def unsent_def)
  qed
  then have "service_inv env m ls s0 ?s"
    by (intro service_inv_update [OF inv h(1)])
       (use d in \<open>auto simp: put_thread_def\<close>)
  moreover have "h\<lparr>h_file := f, h_place := H_Echo\<rparr> = h\<lparr>h_file := f\<rparr>" using pl by (cases h) simp
  then have "echo_once env t h s = Inr ?s"
    using r(1) un pos by (simp add: echo_once_def)
  ultimately show ?thesis
    using d rest pl
    by (intro exI [of _ ?s] exI [of _ f] exI [of _ bs]) (simp add: put_thread_def unsent_def)
qed

lemma close_ok:
  assumes inv: "service_inv env m ls s0 s" and h: "hthreads s t = Some h" "h_todo h = k # ks"
    and pl: "h_place h = H_Close"
  shows "\<exists>s'. close_file env t h s = Inr s' \<and> service_inv env m ls s0 s'"
proof -
  have ok: "thread_ok m ls s0 s t h" using inv h(1) by (simp add: service_inv_def)
  have op: "device_open env (device s, h_file h) (held ls (stored s)) (unat (f_pos (h_file h))) 0"
    using service_openI [OF inv h(1)] pl by simp
  obtain d f where c: "f_close (driver_ops env) (h_fileFD h) (device s, h_file h) = Inr (d, f)"
    "device_shut env (d, f) (held ls (stored s))"
    using driver.close_law [OF op] by (metis surj_pair)
  let ?h = "h\<lparr>h_file := f, h_place := H_Receive, h_todo := tl (h_todo h)\<rparr>"
  let ?s = "put_thread t ?h (s\<lparr>device := d\<rparr>)"
  have "thread_ok m ls s0 ?s t ?h"
    using ok pl h(2)
    by (auto simp: thread_ok_def put_thread_def critical_def unstored_def unsent_def)
  then have "service_inv env m ls s0 ?s"
    by (intro service_inv_update [OF inv h(1)]) (use c(2) in \<open>simp_all add: put_thread_def\<close>)
  with c(1) show ?thesis by (simp add: close_file_def)
qed

lemma lock_ok:
  assumes inv: "service_inv env m ls s0 s" and h: "hthreads s t = Some h" "h_todo h = k # ks"
  shows "h_place h = H_Lock \<Longrightarrow> lock_of s = None \<Longrightarrow>
      service_inv env m ls s0 (put_thread t (h\<lparr>h_place := H_Store\<rparr>) (s\<lparr>lock_of := Some t\<rparr>))"
    and "h_place h = H_Unlock \<Longrightarrow>
      service_inv env m ls s0 (put_thread t (h\<lparr>h_place := H_Close\<rparr>) (s\<lparr>lock_of := None\<rparr>))"
proof -
  have ok: "thread_ok m ls s0 s t h" using inv h(1) by (simp add: service_inv_def)
  show "service_inv env m ls s0 (put_thread t (h\<lparr>h_place := H_Store\<rparr>) (s\<lparr>lock_of := Some t\<rparr>))"
    if "h_place h = H_Lock" "lock_of s = None"
    by (intro service_inv_update [OF inv h(1)])
       (use inv ok that in \<open>auto simp: service_inv_def thread_ok_def put_thread_def critical_def unstored_def unsent_def\<close>)
  show "service_inv env m ls s0 (put_thread t (h\<lparr>h_place := H_Close\<rparr>) (s\<lparr>lock_of := None\<rparr>))"
    if "h_place h = H_Unlock"
    by (intro service_inv_update [OF inv h(1)])
       (use inv ok that in \<open>auto simp: service_inv_def thread_ok_def put_thread_def critical_def unstored_def unsent_def\<close>)
qed

lemma service_holder:
  "service_inv env m ls s0 s \<Longrightarrow> hthreads s t = Some h \<Longrightarrow> critical h \<longleftrightarrow> lock_of s = Some t"
  unfolding service_inv_def thread_ok_def by blast

lemma service_busy: "service_inv env m ls s0 s \<Longrightarrow> hthreads s t = Some h \<Longrightarrow> critical h \<Longrightarrow> h_todo h \<noteq> []"
proof -
  assume "service_inv env m ls s0 s" "hthreads s t = Some h"
  then have "thread_ok m ls s0 s t h" by (simp add: service_inv_def)
  then show "critical h \<Longrightarrow> h_todo h \<noteq> []" by (auto simp: thread_ok_def critical_def)
qed

section \<open>Runs\<close>

text \<open>
  A measure for termination: the steps every thread has still to make, and the bytes that
  the thread in the read loop has still to send.
\<close>

primrec place_rank :: "handler_place \<Rightarrow> nat" where
  "place_rank H_Receive = 5"
| "place_rank H_Lock = 4"
| "place_rank H_Store = 3"
| "place_rank H_Echo = 2"
| "place_rank H_Unlock = 1"
| "place_rank H_Close = 0"

definition steps_left :: "hthread \<Rightarrow> nat" where
  "steps_left h = 6 * length (tl (h_todo h)) + (if h_todo h = [] then 0 else Suc (place_rank (h_place h)))"

definition all_steps :: "service \<Rightarrow> nat" where
  "all_steps s = (\<Sum>t \<in> dom (hthreads s). steps_left (the (hthreads s t)))"

definition bytes_left :: "byte list list \<Rightarrow> service \<Rightarrow> nat" where
  "bytes_left ls s = (case lock_of s of None \<Rightarrow> 0
     | Some t \<Rightarrow> length (unsent (held ls (stored s)) (the (hthreads s t))))"

lemma all_steps_less:
  assumes "finite (dom (hthreads s))" "hthreads s t = Some h" "hthreads s' = (hthreads s)(t \<mapsto> h')"
    and "steps_left h' < steps_left h"
  shows "all_steps s' < all_steps s"
proof -
  have "dom (hthreads s') = dom (hthreads s)" using assms(2,3) by auto
  moreover have "(\<Sum>u \<in> dom (hthreads s). steps_left (the (hthreads s' u)))
      < (\<Sum>u \<in> dom (hthreads s). steps_left (the (hthreads s u)))"
    by (rule sum_strict_mono_ex1) (use assms in \<open>auto simp: assms(3)\<close>)
  ultimately show ?thesis by (simp add: all_steps_def)
qed

definition nearer :: "(service \<Rightarrow> nat) \<Rightarrow> service \<Rightarrow> service \<Rightarrow> bool" where
  "nearer ahead s' s \<longleftrightarrow> ((all_steps s', ahead s'), (all_steps s, ahead s)) \<in> less_than <*lex*> less_than"

text \<open>
  What an invariant has to say about each place of a handler for every move to keep it,
  never to fault and to come nearer to the end; \<open>ahead\<close> bounds what the read loop can still
  send.
\<close>

locale handler_steps =
  fixes env :: kernel_env
    and keeps :: "service \<Rightarrow> bool"
    and ahead :: "service \<Rightarrow> nat"
  assumes state_law: "keeps s \<Longrightarrow> finite (dom (hthreads s)) \<and> (\<forall>t. lock_of s = Some t \<longrightarrow> t \<in> dom (hthreads s))"
    and thread_law: "keeps s \<Longrightarrow> hthreads s t = Some h \<Longrightarrow>
      (critical h \<longleftrightarrow> lock_of s = Some t) \<and> (critical h \<longrightarrow> h_todo h \<noteq> [])"
    and receive_law: "keeps s \<Longrightarrow> hthreads s t = Some h \<Longrightarrow> h_todo h = k # ks \<Longrightarrow> h_place h = H_Receive \<Longrightarrow>
      \<exists>s'. receive_line env t h k s = Inr s' \<and> keeps s'"
    and lock_law: "keeps s \<Longrightarrow> hthreads s t = Some h \<Longrightarrow> h_todo h = k # ks \<Longrightarrow> h_place h = H_Lock \<Longrightarrow>
      lock_of s = None \<Longrightarrow> keeps (put_thread t (h\<lparr>h_place := H_Store\<rparr>) (s\<lparr>lock_of := Some t\<rparr>))"
    and store_law: "keeps s \<Longrightarrow> hthreads s t = Some h \<Longrightarrow> h_todo h = k # ks \<Longrightarrow> h_place h = H_Store \<Longrightarrow>
      \<exists>s'. store_line env t h k s = Inr s' \<and> keeps s'"
    and echo_law: "keeps s \<Longrightarrow> hthreads s t = Some h \<Longrightarrow> h_todo h = k # ks \<Longrightarrow> h_place h = H_Echo \<Longrightarrow>
      \<exists>s' f' bs. echo_once env t h s = Inr s' \<and> keeps s' \<and>
        hthreads s' = (hthreads s)(t \<mapsto> h\<lparr>h_file := f', h_place := if bs = [] then H_Unlock else H_Echo\<rparr>) \<and>
        ((bs :: byte list) \<noteq> [] \<longrightarrow> ahead s' < ahead s)"
    and unlock_law: "keeps s \<Longrightarrow> hthreads s t = Some h \<Longrightarrow> h_todo h = k # ks \<Longrightarrow> h_place h = H_Unlock \<Longrightarrow>
      keeps (put_thread t (h\<lparr>h_place := H_Close\<rparr>) (s\<lparr>lock_of := None\<rparr>))"
    and close_law: "keeps s \<Longrightarrow> hthreads s t = Some h \<Longrightarrow> h_todo h = k # ks \<Longrightarrow> h_place h = H_Close \<Longrightarrow>
      \<exists>s'. close_file env t h s = Inr s' \<and> keeps s'"
begin

lemma nearerI:
  "keeps s \<Longrightarrow> hthreads s t = Some h \<Longrightarrow> hthreads s' = (hthreads s)(t \<mapsto> h') \<Longrightarrow> steps_left h' < steps_left h \<Longrightarrow>
     nearer ahead s' s"
  using state_law all_steps_less by (simp add: nearer_def)

lemma echo_nearer:
  assumes "keeps s" "hthreads s t = Some h" "h_todo h = k # ks" "h_place h = H_Echo"
  shows "\<exists>s'. echo_once env t h s = Inr s' \<and> keeps s' \<and> nearer ahead s' s"
proof -
  obtain s' f' bs where e: "echo_once env t h s = Inr s'" "keeps s'"
    "hthreads s' = (hthreads s)(t \<mapsto> h\<lparr>h_file := f', h_place := if (bs :: byte list) = [] then H_Unlock else H_Echo\<rparr>)"
    "bs \<noteq> [] \<longrightarrow> ahead s' < ahead s"
    using echo_law [OF assms] by (elim exE conjE) (rule that)
  have "nearer ahead s' s"
  proof (cases "bs = []")
    case True
    with assms e(3) show ?thesis by (intro nearerI) (auto simp: steps_left_def)
  next
    case False
    have "dom (hthreads s') = dom (hthreads s)" using e(3) assms(2) by auto
    moreover have "steps_left (the (hthreads s' u)) = steps_left (the (hthreads s u))" for u
      using e(3) assms(2-4) False by (simp add: steps_left_def)
    ultimately show ?thesis using e(4) False by (simp add: nearer_def all_steps_def)
  qed
  with e(1,2) show ?thesis by blast
qed

lemma moves:
  assumes inv: "keeps s" and move: "handler_move env t s = Some r"
  shows "\<exists>s'. r = Inr s' \<and> keeps s' \<and> nearer ahead s' s"
proof -
  obtain h k ks where h: "hthreads s t = Some h" "h_todo h = k # ks"
    using move by (auto simp: handler_move_def split: option.splits list.splits)
  note near = nearerI [OF inv h(1)]
  note defs = handler_move_def bindR_Inr_iff put_thread_def steps_left_def
  show ?thesis
  proof (cases "h_place h")
    case H_Receive
    with receive_law [OF inv h] obtain s' where "receive_line env t h k s = Inr s'" "keeps s'" by blast
    with move h H_Receive near [of s'] show ?thesis by (auto simp: defs receive_line_def)
  next
    case H_Lock
    have "lock_of s \<noteq> Some t" using thread_law [OF inv h(1)] H_Lock by (simp add: critical_def)
    then have free: "lock_of s = None" "r = Inr (put_thread t (h\<lparr>h_place := H_Store\<rparr>) (s\<lparr>lock_of := Some t\<rparr>))"
      using move h H_Lock by (auto simp: handler_move_def split: option.splits if_splits)
    with lock_law [OF inv h H_Lock] h H_Lock near [of "put_thread t (h\<lparr>h_place := H_Store\<rparr>) (s\<lparr>lock_of := Some t\<rparr>)"]
    show ?thesis by (simp add: put_thread_def steps_left_def)
  next
    case H_Store
    with store_law [OF inv h] obtain s' where "store_line env t h k s = Inr s'" "keeps s'" by blast
    with move h H_Store near [of s'] show ?thesis by (auto simp: defs store_line_def)
  next
    case H_Echo
    from echo_nearer [OF inv h H_Echo] move h H_Echo show ?thesis by (auto simp: handler_move_def)
  next
    case H_Unlock
    with unlock_law [OF inv h H_Unlock] move h near [of "put_thread t (h\<lparr>h_place := H_Close\<rparr>) (s\<lparr>lock_of := None\<rparr>)"]
    show ?thesis by (auto simp: defs)
  next
    case H_Close
    with close_law [OF inv h] obtain s' where "close_file env t h s = Inr s'" "keeps s'" by blast
    with move h H_Close near [of s'] show ?thesis by (cases ks) (auto simp: defs close_file_def)
  qed
qed

lemma never_faults: "keeps s \<Longrightarrow> handler_move env t s \<noteq> Some (Inl e)"
  using moves [of s t "Inl e"] by auto

text \<open>When no thread can move, none is inside and none has a line left.\<close>

lemma all_served:
  assumes inv: "keeps s" and stuck: "\<And>t. handler_move env t s = None" and h: "hthreads s t = Some h"
  shows "h_todo h = [] \<and> lock_of s = None"
proof -
  have in_lock: "h_place g = H_Lock" if "hthreads s u = Some g" "h_todo g \<noteq> []" for u g
    using that stuck [of u] by (auto simp: handler_move_def split: list.splits handler_place.splits)
  have free: "lock_of s = None"
  proof (rule ccontr)
    assume "lock_of s \<noteq> None"
    then obtain u g where g: "lock_of s = Some u" "hthreads s u = Some g" using state_law [OF inv] by auto
    with thread_law [OF inv g(2)] in_lock [OF g(2)] show False by (auto simp: critical_def)
  qed
  have "h_todo h = []"
  proof (rule ccontr)
    assume ne: "h_todo h \<noteq> []"
    with in_lock [OF h ne] free stuck [of t] h show False
      by (auto simp: handler_move_def split: list.splits)
  qed
  with free show ?thesis by simp
qed

end

sublocale handler_steps \<subseteq> measured_system "service_step env" keeps "less_than <*lex*> less_than" "\<lambda>s. (all_steps s, ahead s)"
proof unfold_locales
  fix s s'
  assume "keeps s" "service_step env s s'"
  with moves show "keeps s' \<and> ((all_steps s', ahead s'), (all_steps s, ahead s)) \<in> less_than <*lex*> less_than"
    by (fastforce simp: nearer_def elim: service_stepE)
qed (simp add: wf_lex_prod)

text \<open>The invariant of the lines has it.\<close>

lemma echo_shortens:
  assumes inv: "service_inv env m ls s0 s" and h: "hthreads s t = Some h" "h_todo h = k # ks"
    and pl: "h_place h = H_Echo"
  shows "\<exists>s' f' bs. echo_once env t h s = Inr s' \<and> service_inv env m ls s0 s' \<and>
    hthreads s' = (hthreads s)(t \<mapsto> h\<lparr>h_file := f', h_place := if bs = [] then H_Unlock else H_Echo\<rparr>) \<and>
    ((bs :: byte list) \<noteq> [] \<longrightarrow> bytes_left ls s' < bytes_left ls s)"
proof -
  have "lock_of s = Some t" using service_holder [OF inv h(1)] pl by (simp add: critical_def)
  then show ?thesis
    using echo_ok [OF inv h pl]
  proof (elim exE conjE, goal_cases)
    case e: (1 s' f' bs)
    have "bs \<noteq> [] \<longrightarrow> bytes_left ls s' < bytes_left ls s"
      using e h(1) by (simp add: bytes_left_def unsent_def)
    with e show ?thesis by blast
  qed
qed

interpretation serving: handler_steps env
    "\<lambda>s. service_inv env m ls s0 s \<and> length ls \<le> 10 \<and> finite (dom (hthreads s0))" "bytes_left ls" for env m ls s0
proof (unfold_locales, goal_cases)
  case 1 then show ?case unfolding service_inv_def by (elim conjE) simp
next
  case 2 then show ?case using service_holder service_busy by blast
next
  case 3 then show ?case using receive_ok by blast
next
  case 4 then show ?case using lock_ok(1) by blast
next
  case 5 then show ?case using store_ok by blast
next
  case 6 then show ?case using echo_shortens by blast
next
  case 7 then show ?case using lock_ok(2) by blast
next
  case 8 then show ?case using close_ok by blast
qed

lemma service_run_inv:
  assumes "service_start env m ls s0" "(service_step env)\<^sup>*\<^sup>* s0 s"
  shows "service_inv env m ls s0 s \<and> length ls \<le> 10 \<and> finite (dom (hthreads s0))"
  using serving.runs_keep [OF assms(2), of m ls s0] service_start_inv [OF assms(1)] assms(1)
  by (simp add: service_start_def)

section \<open>One thread alone\<close>

lemma stepI: "handler_move env t s = Some (Inr s') \<Longrightarrow> (service_step env)\<^sup>*\<^sup>* s s'"
  by (rule r_into_rtranclp, rule service_step.intros)

text \<open>Thread \<open>t\<close>, in the read loop in the state \<open>s\<close>, gets to the end of it as \<open>w\<close> gets to \<open>w'\<close>.\<close>

definition echoes_as ::
    "kernel_env \<Rightarrow> nat \<Rightarrow> cint \<Rightarrow> (kstate \<times> struct_file) world \<Rightarrow> (kstate \<times> struct_file) world
      \<Rightarrow> hthread \<Rightarrow> service \<Rightarrow> bool" where
  "echoes_as env t cfd w w' h s \<longleftrightarrow> (\<exists>s' chunks. (service_step env)\<^sup>*\<^sup>* s s' \<and>
     hthreads s' = (hthreads s)(t \<mapsto> h\<lparr>h_file := snd (target w'), h_place := H_Unlock\<rparr>) \<and>
     device s' = fst (target w') \<and> lock_of s' = lock_of s \<and> stored s' = stored s \<and>
     sent s' = sent s @ map (Pair t) chunks \<and> sends w' = sends w @ map (Pair cfd) chunks)"

definition in_echo :: "nat \<Rightarrow> cint \<Rightarrow> (kstate \<times> struct_file) world \<Rightarrow> hthread \<Rightarrow> service \<Rightarrow> bool" where
  "in_echo t fd w h s \<longleftrightarrow> hthreads s t = Some h \<and> h_todo h \<noteq> [] \<and> h_place h = H_Echo \<and>
     h_fileFD h = fd \<and> target w = (device s, h_file h)"

lemma echo_move: "in_echo t fd w h s \<Longrightarrow> handler_move env t s = Some (echo_once env t h s)"
  by (auto simp: in_echo_def handler_move_def split: list.split)

lemma echo_more:
  assumes "in_echo t fd w h s" "f_read (driver_ops env) fd 4096 (target w) = Inr (r, bs, d, f)" "0 <s r"
    and IH: "\<And>h s. in_echo t fd (w\<lparr>target := (d, f), sends := sends w @ [(cfd, take (unat r) bs)]\<rparr>) h s \<Longrightarrow>
      echoes_as env t cfd (w\<lparr>target := (d, f), sends := sends w @ [(cfd, take (unat r) bs)]\<rparr>) w' h s"
  shows "echoes_as env t cfd w w' h s"
proof -
  let ?h = "h\<lparr>h_file := f\<rparr>"
  let ?s = "put_thread t ?h (s\<lparr>device := d, sent := sent s @ [(t, take (unat r) bs)]\<rparr>)"
  have "handler_move env t s = Some (Inr ?s)"
    using echo_move [OF assms(1)] assms(1-3) by (simp add: echo_once_def in_echo_def)
  note first = stepI [OF this]
  have "in_echo t fd (w\<lparr>target := (d, f), sends := sends w @ [(cfd, take (unat r) bs)]\<rparr>) ?h ?s"
    using assms(1) by (simp add: in_echo_def put_thread_def)
  from IH [OF this] obtain s' chunks where s': "(service_step env)\<^sup>*\<^sup>* ?s s'"
    "hthreads s' = (hthreads ?s)(t \<mapsto> ?h\<lparr>h_file := snd (target w'), h_place := H_Unlock\<rparr>)"
    "device s' = fst (target w')" "lock_of s' = lock_of ?s" "stored s' = stored ?s"
    "sent s' = sent ?s @ map (Pair t) chunks"
    "sends w' = (sends w @ [(cfd, take (unat r) bs)]) @ map (Pair cfd) chunks"
    by (auto simp: echoes_as_def)
  then show ?thesis
    using rtranclp_trans [OF first s'(1)] unfolding echoes_as_def
    by (intro exI [of _ s'] exI [of _ "take (unat r) bs # chunks"]) (simp add: put_thread_def)
qed

lemma echo_end:
  assumes "in_echo t fd w h s" "f_read (driver_ops env) fd 4096 (target w) = Inr (r, bs, d, f)" "\<not> 0 <s r"
  shows "echoes_as env t cfd w (w\<lparr>target := (d, f)\<rparr>) h s"
proof -
  let ?s = "put_thread t (h\<lparr>h_file := f, h_place := H_Unlock\<rparr>) (s\<lparr>device := d\<rparr>)"
  have "handler_move env t s = Some (Inr ?s)"
    using echo_move [OF assms(1)] assms by (simp add: echo_once_def in_echo_def)
  from stepI [OF this] show ?thesis
    unfolding echoes_as_def by (intro exI [of _ ?s] exI [of _ "[]"]) (simp add: put_thread_def)
qed

text \<open>The read loop, step by step, ends where the loop of the handler ends.\<close>

lemma echo_run:
  assumes "echo_loop (driver_ops env) fd cfd w = Some (Inr w')" and "in_echo t fd w h s"
  shows "echoes_as env t cfd w w' h s"
proof -
  have "ops = driver_ops env \<Longrightarrow> y = Inr w' \<Longrightarrow> in_echo t fd w h s \<Longrightarrow> echoes_as env t cfd w w' h s"
    if "echo_loop ops fd cfd w = Some y" for ops w y h s
    using that
  proof (induction arbitrary: h s rule: echo_loop.raw_induct [rotated, consumes 1])
    case (1 loop ops fd cfd w y)
    obtain rd where rd: "f_read ops fd 4096 (target w) = rd" by blast
    obtain r bs d f where r: "f_read (driver_ops env) fd 4096 (target w) = Inr (r, bs, d, f)"
      using 1(2-4) rd by (cases rd) auto
    show ?case
    proof (cases "0 <s r")
      case True
      show ?thesis
      proof (rule echo_more [OF 1(5) r True])
        fix h s
        assume e: "in_echo t fd (w\<lparr>target := (d, f), sends := sends w @ [(cfd, take (unat r) bs)]\<rparr>) h s"
        have "loop ops fd cfd (w\<lparr>target := (d, f), sends := sends w @ [(cfd, take (unat r) bs)]\<rparr>) = Some y"
          using 1(2,3) r True by simp
        from 1(1) [OF this 1(3,4) e]
        show "echoes_as env t cfd (w\<lparr>target := (d, f), sends := sends w @ [(cfd, take (unat r) bs)]\<rparr>) w' h s" .
      qed
    next
      case False
      have "w' = w\<lparr>target := (d, f)\<rparr>" using 1(2-4) r False by simp
      with echo_end [OF 1(5) r False] show ?thesis by simp
    qed
  qed
  with assms show ?thesis by blast
qed

lemma one_line_up_to_echo:
  assumes "hthreads s t = Some h" "h_todo h = k # ks" "h_place h = H_Receive" "lock_of s = None"
    and "f_open (driver_ops env) (device s, h_file h) = Inr (fd, d, f)"
    and "store_or_seek (driver_ops env) (k @ drop (length k) (h_buffer h)) (length k) fd
      \<lparr>target = (d, f), FileMutex = True, sends = [], closed = []\<rparr>
      = Inr \<lparr>target = (d', f'), FileMutex = True, sends = [], closed = []\<rparr>"
  shows "\<exists>s' h'. (service_step env)\<^sup>*\<^sup>* s s' \<and>
    h' = h\<lparr>h_buffer := k @ drop (length k) (h_buffer h), h_fileFD := fd, h_file := f', h_place := H_Echo\<rparr> \<and>
    hthreads s' = (hthreads s)(t \<mapsto> h') \<and> device s' = d' \<and> lock_of s' = Some t \<and>
    stored s' = stored s @ [(t, k)] \<and> sent s' = sent s"
proof -
  let ?h1 = "h\<lparr>h_buffer := k @ drop (length k) (h_buffer h), h_fileFD := fd, h_file := f, h_place := H_Lock\<rparr>"
  let ?s1 = "put_thread t ?h1 (s\<lparr>device := d\<rparr>)"
  let ?h2 = "?h1\<lparr>h_place := H_Store\<rparr>"
  let ?s2 = "put_thread t ?h2 (?s1\<lparr>lock_of := Some t\<rparr>)"
  let ?h3 = "?h2\<lparr>h_file := f', h_place := H_Echo\<rparr>"
  let ?s3 = "put_thread t ?h3 (?s2\<lparr>device := d', stored := stored s @ [(t, k)]\<rparr>)"
  have "handler_move env t s = Some (Inr ?s1)"
    using assms by (simp add: handler_move_def receive_line_def)
  moreover have "handler_move env t ?s1 = Some (Inr ?s2)"
    using assms by (simp add: handler_move_def put_thread_def)
  moreover have "handler_move env t ?s2 = Some (Inr ?s3)"
    using assms by (simp add: handler_move_def put_thread_def store_line_def)
  ultimately have "(service_step env)\<^sup>*\<^sup>* s ?s3"
    by (meson stepI rtranclp_trans)
  then show ?thesis
    by (intro exI [of _ ?s3] exI [of _ ?h3]) (simp add: put_thread_def)
qed

lemma one_line_after_echo:
  assumes "hthreads s t = Some h" "h_todo h = k # ks" "h_place h = H_Unlock"
    and "f_close (driver_ops env) (h_fileFD h) (device s, h_file h) = Inr (d, f)"
  shows "\<exists>s'. (service_step env)\<^sup>*\<^sup>* s s' \<and>
    hthreads s' = (hthreads s)(t \<mapsto> h\<lparr>h_file := f, h_place := H_Receive, h_todo := ks\<rparr>) \<and>
    device s' = d \<and> lock_of s' = None \<and> stored s' = stored s \<and> sent s' = sent s"
proof -
  let ?h1 = "h\<lparr>h_place := H_Close\<rparr>"
  let ?s1 = "put_thread t ?h1 (s\<lparr>lock_of := None\<rparr>)"
  let ?h2 = "h\<lparr>h_file := f, h_place := H_Receive, h_todo := ks\<rparr>"
  let ?s2 = "put_thread t ?h2 (?s1\<lparr>device := d\<rparr>)"
  have "handler_move env t s = Some (Inr ?s1)"
    using assms by (simp add: handler_move_def)
  moreover have "handler_move env t ?s1 = Some (Inr ?s2)"
    using assms by (simp add: handler_move_def put_thread_def close_file_def)
  ultimately have "(service_step env)\<^sup>*\<^sup>* s ?s2"
    by (meson stepI rtranclp_trans)
  then show ?thesis by (intro exI [of _ ?s2]) (simp add: put_thread_def)
qed

section \<open>Properties\<close>

text \<open>All steps of one line, when the store, the read loop and the close go as in the sequential model.\<close>

lemma one_line_alone:
  assumes "hthreads s t = Some h" "h_todo h = k # ks" "h_place h = H_Receive" "lock_of s = None"
    and "f_open (driver_ops env) (device s, h_file h) = Inr (fd, d, f)"
    and "store_or_seek (driver_ops env) (k @ drop (length k) (h_buffer h)) (length k) fd
      \<lparr>target = (d, f), FileMutex = True, sends = [], closed = []\<rparr>
      = Inr \<lparr>target = (d', f'), FileMutex = True, sends = [], closed = []\<rparr>"
    and "echo_loop (driver_ops env) fd cfd w = Some (Inr w1)" "target w = (d', f')"
    and "f_close (driver_ops env) fd (target w1) = Inr (dc, fc)"
  shows "\<exists>s' chunks. (service_step env)\<^sup>*\<^sup>* s s' \<and>
    hthreads s' = (hthreads s)(t \<mapsto> h\<lparr>h_buffer := k @ drop (length k) (h_buffer h), h_fileFD := fd, h_file := fc,
      h_place := H_Receive, h_todo := ks\<rparr>) \<and>
    device s' = dc \<and> lock_of s' = None \<and> stored s' = stored s @ [(t, k)] \<and>
    sent s' = sent s @ map (Pair t) chunks \<and> sends w1 = sends w @ map (Pair cfd) chunks"
proof -
  obtain s1 h1 where s1: "(service_step env)\<^sup>*\<^sup>* s s1" "hthreads s1 = (hthreads s)(t \<mapsto> h1)"
    "h1 = h\<lparr>h_buffer := k @ drop (length k) (h_buffer h), h_fileFD := fd, h_file := f', h_place := H_Echo\<rparr>"
    "device s1 = d'" "lock_of s1 = Some t" "stored s1 = stored s @ [(t, k)]" "sent s1 = sent s"
    using one_line_up_to_echo [OF assms(1-5), of d' f'] assms(6) by auto
  have "in_echo t fd w h1 s1" using s1 assms(2,8) by (simp add: in_echo_def)
  from echo_run [OF assms(7) this] obtain s2 chunks where s2: "(service_step env)\<^sup>*\<^sup>* s1 s2"
    "hthreads s2 = (hthreads s1)(t \<mapsto> h1\<lparr>h_file := snd (target w1), h_place := H_Unlock\<rparr>)"
    "device s2 = fst (target w1)" "stored s2 = stored s1" "sent s2 = sent s1 @ map (Pair t) chunks"
    "sends w1 = sends w @ map (Pair cfd) chunks"
    by (auto simp: echoes_as_def)
  obtain s3 where s3: "(service_step env)\<^sup>*\<^sup>* s2 s3"
    "hthreads s3 = (hthreads s2)(t \<mapsto> h1\<lparr>h_file := fc, h_place := H_Receive, h_todo := ks\<rparr>)"
    "device s3 = dc" "lock_of s3 = None" "stored s3 = stored s2" "sent s3 = sent s2"
    using one_line_after_echo [of s2 t "h1\<lparr>h_file := snd (target w1), h_place := H_Unlock\<rparr>" k ks env dc fc]
      s1(3) s2(2,3) assms(2,9) by auto
  have "(service_step env)\<^sup>*\<^sup>* s s3" using s1(1) s2(1) s3(1) by (meson rtranclp_trans)
  with s1 s2 s3 show ?thesis by (intro exI [of _ s3] exI [of _ chunks]) simp
qed

text \<open>
  C25. The cut of the handler into steps is the handler: when a thread runs alone for one
  line, from a state in which no one holds the mutex, its steps lead to the device, the
  bytes sent and the buffer that \<open>handler_chunk\<close> computes for that line.
\<close>

theorem lone_handler_agrees:
  assumes "hthreads s t = Some h" and "h_todo h = k # ks" and "h_place h = H_Receive" and "lock_of s = None"
    and "device_shut env (device s, h_file h) ls" and "plain k" and "NUL \<in> set (drop (length k) (h_buffer h))"
    and "residualSize g = 0" and "length (buffer g) = 400" and "received n g = k" and "buffer g = h_buffer h"
    and "\<not> FileMutex w" and "target w = (device s, h_file h)"
  shows "\<exists>w' s' h' chunks. handler_chunk True (driver_ops env) cfd n (g, w) = Some (Inr (after_chunk g k 0, w')) \<and>
    (service_step env)\<^sup>*\<^sup>* s s' \<and> hthreads s' = (hthreads s)(t \<mapsto> h') \<and>
    h_place h' = H_Receive \<and> h_todo h' = ks \<and> h_buffer h' = buffer (after_chunk g k 0) \<and>
    target w' = (device s', h_file h') \<and> lock_of s' = None \<and> \<not> FileMutex w' \<and>
    stored s' = stored s @ [(t, k)] \<and> sent s' = sent s @ map (Pair t) chunks \<and>
    sends w' = sends w @ map (Pair cfd) chunks"
proof -
  let ?post = "drop (length k) (h_buffer h)"
  have k: "is_line k" "length k \<le> 400" using assms(6) by (simp_all add: plain_def is_line_def)
  obtain fd d f where o: "f_open (driver_ops env) (device s, h_file h) = Inr (fd, d, f)"
    "device_open env (d, f) ls 0 0"
    using driver.open_law [OF assms(5)] by (metis surj_pair)
  obtain d' f' where wr: "f_write (driver_ops env) fd k (d, f) = Inr (of_nat (length k), d', f')"
    "device_open env (d', f') (keep_last 10 (ls @ [k])) 0 0"
    using driver.write_law [OF o(2) k(1)] by (metis surj_pair)
  have st: "store_or_seek (driver_ops env) (k @ ?post) (length k) fd (v\<lparr>target := (d, f), FileMutex := True\<rparr>)
      = Inr (v\<lparr>target := (d', f'), FileMutex := True\<rparr>)" for v
    using wr(1) written_fits [OF k(2)] by (simp add: store_or_seek_def plain_not_seek [OF assms(6,7)])
  let ?w = "w\<lparr>target := (d', f'), FileMutex := True\<rparr>"
  obtain w1 where w1: "echo_loop (driver_ops env) fd cfd ?w = Some (Inr w1)"
    "\<exists>fp. device_open env (target w1) (keep_last 10 (ls @ [k])) fp 0"
    using driver.echo_sends_rest [of env ?w "keep_last 10 (ls @ [k])" 0 0 fd cfd] wr(2) by auto
  then obtain dc fc where cl: "f_close (driver_ops env) fd (target w1) = Inr (dc, fc)"
    using driver.close_law by (metis surj_pair)
  obtain s' chunks where s': "(service_step env)\<^sup>*\<^sup>* s s'"
    "hthreads s' = (hthreads s)(t \<mapsto> h\<lparr>h_buffer := k @ ?post, h_fileFD := fd, h_file := fc, h_place := H_Receive, h_todo := ks\<rparr>)"
    "device s' = dc" "lock_of s' = None" "stored s' = stored s @ [(t, k)]" "sent s' = sent s @ map (Pair t) chunks"
    "sends w1 = sends ?w @ map (Pair cfd) chunks"
    using one_line_alone [OF assms(1-4) o(1) st [of "\<lparr>target = (d, f), FileMutex = True, sends = [], closed = []\<rparr>", simplified]
        w1(1) _ cl] by auto
  have "process_segment True (driver_ops env) (k @ ?post) (length k) fd cfd (w\<lparr>target := (d, f)\<rparr>)
      = Some (Inr (w1\<lparr>FileMutex := False\<rparr>))"
    using st [of "w\<lparr>target := (d, f)\<rparr>"] w1(1) assms(12) by (simp add: process_segment_def answer_def)
  note loop = process_loop_one [OF k(1) this]
  have "handler_chunk True (driver_ops env) cfd n (g, w)
      = Some (Inr (after_chunk g k 0, w1\<lparr>FileMutex := False, target := (dc, fc)\<rparr>))"
    using handler_chunk_clean [OF assms(8,10,9), of "driver_ops env" w fd "(d, f)" True cfd "length k"
        "w1\<lparr>FileMutex := False\<rparr>" "(dc, fc)"] loop o(1) cl assms(11,13) by simp
  with s' assms(11) show ?thesis
    by (intro exI [of _ "w1\<lparr>FileMutex := False, target := (dc, fc)\<rparr>"] exI [of _ s']
        exI [of _ "h\<lparr>h_buffer := k @ ?post, h_fileFD := fd, h_file := fc, h_place := H_Receive, h_todo := ks\<rparr>"]
        exI [of _ chunks])
       (simp add: after_chunk_def)
qed

text \<open>Two connections: one sends two lines, the other one.\<close>

definition demo_thread :: "byte list list \<Rightarrow> hthread" where
  "demo_thread ks = \<lparr>h_place = H_Receive, h_todo = ks, h_buffer = replicate 400 NUL, h_fileFD = 0, h_file = fresh_file\<rparr>"

definition demo_service :: service where
  "demo_service = \<lparr>device = start_state, lock_of = None,
     hthreads = [1 \<mapsto> demo_thread demo_lines, 2 \<mapsto> demo_thread [''z'' @ [NL]]], sent = [], stored = []\<rparr>"

lemma demo_service_start: "service_start server_env 20 [] demo_service"
proof -
  have "plain (''z'' @ [NL])" by (simp add: plain_def is_line_def AESD_SOCKET_IOC_STRING_def)
  then show ?thesis
    using server_world_facts(1) demo_lines_plain
    by (auto simp: service_start_def demo_service_def demo_thread_def server_world_def split: if_splits)
qed

theorem lone_handler_agrees_witness:
  "\<exists>w' s'. handler_chunk True (driver_ops server_env) 4 2
      (zero_handler (''z'' @ [NL]), server_world) = Some (Inr (after_chunk (zero_handler (''z'' @ [NL])) (''z'' @ [NL]) 0, w')) \<and>
    (service_step server_env)\<^sup>*\<^sup>* demo_service s' \<and> stored s' = [(2, ''z'' @ [NL])] \<and> fst (target w') = device s'"
proof -
  let ?z = "''z'' @ [NL]"
  have z: "plain ?z" by (simp add: plain_def is_line_def AESD_SOCKET_IOC_STRING_def)
  have "received 2 (zero_handler ?z) = ?z" by (simp add: received_def zero_handler_def)
  moreover have "hthreads demo_service 2 = Some (demo_thread [?z])" "lock_of demo_service = None"
    "device demo_service = start_state" "stored demo_service = []"
    by (simp_all add: demo_service_def)
  moreover have "device_shut server_env (start_state, fresh_file) []"
    using server_world_facts(1) by (simp add: server_world_def)
  ultimately show ?thesis
    using lone_handler_agrees [of demo_service 2 "demo_thread [?z]" ?z "[]" server_env "[]"
        "zero_handler ?z" 2 server_world 4] z
    by (fastforce simp: demo_thread_def zero_handler_def server_world_def)
qed

text \<open>A run of the second connection.\<close>

lemma demo_first: "\<exists>s. (service_step server_env)\<^sup>*\<^sup>* demo_service s \<and> stored s = [(2, ''z'' @ [NL])]"
proof -
  let ?z = "''z'' @ [NL]"
  let ?post = "drop (length ?z) (replicate 400 NUL)"
  have z: "plain ?z" by (simp add: plain_def is_line_def AESD_SOCKET_IOC_STRING_def)
  have k: "is_line ?z" "length ?z \<le> 400" using z by (simp_all add: plain_def is_line_def)
  have post: "NUL \<in> set ?post" by simp
  have "device_shut server_env (start_state, fresh_file) []"
    using server_world_facts(1) by (simp add: server_world_def)
  then obtain fd d f where o: "f_open (driver_ops server_env) (start_state, fresh_file) = Inr (fd, d, f)"
    "device_open server_env (d, f) [] 0 0"
    using driver.open_law by (metis surj_pair)
  obtain d' f' where "f_write (driver_ops server_env) fd ?z (d, f) = Inr (of_nat (length ?z), d', f')"
    using driver.write_law [OF o(2) k(1)] by (metis surj_pair)
  then have "store_or_seek (driver_ops server_env) (?z @ ?post) (length ?z) fd
      \<lparr>target = (d, f), FileMutex = True, sends = [], closed = []\<rparr>
      = Inr \<lparr>target = (d', f'), FileMutex = True, sends = [], closed = []\<rparr>"
    using written_fits [OF k(2)] by (simp only: store_or_seek_def plain_not_seek [OF z post]) simp
  with one_line_up_to_echo [of demo_service 2 "demo_thread [?z]" ?z "[]" server_env fd d f d' f'] o(1)
  show ?thesis by (auto simp: demo_service_def demo_thread_def)
qed

text \<open>
  C2. Any number of connections at once, in any interleaving of their steps: the device
  holds the last ten of the lines written, in the order of the writes, each of them whole;
  the lines of one connection are written in the order in which it sent them, none lost and
  none twice; what a connection has been sent is the beginning of its answers, each of which
  is the whole content as it was when its own line had just been written; at most one thread
  is between lock and unlock; and no step faults.
\<close>

theorem concurrent_lines_do_not_mix:
  assumes "service_start env m ls s0" and "(service_step env)\<^sup>*\<^sup>* s0 s"
  shows "device_holds env (device s) (held ls (stored s)) \<and>
    (hthreads s t = Some h \<longrightarrow>
       lines_of t (stored s) @ unstored h = h_todo (the (hthreads s0 t)) \<and>
       (\<exists>rest. sent_by t (sent s) @ rest = answers_to t ls (stored s))) \<and>
    (hthreads s t = Some h \<and> hthreads s t' = Some h' \<and> critical h \<and> critical h' \<longrightarrow> t = t') \<and>
    handler_move env t s \<noteq> Some (Inl e)"
proof -
  have inv: "service_inv env m ls s0 s" and fin: "length ls \<le> 10" "finite (dom (hthreads s0))"
    using service_run_inv [OF assms] by simp_all
  have "handler_move env t s \<noteq> Some (Inl e)"
    using serving.never_faults inv fin by blast
  moreover have "hthreads s t = Some h \<Longrightarrow> thread_ok m ls s0 s t h"
    using inv by (simp add: service_inv_def)
  moreover have "hthreads s t = Some h \<and> hthreads s t' = Some h' \<and> critical h \<and> critical h' \<Longrightarrow> t = t'"
    using service_holder [OF inv] by auto
  ultimately show ?thesis
    using inv by (auto simp: service_inv_def thread_ok_def)
qed

theorem concurrent_lines_do_not_mix_witness:
  "\<exists>s. (service_step server_env)\<^sup>*\<^sup>* demo_service s \<and> stored s = [(2, ''z'' @ [NL])] \<and>
     device_holds server_env (device s) (held [] [(2, ''z'' @ [NL])])"
proof -
  obtain s where s: "(service_step server_env)\<^sup>*\<^sup>* demo_service s" "stored s = [(2, ''z'' @ [NL])]"
    using demo_first by blast
  with concurrent_lines_do_not_mix [OF demo_service_start s(1)] show ?thesis by auto
qed

text \<open>
  C11. Every run ends: however the steps interleave, there is no infinite sequence of them;
  and when no thread can move any more, the mutex is free, every line of every connection is
  stored exactly once, and every connection has been sent all its answers. In particular
  there is no deadlock.
\<close>

theorem concurrent_service_terminates:
  assumes "service_start env m ls s0"
  shows "(\<nexists>f. f 0 = s0 \<and> (\<forall>n. service_step env (f n) (f (Suc n)))) \<and>
    ((service_step env)\<^sup>*\<^sup>* s0 s \<and> (\<forall>t. handler_move env t s = None) \<and> hthreads s t = Some h \<longrightarrow>
       lock_of s = None \<and> lines_of t (stored s) = h_todo (the (hthreads s0 t)) \<and>
       sent_by t (sent s) = answers_to t ls (stored s))"
proof (intro conjI impI)
  show "\<nexists>f. f 0 = s0 \<and> (\<forall>n. service_step env (f n) (f (Suc n)))"
    using serving.no_infinite_run service_start_inv [OF assms] assms by (auto simp: service_start_def)
next
  assume a: "(service_step env)\<^sup>*\<^sup>* s0 s \<and> (\<forall>t. handler_move env t s = None) \<and> hthreads s t = Some h"
  have inv: "service_inv env m ls s0 s \<and> length ls \<le> 10 \<and> finite (dom (hthreads s0))"
    using service_run_inv [OF assms] a by blast
  have e: "h_todo h = [] \<and> lock_of s = None" using serving.all_served [OF inv] a by blast
  have ok: "thread_ok m ls s0 s t h" using inv a by (simp add: service_inv_def)
  then have "h_place h = H_Receive" using e by (auto simp: thread_ok_def)
  with ok e show "lock_of s = None" "lines_of t (stored s) = h_todo (the (hthreads s0 t))"
    "sent_by t (sent s) = answers_to t ls (stored s)"
    by (simp_all add: thread_ok_def unstored_def unsent_def)
qed

theorem concurrent_service_terminates_witness:
  "\<nexists>f. f 0 = demo_service \<and> (\<forall>n. service_step server_env (f n) (f (Suc n)))"
  using concurrent_service_terminates [OF demo_service_start] by blast

end
