(* ===== verification/Concurrent_Requests.thy ===== *)
theory Concurrent_Requests
  imports Concurrent
begin

text \<open>
  The interleaved handlers of \<open>Concurrent\<close> when peers also send seek commands, with any
  numbers in them. The position that a command sets belongs to the device, and every close
  sets it back, so that an answer need not start where its own command asked for: closing is
  done after the mutex has been released. What remains true in every interleaving, and that
  every run still ends, is proved here.
\<close>

section \<open>Requests\<close>

text \<open>A line to store, or a seek command as a client prints it.\<close>

definition request :: "byte list \<Rightarrow> bool" where
  "request k \<longleftrightarrow> plain k \<or> (\<exists>cmd offs. k = seek_line cmd offs \<and> length k \<le> 400)"

lemma request_line: "request k \<Longrightarrow> is_line k"
  by (auto simp: request_def plain_def intro: is_line_seek_line)

lemma seek_line_not_plain: "\<not> plain (seek_line cmd offs)"
  by (simp add: plain_def seek_line_def)

text \<open>The lines that are stored, out of all requests in the order in which they were handled.\<close>

definition written :: "(nat \<times> byte list) list \<Rightarrow> (nat \<times> byte list) list" where
  "written st = filter (\<lambda>(_, k). plain k) st"

lemma written_snoc [simp]: "written (st @ [(t, k)]) = written st @ (if plain k then [(t, k)] else [])"
  by (simp add: written_def)

lemma held_length: "length ls \<le> 10 \<Longrightarrow> held ls [] = ls"
  by (simp add: held_def keep_last_small)

section \<open>The file operations with a position\<close>

definition device_ready :: "kernel_env \<Rightarrow> kstate \<Rightarrow> byte list list \<Rightarrow> bool" where
  "device_ready env d ls \<longleftrightarrow> device_holds env d ls \<and> unat (lseekPos d) < 2 ^ 32"

lemma device_ready_open:
  "private_data f \<noteq> None \<Longrightarrow> unat (f_pos f) < 2 ^ 32 \<Longrightarrow> device_ready env d ls \<Longrightarrow>
     device_open env (d, f) ls (unat (f_pos f)) (unat (lseekPos d))"
  by (simp add: device_ready_def)

lemma device_open_ready:
  "device_open env (d, f) ls fp sp \<Longrightarrow>
     device_ready env d ls \<and> private_data f \<noteq> None \<and> unat (f_pos f) = fp \<and> fp < 2 ^ 32 \<and> unat (lseekPos d) = sp"
  by (simp add: device_ready_def)

lemma open_any:
  "f_open (driver_ops env) (d, f0) = Inr (3, d, fresh_file\<lparr>private_data := Some TheDevice\<rparr>)"
  by (simp add: driver_ops_def aesd_open_def)

text \<open>A seek command is accepted or not; the lines stay, and the position stays a small number.\<close>

lemma ioctl_any:
  assumes "device_ready env d ls" "private_data f \<noteq> None"
  shows "\<exists>r d'. f_ioctl (driver_ops env) fd st (d, f) = Inr (r, d', f) \<and> device_ready env d' ls"
proof -
  let ?env = "env\<lparr>user_seekto := (\<lambda>_ _. Some st)\<rparr>"
  let ?c = "unat (write_cmd st)"
  have h: "dev_inv ?env d" "idle d" "env_ok ?env" "dev_lines d = ls" "dev_partial d = []" "smooth env"
    "\<not> lock_interrupted ?env (Suc (clock d))" "user_seekto ?env (clock d) 0 = Some st"
    using assms(1) by (simp_all add: device_ready_def device_holds_def smooth_def quiet_def)
  obtain ret d' where d': "aesd_ioctl ?env f AESDCHAR_IOCSEEKTO 0 d = Inr (ret, d')"
    "dev_inv ?env d'" "idle d'" "dev_lines d' = ls" "dev_partial d' = []"
    and pos: "case seek_limit d ?c of
       Some m \<Rightarrow> if unat (write_cmd_offset st) \<le> m
         then ret = 0 \<and> unat (lseekPos d') = length (concat (take ?c ls)) + unat (write_cmd_offset st)
         else ret = - EINVAL \<and> lseekPos d' = lseekPos d
     | None \<Rightarrow> ret = - EINVAL \<and> lseekPos d' = lseekPos d"
    using seekto_spec [OF h(1-3) assms(2) h(8,7)] h(4,5) by auto
  have "unat (lseekPos d') < 2 ^ 32"
  proof (cases "lseekPos d' = lseekPos d")
    case True
    with assms(1) show ?thesis by (simp add: device_ready_def)
  next
    case False
    with pos obtain m where m: "seek_limit d ?c = Some m" "unat (write_cmd_offset st) \<le> m"
      "unat (lseekPos d') = length (concat (take ?c ls)) + unat (write_cmd_offset st)"
      by (auto split: option.splits if_splits)
    have total: "length (concat ls) < 2 ^ 31" using dev_lines_total [OF h(1,3)] h(4) by simp
    have "length (concat (take ?c ls)) \<le> length (concat ls)"
      by (metis append_take_drop_id concat_append le_add1 length_append)
    with seek_limit_le [OF h(1) m(1)] m(2,3) total h(4) show ?thesis by simp
  qed
  with d' h(6) show ?thesis
    by (simp add: driver_ops_def device_ready_def device_holds_def)
qed

section \<open>Invariant\<close>

definition asks_ok :: "nat \<Rightarrow> service \<Rightarrow> service \<Rightarrow> nat \<Rightarrow> hthread \<Rightarrow> bool" where
  "asks_ok m s0 s t h \<longleftrightarrow>
     (critical h \<longleftrightarrow> lock_of s = Some t) \<and>
     (h_place h \<noteq> H_Receive \<longrightarrow> h_todo h \<noteq> [] \<and> private_data (h_file h) \<noteq> None \<and> unat (f_pos (h_file h)) < 2 ^ 32) \<and>
     (h_place h = H_Lock \<or> h_place h = H_Store \<longrightarrow>
        f_pos (h_file h) = 0 \<and> (\<exists>post. h_buffer h = hd (h_todo h) @ post \<and> NUL \<in> set post)) \<and>
     (h_place h = H_Echo \<longrightarrow> stored s \<noteq> [] \<and> fst (last (stored s)) = t) \<and>
     NUL \<in> set (drop m (h_buffer h)) \<and> (\<forall>k \<in> set (h_todo h). request k \<and> length k \<le> m) \<and>
     lines_of t (stored s) @ unstored h = h_todo (the (hthreads s0 t))"

text \<open>Every piece sent was read, at its time, from the content right after a request of its own thread.\<close>

definition pieces_ok :: "byte list list \<Rightarrow> service \<Rightarrow> bool" where
  "pieces_ok ls s \<longleftrightarrow> (\<forall>t bs. (t, bs) \<in> set (sent s) \<longrightarrow>
     (\<exists>st rest p. stored s = st @ rest \<and> st \<noteq> [] \<and> fst (last st) = t \<and>
        bs = take (length bs) (drop p (concat (held ls (written st))))))"

definition requests_inv :: "kernel_env \<Rightarrow> nat \<Rightarrow> byte list list \<Rightarrow> service \<Rightarrow> service \<Rightarrow> bool" where
  "requests_inv env m ls s0 s \<longleftrightarrow>
     device_ready env (device s) (held ls (written (stored s))) \<and>
     dom (hthreads s) = dom (hthreads s0) \<and>
     (\<forall>t h. hthreads s t = Some h \<longrightarrow> asks_ok m s0 s t h) \<and>
     (\<forall>t. lock_of s = Some t \<longrightarrow> t \<in> dom (hthreads s)) \<and> pieces_ok ls s"

definition requests_start :: "kernel_env \<Rightarrow> nat \<Rightarrow> byte list list \<Rightarrow> service \<Rightarrow> bool" where
  "requests_start env m ls s \<longleftrightarrow>
     device_ready env (device s) ls \<and> length ls \<le> 10 \<and>
     lock_of s = None \<and> sent s = [] \<and> stored s = [] \<and> finite (dom (hthreads s)) \<and>
     (\<forall>t h. hthreads s t = Some h \<longrightarrow> h_place h = H_Receive \<and> NUL \<in> set (drop m (h_buffer h)) \<and>
        (\<forall>k \<in> set (h_todo h). request k \<and> length k \<le> m))"

lemma requests_start_inv: "requests_start env m ls s \<Longrightarrow> requests_inv env m ls s s"
  by (auto simp: requests_start_def requests_inv_def asks_ok_def pieces_ok_def critical_def unstored_def
      written_def held_length lines_of_def)

lemma asks_ok_frame:
  assumes "asks_ok m s0 s u h" "u \<noteq> t" "lock_of s' = Some u \<longleftrightarrow> lock_of s = Some u"
    and "stored s' = stored s \<or> (lock_of s = Some t \<and> (\<exists>k. stored s' = stored s @ [(t, k)]))"
  shows "asks_ok m s0 s' u h"
  using assms by (auto simp: asks_ok_def critical_def)

lemma pieces_snoc: "pieces_ok ls s \<Longrightarrow> stored s' = stored s @ xs \<Longrightarrow> sent s' = sent s \<Longrightarrow> pieces_ok ls s'"
  unfolding pieces_ok_def by (metis append_assoc)

lemma pieces_same: "pieces_ok ls s \<Longrightarrow> stored s' = stored s \<Longrightarrow> sent s' = sent s \<Longrightarrow> pieces_ok ls s'"
  by (simp add: pieces_ok_def)

lemma requests_pieces: "requests_inv env m ls s0 s \<Longrightarrow> pieces_ok ls s"
  by (simp add: requests_inv_def)

text \<open>A step of \<open>t\<close> that leaves the log alone, or is done under the lock.\<close>

lemma requests_inv_update:
  assumes inv: "requests_inv env m ls s0 s" and h: "hthreads s t = Some h"
    and "hthreads s' = (hthreads s)(t \<mapsto> h')"
    and "device_ready env (device s') (held ls (written (stored s')))"
    and "asks_ok m s0 s' t h'"
    and "\<And>u. u \<noteq> t \<Longrightarrow> lock_of s' = Some u \<longleftrightarrow> lock_of s = Some u"
    and "stored s' = stored s \<or> (lock_of s = Some t \<and> (\<exists>k. stored s' = stored s @ [(t, k)]))"
    and "pieces_ok ls s'"
  shows "requests_inv env m ls s0 s'"
proof -
  have "asks_ok m s0 s' u g" if u: "hthreads s u = Some g" "u \<noteq> t" for u g
    using asks_ok_frame [of m s0 s u g t s'] inv u assms(6,7) by (simp add: requests_inv_def)
  moreover have "lock_of s' = Some u \<Longrightarrow> u \<in> dom (hthreads s')" for u
    using inv h assms(3,6) by (cases "u = t") (auto simp: requests_inv_def)
  moreover have "dom (hthreads s') = dom (hthreads s0)"
    using inv h assms(3) by (auto simp: requests_inv_def)
  ultimately show ?thesis
    using assms(3-5,8) unfolding requests_inv_def by (auto split: if_splits)
qed

section \<open>The steps of one thread\<close>

lemma requests_thread:
  "requests_inv env m ls s0 s \<Longrightarrow> hthreads s t = Some h \<Longrightarrow> asks_ok m s0 s t h"
  by (simp add: requests_inv_def)

lemma receive_request:
  assumes inv: "requests_inv env m ls s0 s" and h: "hthreads s t = Some h" "h_todo h = k # ks"
    and pl: "h_place h = H_Receive"
  shows "\<exists>s'. receive_line env t h k s = Inr s' \<and> requests_inv env m ls s0 s'"
proof -
  note ok = requests_thread [OF inv h(1)]
  let ?f = "fresh_file\<lparr>private_data := Some TheDevice\<rparr>"
  let ?h = "h\<lparr>h_buffer := k @ drop (length k) (h_buffer h), h_fileFD := 3, h_file := ?f, h_place := H_Lock\<rparr>"
  let ?s = "put_thread t ?h (s\<lparr>device := device s\<rparr>)"
  have k: "length k \<le> m" using ok h(2) by (simp add: asks_ok_def)
  have nul: "NUL \<in> set (drop m (h_buffer h))" using ok by (simp add: asks_ok_def)
  have "drop m (k @ drop (length k) (h_buffer h)) = drop m (h_buffer h)" using k by simp
  moreover have "NUL \<in> set (drop (length k) (h_buffer h))" by (rule NUL_before [OF nul k])
  ultimately have "asks_ok m s0 ?s t ?h"
    using ok pl h(2) nul
    by (auto simp: asks_ok_def put_thread_def critical_def unstored_def fresh_file_def)
  then have "requests_inv env m ls s0 ?s"
    using inv by (intro requests_inv_update [OF inv h(1)]) (simp_all add: put_thread_def requests_inv_def pieces_ok_def)
  then show ?thesis by (simp add: receive_line_def open_any)
qed

text \<open>The request is stored as a line, or moves the position.\<close>

lemma store_or_seek_request:
  assumes "device_ready env d ls" "private_data f \<noteq> None" "unat (f_pos f) < 2 ^ 32" "request k" "NUL \<in> set post"
  shows "\<exists>d'. (\<exists>f'. store_or_seek (driver_ops env) (k @ post) (length k) fd
      \<lparr>target = (d, f), FileMutex = True, sends = [], closed = []\<rparr>
      = Inr \<lparr>target = (d', f'), FileMutex = True, sends = [], closed = []\<rparr> \<and>
      private_data f' \<noteq> None \<and> unat (f_pos f') < 2 ^ 32) \<and>
    device_ready env d' (if plain k then keep_last 10 (ls @ [k]) else ls)"
proof (cases "plain k")
  case True
  note op = device_ready_open [OF assms(2,3,1)]
  have len: "length k \<le> 400" using request_line [OF assms(4)] by (simp add: is_line_def)
  obtain d' f' where w: "f_write (driver_ops env) fd k (d, f) = Inr (of_nat (length k), d', f')"
    "device_open env (d', f') (keep_last 10 (ls @ [k])) (unat (f_pos f)) (unat (lseekPos d))"
    using driver.write_law [OF op request_line [OF assms(4)]] by (metis surj_pair)
  have "store_or_seek (driver_ops env) (k @ post) (length k) fd
      \<lparr>target = (d, f), FileMutex = True, sends = [], closed = []\<rparr>
      = Inr \<lparr>target = (d', f'), FileMutex = True, sends = [], closed = []\<rparr>"
    using w(1) written_fits [OF len] by (simp add: store_or_seek_def plain_not_seek [OF True assms(5)])
  with True device_open_ready [OF w(2)] show ?thesis by auto
next
  case False
  then obtain cmd offs where k: "k = seek_line cmd offs" using assms(4) by (auto simp: request_def)
  obtain r d' where "f_ioctl (driver_ops env) fd \<lparr>write_cmd = cmd, write_cmd_offset = offs\<rparr> (d, f) = Inr (r, d', f)"
    "device_ready env d' ls"
    using ioctl_any [OF assms(1,2)] by blast
  with assms(2,3) False show ?thesis
    by (auto simp: store_or_seek_def k FindSeek_seek_line [OF assms(5)])
qed

lemma store_request:
  assumes inv: "requests_inv env m ls s0 s" and h: "hthreads s t = Some h" "h_todo h = k # ks"
    and pl: "h_place h = H_Store"
  shows "\<exists>s'. store_line env t h k s = Inr s' \<and> requests_inv env m ls s0 s'"
proof -
  note ok = requests_thread [OF inv h(1)]
  obtain post where post: "h_buffer h = k @ post" "NUL \<in> set post"
    using ok pl h(2) by (auto simp: asks_ok_def)
  have f: "private_data (h_file h) \<noteq> None" "unat (f_pos (h_file h)) < 2 ^ 32" "request k"
    using ok pl h(2) by (auto simp: asks_ok_def)
  have dev: "device_ready env (device s) (held ls (written (stored s)))" using inv by (simp add: requests_inv_def)
  obtain d' f' where st: "store_or_seek (driver_ops env) (k @ post) (length k) (h_fileFD h)
      \<lparr>target = (device s, h_file h), FileMutex = True, sends = [], closed = []\<rparr>
      = Inr \<lparr>target = (d', f'), FileMutex = True, sends = [], closed = []\<rparr>"
    "private_data f' \<noteq> None" "unat (f_pos f') < 2 ^ 32"
    "device_ready env d' (if plain k then keep_last 10 (held ls (written (stored s)) @ [k]) else held ls (written (stored s)))"
    using store_or_seek_request [OF dev f post(2)] by blast
  let ?h = "h\<lparr>h_file := f', h_place := H_Echo\<rparr>"
  let ?s = "put_thread t ?h (s\<lparr>device := d', stored := stored s @ [(t, k)]\<rparr>)"
  have "asks_ok m s0 ?s t ?h"
    using ok pl h(2) st(2,3) by (auto simp: asks_ok_def put_thread_def critical_def unstored_def)
  moreover have "lock_of s = Some t" using ok pl by (simp add: asks_ok_def critical_def)
  moreover have "device_ready env d' (held ls (written (stored s @ [(t, k)])))"
    using st(4) by (simp add: held_snoc split: if_splits)
  moreover have "pieces_ok ls ?s"
    by (rule pieces_snoc [OF requests_pieces [OF inv], of _ "[(t, k)]"]) (simp_all add: put_thread_def)
  ultimately have "requests_inv env m ls s0 ?s"
    by (intro requests_inv_update [OF inv h(1)]) (simp_all add: put_thread_def)
  with st(1) post(1) show ?thesis by (simp add: store_line_def)
qed

text \<open>One turn of the read loop: what is read starts at the sum of both positions.\<close>

lemma echo_request:
  assumes inv: "requests_inv env m ls s0 s" and h: "hthreads s t = Some h" "h_todo h = k # ks"
    and pl: "h_place h = H_Echo"
  defines "L \<equiv> held ls (written (stored s))" and "p \<equiv> unat (f_pos (h_file h)) + unat (lseekPos (device s))"
  shows "\<exists>s' f' bs. echo_once env t h s = Inr s' \<and> requests_inv env m ls s0 s' \<and> stored s' = stored s \<and>
    lock_of s' = lock_of s \<and>
    hthreads s' = (hthreads s)(t \<mapsto> h\<lparr>h_file := f', h_place := if bs = [] then H_Unlock else H_Echo\<rparr>) \<and>
    bs = take (length bs) (drop p (concat L)) \<and> (bs = [] \<longleftrightarrow> length (concat L) \<le> p) \<and>
    sent s' = sent s @ (if bs = [] then [] else [(t, bs)]) \<and>
    unat (f_pos f') = unat (f_pos (h_file h)) + length bs"
proof -
  note ok = requests_thread [OF inv h(1)]
  have f: "private_data (h_file h) \<noteq> None" "unat (f_pos (h_file h)) < 2 ^ 32"
    using ok pl by (auto simp: asks_ok_def)
  have dev: "device_ready env (device s) L" using inv by (simp add: requests_inv_def L_def)
  obtain bs d f' where r: "f_read (driver_ops env) (h_fileFD h) 4096 (device s, h_file h)
      = Inr (of_nat (length bs), bs, d, f')"
    "device_open env (d, f') L (unat (f_pos (h_file h)) + length bs) (unat (lseekPos (device s)))"
    "length bs \<le> 4096" "bs = take (length bs) (drop p (concat L))" "bs = [] \<longleftrightarrow> length (concat L) \<le> p"
    using driver.read_law [OF device_ready_open [OF f dev]] unfolding p_def by (metis surj_pair)
  note d = device_open_ready [OF r(2)]
  have un: "unat (of_nat (length bs) :: ssize_t) = length bs"
    using r(3) by (intro unat_of_nat_64) simp
  have pos: "0 <s (of_nat (length bs) :: ssize_t) \<longleftrightarrow> bs \<noteq> []"
    using r(3) un by (simp add: word_sless_alt sint_eq_unat_64)
  let ?h = "h\<lparr>h_file := f', h_place := if bs = [] then H_Unlock else H_Echo\<rparr>"
  let ?s = "put_thread t ?h (s\<lparr>device := d, sent := if bs = [] then sent s else sent s @ [(t, bs)]\<rparr>)"
  have last: "stored s \<noteq> []" "fst (last (stored s)) = t" using ok pl by (simp_all add: asks_ok_def)
  have "asks_ok m s0 ?s t ?h"
    using ok pl d h(2) by (auto simp: asks_ok_def put_thread_def critical_def unstored_def)
  moreover have "pieces_ok ls ?s"
  proof -
    have "pieces_ok ls s" using inv by (simp add: requests_inv_def)
    moreover have "\<exists>st rest q. stored s = st @ rest \<and> st \<noteq> [] \<and> fst (last st) = t \<and>
        bs = take (length bs) (drop q (concat (held ls (written st))))"
      using last r(4) by (intro exI [of _ "stored s"] exI [of _ "[]"] exI [of _ p]) (simp add: L_def)
    ultimately show ?thesis by (auto simp: pieces_ok_def put_thread_def)
  qed
  ultimately have "requests_inv env m ls s0 ?s"
    using d by (intro requests_inv_update [OF inv h(1)]) (simp_all add: put_thread_def L_def)
  moreover have "h\<lparr>h_file := f', h_place := H_Echo\<rparr> = h\<lparr>h_file := f'\<rparr>" using pl by (cases h) simp
  then have "echo_once env t h s = Inr ?s" using r(1) un pos by (simp add: echo_once_def)
  ultimately show ?thesis
    using d r(4,5)
    by (intro exI [of _ ?s] exI [of _ f'] exI [of _ bs]) (simp add: put_thread_def)
qed

lemma close_request:
  assumes inv: "requests_inv env m ls s0 s" and h: "hthreads s t = Some h" "h_todo h = k # ks"
    and pl: "h_place h = H_Close"
  shows "\<exists>s'. close_file env t h s = Inr s' \<and> requests_inv env m ls s0 s' \<and> lseekPos (device s') = 0"
proof -
  note ok = requests_thread [OF inv h(1)]
  have f: "private_data (h_file h) \<noteq> None" "unat (f_pos (h_file h)) < 2 ^ 32"
    using ok pl by (auto simp: asks_ok_def)
  have dev: "device_ready env (device s) (held ls (written (stored s)))" using inv by (simp add: requests_inv_def)
  obtain d f' where c: "f_close (driver_ops env) (h_fileFD h) (device s, h_file h) = Inr (d, f')"
    "device_shut env (d, f') (held ls (written (stored s)))"
    using driver.close_law [OF device_ready_open [OF f dev]] by (metis surj_pair)
  let ?h = "h\<lparr>h_file := f', h_place := H_Receive, h_todo := tl (h_todo h)\<rparr>"
  let ?s = "put_thread t ?h (s\<lparr>device := d\<rparr>)"
  have "asks_ok m s0 ?s t ?h"
    using ok pl h(2) by (auto simp: asks_ok_def put_thread_def critical_def unstored_def)
  moreover have "pieces_ok ls ?s"
    by (rule pieces_same [OF requests_pieces [OF inv]]) (simp_all add: put_thread_def)
  ultimately have "requests_inv env m ls s0 ?s"
    using c(2) by (intro requests_inv_update [OF inv h(1)]) (simp_all add: put_thread_def device_ready_def)
  with c show ?thesis by (simp add: close_file_def put_thread_def)
qed

lemma lock_request:
  assumes inv: "requests_inv env m ls s0 s" and h: "hthreads s t = Some h" "h_todo h = k # ks"
  shows "h_place h = H_Lock \<Longrightarrow> lock_of s = None \<Longrightarrow>
      requests_inv env m ls s0 (put_thread t (h\<lparr>h_place := H_Store\<rparr>) (s\<lparr>lock_of := Some t\<rparr>))"
    and "h_place h = H_Unlock \<Longrightarrow>
      requests_inv env m ls s0 (put_thread t (h\<lparr>h_place := H_Close\<rparr>) (s\<lparr>lock_of := None\<rparr>))"
proof -
  note ok = requests_thread [OF inv h(1)]
  have p: "pieces_ok ls (put_thread t g (s\<lparr>lock_of := l\<rparr>))" for g l
    by (rule pieces_same [OF requests_pieces [OF inv]]) (simp_all add: put_thread_def)
  show "requests_inv env m ls s0 (put_thread t (h\<lparr>h_place := H_Store\<rparr>) (s\<lparr>lock_of := Some t\<rparr>))"
    if "h_place h = H_Lock" "lock_of s = None"
    by (intro requests_inv_update [OF inv h(1)])
       (use inv ok that p in \<open>auto simp: requests_inv_def asks_ok_def put_thread_def critical_def unstored_def\<close>)
  show "requests_inv env m ls s0 (put_thread t (h\<lparr>h_place := H_Close\<rparr>) (s\<lparr>lock_of := None\<rparr>))"
    if "h_place h = H_Unlock"
    by (intro requests_inv_update [OF inv h(1)])
       (use inv ok that p in \<open>auto simp: requests_inv_def asks_ok_def put_thread_def critical_def unstored_def\<close>)
qed

section \<open>Runs\<close>

text \<open>What the thread in the read loop can still send, wherever the position of the device is.\<close>

definition bytes_ahead :: "byte list list \<Rightarrow> service \<Rightarrow> nat" where
  "bytes_ahead ls s = (case lock_of s of None \<Rightarrow> 0
     | Some t \<Rightarrow> length (concat (held ls (written (stored s)))) - unat (f_pos (h_file (the (hthreads s t)))))"

lemma requests_holder:
  "requests_inv env m ls s0 s \<Longrightarrow> hthreads s t = Some h \<Longrightarrow> critical h \<longleftrightarrow> lock_of s = Some t"
  unfolding requests_inv_def asks_ok_def by blast

lemma requests_busy: "requests_inv env m ls s0 s \<Longrightarrow> hthreads s t = Some h \<Longrightarrow> critical h \<Longrightarrow> h_todo h \<noteq> []"
proof -
  assume "requests_inv env m ls s0 s" "hthreads s t = Some h"
  then have "asks_ok m s0 s t h" by (simp add: requests_inv_def)
  then show "critical h \<Longrightarrow> h_todo h \<noteq> []" by (auto simp: asks_ok_def critical_def)
qed

lemma echo_ahead:
  assumes inv: "requests_inv env m ls s0 s" and h: "hthreads s t = Some h" "h_todo h = k # ks"
    and pl: "h_place h = H_Echo"
  shows "\<exists>s' f' bs. echo_once env t h s = Inr s' \<and> requests_inv env m ls s0 s' \<and>
    hthreads s' = (hthreads s)(t \<mapsto> h\<lparr>h_file := f', h_place := if bs = [] then H_Unlock else H_Echo\<rparr>) \<and>
    ((bs :: byte list) \<noteq> [] \<longrightarrow> bytes_ahead ls s' < bytes_ahead ls s)"
proof -
  have "lock_of s = Some t" using requests_holder [OF inv h(1)] pl by (simp add: critical_def)
  then show ?thesis
    using echo_request [OF inv h pl]
  proof (elim exE conjE, goal_cases)
    case e: (1 s' f' bs)
    have "bs \<noteq> [] \<longrightarrow> bytes_ahead ls s' < bytes_ahead ls s"
      using e h(1) by (auto simp: bytes_ahead_def intro!: diff_less_mono2)
    with e show ?thesis by blast
  qed
qed

interpretation asking: handler_steps env
    "\<lambda>s. requests_inv env m ls s0 s \<and> finite (dom (hthreads s0))" "bytes_ahead ls" for env m ls s0
proof (unfold_locales, goal_cases)
  case 1 then show ?case unfolding requests_inv_def by (elim conjE) simp
next
  case 2 then show ?case using requests_holder requests_busy by blast
next
  case 3 then show ?case using receive_request by blast
next
  case 4 then show ?case using lock_request(1) by blast
next
  case 5 then show ?case using store_request by blast
next
  case 6 then show ?case using echo_ahead by blast
next
  case 7 then show ?case using lock_request(2) by blast
next
  case 8 then show ?case using close_request by blast
qed

lemma requests_run:
  assumes "requests_start env m ls s0" "(service_step env)\<^sup>*\<^sup>* s0 s"
  shows "requests_inv env m ls s0 s \<and> finite (dom (hthreads s0))"
  using asking.runs_keep [OF assms(2), of m ls s0] requests_start_inv [OF assms(1)] assms(1)
  by (simp add: requests_start_def)

section \<open>Properties\<close>

text \<open>
  C12. Seek commands do no harm to the lines. With any number of connections, each sending
  lines and seek commands with any numbers, in any interleaving of their steps: the device
  holds the last ten of the lines written, in the order of the writes; the requests of one
  connection are handled in the order in which it sent them, none lost and none twice; every
  piece that is sent to a peer was read, without a gap, from what the device held right after
  one of its own requests; at most one thread is between lock and unlock; and no step faults.
\<close>

theorem seek_commands_keep_the_lines:
  assumes "requests_start env m ls s0" and "(service_step env)\<^sup>*\<^sup>* s0 s"
  shows "device_holds env (device s) (held ls (filter (\<lambda>(_, k). plain k) (stored s))) \<and>
    (hthreads s t = Some h \<longrightarrow> lines_of t (stored s) @ unstored h = h_todo (the (hthreads s0 t))) \<and>
    ((t, bs) \<in> set (sent s) \<longrightarrow> (\<exists>st rest p. stored s = st @ rest \<and> st \<noteq> [] \<and> fst (last st) = t \<and>
       bs = take (length bs) (drop p (concat (held ls (filter (\<lambda>(_, k). plain k) st)))))) \<and>
    (hthreads s t = Some h \<and> hthreads s t' = Some h' \<and> critical h \<and> critical h' \<longrightarrow> t = t') \<and>
    handler_move env t s \<noteq> Some (Inl e)"
proof -
  have inv: "requests_inv env m ls s0 s" and fin: "finite (dom (hthreads s0))"
    using requests_run [OF assms] by simp_all
  have "handler_move env t s \<noteq> Some (Inl e)"
    using asking.never_faults inv fin by blast
  moreover have "hthreads s t = Some h \<longrightarrow> lines_of t (stored s) @ unstored h = h_todo (the (hthreads s0 t))"
    using requests_thread [OF inv] unfolding asks_ok_def by blast
  moreover have "hthreads s t = Some h \<and> hthreads s t' = Some h' \<and> critical h \<and> critical h' \<longrightarrow> t = t'"
    using requests_holder [OF inv] by auto
  moreover have "device_holds env (device s) (held ls (written (stored s)))"
    using inv by (simp add: requests_inv_def device_ready_def)
  ultimately show ?thesis
    using requests_pieces [OF inv] unfolding pieces_ok_def written_def by blast
qed

text \<open>One connection sends a line and a seek command, the other a line.\<close>

definition seeking_service :: service where
  "seeking_service = demo_service\<lparr>hthreads :=
     [1 \<mapsto> demo_thread [[CHR ''a'', CHR ''b'', NL], seek_line 0 1], 2 \<mapsto> demo_thread [''z'' @ [NL]]]\<rparr>"

lemma short_seek: "length (seek_line 0 1) \<le> 30"
  by code_simp

lemma seeking_start: "requests_start server_env 40 [] seeking_service"
proof -
  have "request [CHR ''a'', CHR ''b'', NL]" "request (''z'' @ [NL])"
    by (simp_all add: request_def plain_def is_line_def AESD_SOCKET_IOC_STRING_def)
  moreover have "request (seek_line 0 1)" using short_seek by (auto simp: request_def)
  ultimately show ?thesis
    using server_world_facts(1) short_seek
    by (auto simp: requests_start_def seeking_service_def demo_service_def demo_thread_def server_world_def
        device_ready_def split: if_splits)
qed

theorem seek_commands_keep_the_lines_witness:
  "\<exists>s. (service_step server_env)\<^sup>*\<^sup>* seeking_service s \<and> (\<forall>t. handler_move server_env t s = None) \<and>
     device_holds server_env (device s) (held [] (filter (\<lambda>(_, k). plain k) (stored s)))"
proof -
  have "requests_inv server_env 40 [] seeking_service seeking_service \<and> finite (dom (hthreads seeking_service))"
    using requests_start_inv [OF seeking_start] seeking_start by (simp add: requests_start_def)
  from asking.comes_to_an_end [OF this] obtain s where
    s: "(service_step server_env)\<^sup>*\<^sup>* seeking_service s"
      "requests_inv server_env 40 [] seeking_service s \<and> finite (dom (hthreads seeking_service))"
      "\<forall>s'. \<not> service_step server_env s s'" by blast
  have "handler_move server_env t s = None" for t
    using asking.moves [OF s(2), of t] s(3) by (cases "handler_move server_env t s") (auto intro: service_step.intros)
  with s(1) seek_commands_keep_the_lines [OF seeking_start s(1)] show ?thesis by blast
qed

text \<open>
  C13. Runs with seek commands come to an end as well, although a position that is set back
  makes a thread read again what it has read: there is no infinite run, and when no thread
  can move any more, the mutex is free and every request of every connection has been handled.
\<close>

theorem seek_commands_terminate:
  assumes "requests_start env m ls s0"
  shows "(\<nexists>f. f 0 = s0 \<and> (\<forall>n. service_step env (f n) (f (Suc n)))) \<and>
    ((service_step env)\<^sup>*\<^sup>* s0 s \<and> (\<forall>t. handler_move env t s = None) \<and> hthreads s t = Some h \<longrightarrow>
       lock_of s = None \<and> lines_of t (stored s) = h_todo (the (hthreads s0 t)))"
proof (intro conjI impI)
  show "\<nexists>f. f 0 = s0 \<and> (\<forall>n. service_step env (f n) (f (Suc n)))"
    using asking.no_infinite_run requests_start_inv [OF assms] assms by (auto simp: requests_start_def)
next
  assume a: "(service_step env)\<^sup>*\<^sup>* s0 s \<and> (\<forall>t. handler_move env t s = None) \<and> hthreads s t = Some h"
  have inv: "requests_inv env m ls s0 s \<and> finite (dom (hthreads s0))" using requests_run [OF assms] a by blast
  have e: "h_todo h = [] \<and> lock_of s = None" using asking.all_served [OF inv] a by blast
  have ok: "asks_ok m s0 s t h" using inv a by (simp add: requests_inv_def)
  then have "h_place h = H_Receive" using e by (auto simp: asks_ok_def)
  with ok e show "lock_of s = None" "lines_of t (stored s) = h_todo (the (hthreads s0 t))"
    by (simp_all add: asks_ok_def unstored_def)
qed

theorem seek_commands_terminate_witness:
  "\<nexists>f. f 0 = seeking_service \<and> (\<forall>n. service_step server_env (f n) (f (Suc n)))"
  using seek_commands_terminate [OF seeking_start] by blast

text \<open>A byte of a line has its place in the content.\<close>

lemma nth_line_within: "c < length ls \<Longrightarrow> i < length (ls ! c) \<Longrightarrow> length (concat (take c ls)) + i < length (concat ls)"
  by (subst id_take_nth_drop [of c ls]) simp_all

text \<open>The step of a thread whose seek command is accepted.\<close>

lemma seek_move:
  assumes inv: "requests_inv env m ls s0 s" and h: "hthreads s t = Some h" "h_todo h = seek_line cmd offs # ks"
    and pl: "h_place h = H_Store"
  defines "L \<equiv> held ls (written (stored s))"
  assumes c: "unat cmd < length L" "unat offs < length (L ! unat cmd)"
  shows "\<exists>s' f'. handler_move env t s = Some (Inr s') \<and> requests_inv env m ls s0 s' \<and>
    hthreads s' = (hthreads s)(t \<mapsto> h\<lparr>h_file := f', h_place := H_Echo\<rparr>) \<and> unat (f_pos f') = 0 \<and>
    sent s' = sent s \<and> stored s' = stored s @ [(t, seek_line cmd offs)] \<and>
    unat (lseekPos (device s')) = length (concat (take (unat cmd) L)) + unat offs"
proof -
  note ok = requests_thread [OF inv h(1)]
  obtain post where post: "h_buffer h = seek_line cmd offs @ post" "NUL \<in> set post"
    and f: "private_data (h_file h) \<noteq> None" "unat (f_pos (h_file h)) < 2 ^ 32" "f_pos (h_file h) = 0"
      "request (seek_line cmd offs)"
    using ok pl h(2) by (auto simp: asks_ok_def)
  have dev: "device_ready env (device s) L" using inv by (simp add: requests_inv_def L_def)
  obtain d' f' where io: "f_ioctl (driver_ops env) (h_fileFD h) \<lparr>write_cmd = cmd, write_cmd_offset = offs\<rparr>
      (device s, h_file h) = Inr (0, d', f')"
    "device_open env (d', f') L 0 (length (concat (take (unat cmd) L)) + unat offs)"
    using driver.ioctl_law [OF device_ready_open [OF f(1,2) dev],
        where st = "\<lparr>write_cmd = cmd, write_cmd_offset = offs\<rparr>" and fd = "h_fileFD h"] c f(3) by auto
  obtain s' where s': "store_line env t h (seek_line cmd offs) s = Inr s'" "requests_inv env m ls s0 s'"
    using store_request [OF inv h pl] by blast
  with io(1) post h pl FindSeek_seek_line [OF post(2)] device_open_ready [OF io(2)] show ?thesis
    by (intro exI [of _ s'] exI [of _ f'])
       (auto simp: handler_move_def store_line_def store_or_seek_def put_thread_def)
qed

text \<open>A thread that is alone can finish its request.\<close>

lemma echo_finishes:
  "requests_inv env m ls s0 s \<Longrightarrow> hthreads s t = Some h \<Longrightarrow> h_todo h = k # ks \<Longrightarrow> h_place h = H_Echo \<Longrightarrow>
     \<exists>s' f'. (service_step env)\<^sup>*\<^sup>* s s' \<and> requests_inv env m ls s0 s' \<and> stored s' = stored s \<and>
       hthreads s' = (hthreads s)(t \<mapsto> h\<lparr>h_file := f', h_place := H_Unlock\<rparr>)"
proof (induction "length (concat (held ls (written (stored s)))) - unat (f_pos (h_file h))"
    arbitrary: s h rule: less_induct)
  case less
  show ?case
    using echo_request [OF less.prems]
  proof (elim exE conjE, goal_cases)
    case e: (1 s' f' bs)
    have step: "service_step env s s'"
      using e(1) less.prems by (intro a_thread_moves [of env t]) (simp add: handler_move_def)
    show ?case
    proof (cases "bs = []")
      case True
      with e(2,3,5) step show ?thesis by (intro exI [of _ s'] exI [of _ f']) auto
    next
      case False
      let ?h = "h\<lparr>h_file := f', h_place := H_Echo\<rparr>"
      have "length (concat (held ls (written (stored s')))) - unat (f_pos (h_file ?h))
          < length (concat (held ls (written (stored s)))) - unat (f_pos (h_file h))"
        using e(3,7,9) False by (auto intro!: diff_less_mono2)
      from less.hyps [OF this e(2)] e(3,5) False less.prems(3) obtain s'' g where
        "(service_step env)\<^sup>*\<^sup>* s' s''" "requests_inv env m ls s0 s''" "stored s'' = stored s"
        "hthreads s'' = (hthreads s)(t \<mapsto> h\<lparr>h_file := g, h_place := H_Unlock\<rparr>)" by auto
      with step show ?thesis by (blast intro: converse_rtranclp_into_rtranclp)
    qed
  qed
qed

lemma request_takes_lock:
  assumes inv: "requests_inv env m ls s0 s" and h: "hthreads s t = Some h" "h_todo h = k # ks"
    and pl: "h_place h = H_Receive" and free: "lock_of s = None"
  shows "\<exists>s' h'. (service_step env)\<^sup>*\<^sup>* s s' \<and> requests_inv env m ls s0 s' \<and> stored s' = stored s \<and>
    hthreads s' = (hthreads s)(t \<mapsto> h') \<and> h_place h' = H_Store \<and> h_todo h' = k # ks"
proof -
  obtain s1 where s1: "receive_line env t h k s = Inr s1" "requests_inv env m ls s0 s1"
    using receive_request [OF inv h pl] by blast
  then obtain h1 where h1: "hthreads s1 = (hthreads s)(t \<mapsto> h1)" "h_todo h1 = k # ks" "h_place h1 = H_Lock"
    "lock_of s1 = None" "stored s1 = stored s"
    using h(2) free by (auto simp: receive_line_def bindR_Inr_iff put_thread_def)
  have t: "hthreads s1 t = Some h1" using h1(1) by simp
  let ?s = "put_thread t (h1\<lparr>h_place := H_Store\<rparr>) (s1\<lparr>lock_of := Some t\<rparr>)"
  have "service_step env s s1"
    using s1(1) h pl by (intro a_thread_moves [of env t]) (simp add: handler_move_def)
  moreover have "service_step env s1 ?s"
    using t h1 by (intro a_thread_moves [of env t]) (simp add: handler_move_def)
  moreover have "requests_inv env m ls s0 ?s" using lock_request(1) [OF s1(2) t h1(2,3,4)] .
  ultimately show ?thesis
    using h1 by (intro exI [of _ ?s] exI [of _ "h1\<lparr>h_place := H_Store\<rparr>"]) (auto simp: put_thread_def)
qed

lemma request_reaches_close:
  assumes inv: "requests_inv env m ls s0 s" and h: "hthreads s t = Some h" "h_todo h = k # ks"
    and pl: "h_place h = H_Receive" and free: "lock_of s = None"
  shows "\<exists>s' h'. (service_step env)\<^sup>*\<^sup>* s s' \<and> requests_inv env m ls s0 s' \<and> stored s' = stored s @ [(t, k)] \<and>
    hthreads s' = (hthreads s)(t \<mapsto> h') \<and> h_place h' = H_Close \<and> lock_of s' = None"
proof -
  obtain s1 h1 where s1: "(service_step env)\<^sup>*\<^sup>* s s1" "requests_inv env m ls s0 s1" "stored s1 = stored s"
    "hthreads s1 = (hthreads s)(t \<mapsto> h1)" "h_place h1 = H_Store" "h_todo h1 = k # ks"
    using request_takes_lock [OF assms] by blast
  have h1: "hthreads s1 t = Some h1" using s1(4) by simp
  obtain s2 where s2: "store_line env t h1 k s1 = Inr s2" "requests_inv env m ls s0 s2"
    using store_request [OF s1(2) h1 s1(6,5)] by blast
  then obtain h2 where h2: "hthreads s2 = (hthreads s)(t \<mapsto> h2)" "h_place h2 = H_Echo" "h_todo h2 = k # ks"
    "stored s2 = stored s @ [(t, k)]"
    using s1(3,4,6) by (auto simp: store_line_def bindR_Inr_iff put_thread_def)
  obtain s3 f where s3: "(service_step env)\<^sup>*\<^sup>* s2 s3" "requests_inv env m ls s0 s3" "stored s3 = stored s2"
    "hthreads s3 = (hthreads s2)(t \<mapsto> h2\<lparr>h_file := f, h_place := H_Unlock\<rparr>)"
    using echo_finishes [OF s2(2), of t h2 k ks] h2(1,2,3) by auto
  let ?h = "h2\<lparr>h_file := f, h_place := H_Unlock\<rparr>"
  have t: "hthreads s3 t = Some ?h" using s3(4) by simp
  let ?s = "put_thread t (?h\<lparr>h_place := H_Close\<rparr>) (s3\<lparr>lock_of := None\<rparr>)"
  have "service_step env s1 s2"
    using s2(1) h1 s1(5,6) by (intro a_thread_moves [of env t]) (simp add: handler_move_def)
  moreover have "service_step env s3 ?s"
    using t h2(3) by (intro a_thread_moves [of env t]) (simp add: handler_move_def)
  ultimately have "(service_step env)\<^sup>*\<^sup>* s ?s" using s1(1) s3(1) by (meson rtranclp.simps rtranclp_trans)
  moreover have "requests_inv env m ls s0 ?s" using lock_request(2) [OF s3(2) t] h2(3) by simp
  ultimately show ?thesis
    using h2 s3(3,4) by (intro exI [of _ ?s] exI [of _ "?h\<lparr>h_place := H_Close\<rparr>"]) (auto simp: put_thread_def)
qed

text \<open>
  C34. The close of one connection undoes the seek of another. A thread that holds the mutex
  handles a seek command to a byte of a stored line. If it goes on undisturbed, what it sends
  starts at that byte. If another thread, which has already released the mutex, closes its
  file in between, what it sends starts at the first byte of the first line.
\<close>

theorem close_undoes_seek_of_other_connection:
  assumes "requests_start env m ls s0" and "(service_step env)\<^sup>*\<^sup>* s0 s"
    and "hthreads s t = Some h" and "h_place h = H_Store" and "hd (h_todo h) = seek_line cmd offs"
    and "hthreads s u = Some g" and "h_place g = H_Close" and "u \<noteq> t"
  defines "L \<equiv> held ls (filter (\<lambda>(_, k). plain k) (stored s))"
  assumes "unat cmd < length L" and "unat offs < length (L ! unat cmd)"
  shows "(\<exists>s1 s2 bs. handler_move env t s = Some (Inr s1) \<and> handler_move env t s1 = Some (Inr s2) \<and>
      sent s2 = sent s @ [(t, bs)] \<and> bs \<noteq> [] \<and>
      bs = take (length bs) (drop (length (concat (take (unat cmd) L)) + unat offs) (concat L))) \<and>
    (\<exists>s1 s2 s3 bs. handler_move env t s = Some (Inr s1) \<and> handler_move env u s1 = Some (Inr s2) \<and>
      handler_move env t s2 = Some (Inr s3) \<and>
      sent s3 = sent s @ [(t, bs)] \<and> bs \<noteq> [] \<and> bs = take (length bs) (concat L))"
proof -
  let ?p = "length (concat (take (unat cmd) L)) + unat offs"
  have L: "L = held ls (written (stored s))" by (simp add: L_def written_def)
  have inv: "requests_inv env m ls s0 s" using requests_run [OF assms(1,2)] by blast
  have "h_todo h \<noteq> []" "h_todo g \<noteq> []"
    using requests_thread [OF inv assms(3)] requests_thread [OF inv assms(6)] assms(4,7) by (auto simp: asks_ok_def)
  then obtain ks l ls' where k: "h_todo h = seek_line cmd offs # ks" "h_todo g = l # ls'"
    using assms(5) by (metis list.collapse)
  obtain s1 f where s1: "handler_move env t s = Some (Inr s1)" "requests_inv env m ls s0 s1"
    "hthreads s1 = (hthreads s)(t \<mapsto> h\<lparr>h_file := f, h_place := H_Echo\<rparr>)" "unat (f_pos f) = 0"
    "sent s1 = sent s" "stored s1 = stored s @ [(t, seek_line cmd offs)]" "unat (lseekPos (device s1)) = ?p"
    using seek_move [OF inv assms(3) k(1) assms(4), folded L, OF assms(10,11)] by blast
  have same: "held ls (written (stored s1)) = L" using s1(6) by (simp add: L seek_line_not_plain)
  have in_L: "?p < length (concat L)"
    using nth_line_within [OF assms(10,11)] .
  have echo: "\<exists>s'' bs. handler_move env t s' = Some (Inr s'') \<and> sent s'' = sent s @ [(t, bs)] \<and> bs \<noteq> [] \<and>
      bs = take (length bs) (drop (unat (lseekPos (device s'))) (concat L))"
    if "requests_inv env m ls s0 s'" "hthreads s' t = Some (h\<lparr>h_file := f, h_place := H_Echo\<rparr>)"
      "held ls (written (stored s')) = L" "sent s' = sent s" "unat (lseekPos (device s')) \<le> ?p" for s'
    using echo_request [OF that(1,2), of "seek_line cmd offs" ks] that k(1) s1(4) in_L
    by (auto simp: handler_move_def)
  have g: "hthreads s1 u = Some g" using s1(3) assms(6,8) by simp
  obtain s2 where s2: "close_file env u g s1 = Inr s2" "requests_inv env m ls s0 s2" "lseekPos (device s2) = 0"
    using close_request [OF s1(2) g k(2) assms(7)] by blast
  then have "hthreads s2 t = hthreads s1 t" "sent s2 = sent s1" "stored s2 = stored s1"
    using assms(8) by (auto simp: close_file_def put_thread_def bindR_Inr_iff)
  then have second: "\<exists>s3 bs. handler_move env t s2 = Some (Inr s3) \<and> sent s3 = sent s @ [(t, bs)] \<and> bs \<noteq> [] \<and>
      bs = take (length bs) (concat L)"
    using echo [OF s2(2)] s1(3,5) same s2(3) by simp
  have "handler_move env u s1 = Some (Inr s2)" using s2(1) g assms(7) k(2) by (simp add: handler_move_def)
  moreover have "\<exists>s2 bs. handler_move env t s1 = Some (Inr s2) \<and> sent s2 = sent s @ [(t, bs)] \<and> bs \<noteq> [] \<and>
      bs = take (length bs) (drop ?p (concat L))"
    using echo [OF s1(2)] s1(3,5,7) same by simp
  ultimately show ?thesis using s1(1) second by blast
qed

theorem close_undoes_seek_of_other_connection_witness:
  "\<exists>s0 s s1 s2 bs. requests_start server_env 40 demo_lines s0 \<and> (service_step server_env)\<^sup>*\<^sup>* s0 s \<and> handler_move server_env 1 s = Some (Inr s1) \<and>
     handler_move server_env 1 s1 = Some (Inr s2) \<and> sent s2 = sent s @ [(1, bs)] \<and> bs \<noteq> [] \<and>
     bs = take (length bs) (CHR ''b'' # NL # CHR ''c'' # NL # ''z'' @ [NL])"
proof -
  obtain w :: "(kstate \<times> struct_file) world"
    where w: "device_shut server_env (target w) demo_lines" by (rule demo_served)
  let ?z = "''z'' @ [NL]"
  let ?s0 = "seeking_service\<lparr>device := fst (target w), hthreads :=
    [1 \<mapsto> demo_thread [seek_line 0 1], 2 \<mapsto> demo_thread [?z]]\<rparr>"
  have "request (seek_line 0 1)" "request ?z"
    using short_seek by (auto simp: request_def plain_def is_line_def AESD_SOCKET_IOC_STRING_def)
  then have start: "requests_start server_env 40 demo_lines ?s0"
    using w short_seek
    by (cases "target w") (auto simp: requests_start_def seeking_service_def demo_service_def demo_thread_def
        device_ready_def demo_lines_def split: if_splits)
  obtain s1 g where s1: "(service_step server_env)\<^sup>*\<^sup>* ?s0 s1" "requests_inv server_env 40 demo_lines ?s0 s1"
    "stored s1 = [(2, ?z)]" "hthreads s1 = (hthreads ?s0)(2 \<mapsto> g)" "h_place g = H_Close" "lock_of s1 = None"
    using request_reaches_close [OF requests_start_inv [OF start], of 2 _ ?z "[]"]
    by (auto simp: seeking_service_def demo_service_def demo_thread_def)
  obtain s h where s: "(service_step server_env)\<^sup>*\<^sup>* s1 s" "stored s = [(2, ?z)]"
    "hthreads s = (hthreads s1)(1 \<mapsto> h)" "h_place h = H_Store" "h_todo h = [seek_line 0 1]"
    using request_takes_lock [OF s1(2), of 1 _ "seek_line 0 1" "[]"] s1(3,4,6)
    by (auto simp: demo_thread_def)
  have run: "(service_step server_env)\<^sup>*\<^sup>* ?s0 s" using s1(1) s(1) by (rule rtranclp_trans)
  have L: "held demo_lines (filter (\<lambda>(_, k). plain k) (stored s)) = demo_lines @ [?z]"
    using s(2) by (simp add: held_def plain_def is_line_def AESD_SOCKET_IOC_STRING_def demo_lines_def keep_last_def)
  show ?thesis
    using close_undoes_seek_of_other_connection [OF start run, of 1 h 0 1 2 g, unfolded L] s s1(4,5) run start
    by (simp add: demo_lines_def) blast
qed

end
