(* ===== verification/Timestamper.thy ===== *)
theory Timestamper
  imports Handler
begin

text \<open>
  The time stamps of \<open>server/timestamper.c\<close>, which the server writes every ten seconds when
  it is built to work on a regular file, and that file: the build with
  \<open>USE_AESD_CHAR_DEVICE\<close> equal to 0, in which every \<open>open\<close> of the target file truncates it.
\<close>

section \<open>The calendar\<close>

text \<open>
  \<open>gmtime\<close> for times from 1970 on, in seconds, by the definition of the Gregorian calendar.
  \<open>tm_year\<close> is the full year here.
\<close>

record tm =
  tm_sec :: nat
  tm_min :: nat
  tm_hour :: nat
  tm_mday :: nat
  tm_mon :: nat
  tm_year :: nat
  tm_wday :: nat

definition leap :: "nat \<Rightarrow> bool" where
  "leap y \<longleftrightarrow> y mod 4 = 0 \<and> (y mod 100 \<noteq> 0 \<or> y mod 400 = 0)"

definition year_days :: "nat \<Rightarrow> nat" where
  "year_days y = (if leap y then 366 else 365)"

definition month_lengths :: "nat \<Rightarrow> nat list" where
  "month_lengths y = [31, if leap y then 29 else 28, 31, 30, 31, 30, 31, 31, 30, 31, 30, 31]"

text \<open>The year of a day, counted from the first of January of year \<open>y\<close>, and the day in it.\<close>

function split_years :: "nat \<Rightarrow> nat \<Rightarrow> nat \<times> nat" where
  "split_years y d = (if d < year_days y then (y, d) else split_years (Suc y) (d - year_days y))"
  by pat_completeness auto
termination
  by (relation "measure snd") (auto simp: year_days_def)

declare split_years.simps [simp del]

fun split_months :: "nat \<Rightarrow> nat list \<Rightarrow> nat \<Rightarrow> nat \<times> nat" where
  "split_months m [] d = (m, d)"
| "split_months m (n # ns) d = (if d < n then (m, d) else split_months (Suc m) ns (d - n))"

definition gmtime :: "nat \<Rightarrow> tm" where
  "gmtime t =
     (let days = t div 86400;
          secs = t mod 86400;
          (y, yd) = split_years 1970 days;
          (m, d) = split_months 0 (month_lengths y) yd
      in \<lparr>tm_sec = secs mod 60, tm_min = secs div 60 mod 60, tm_hour = secs div 3600,
          tm_mday = Suc d, tm_mon = m, tm_year = y, tm_wday = (days + 4) mod 7\<rparr>)"

section \<open>\<open>strftime\<close>\<close>

definition day_names :: "string list" where
  "day_names = [''Sun'', ''Mon'', ''Tue'', ''Wed'', ''Thu'', ''Fri'', ''Sat'']"

definition month_names :: "string list" where
  "month_names = [''Jan'', ''Feb'', ''Mar'', ''Apr'', ''May'', ''Jun'', ''Jul'', ''Aug'',
     ''Sep'', ''Oct'', ''Nov'', ''Dec'']"

definition two_digits :: "nat \<Rightarrow> string" where
  "two_digits n = (if n < 10 then ''0'' @ decimal n else decimal n)"

text \<open>The conversions of the format, in the C locale; the result of \<open>gmtime\<close> is in UTC.\<close>

definition convert :: "tm \<Rightarrow> byte \<Rightarrow> string" where
  "convert x c =
     (if c = CHR ''a'' then day_names ! tm_wday x
      else if c = CHR ''d'' then two_digits (tm_mday x)
      else if c = CHR ''b'' then month_names ! tm_mon x
      else if c = CHR ''Y'' then decimal (tm_year x)
      else if c = CHR ''T'' then two_digits (tm_hour x) @ '':'' @ two_digits (tm_min x) @ '':'' @ two_digits (tm_sec x)
      else if c = CHR ''z'' then ''+0000''
      else if c = CHR ''n'' then [NL]
      else [CHR ''%'', c])"

fun expand :: "tm \<Rightarrow> string \<Rightarrow> string" where
  "expand x [] = []"
| "expand x [c] = [c]"
| "expand x (c # c' # cs) = (if c = CHR ''%'' then convert x c' @ expand x cs else c # expand x (c' # cs))"

text \<open>\<open>None\<close> is the result 0: the text and its NUL do not fit.\<close>

definition strftime :: "nat \<Rightarrow> string \<Rightarrow> tm \<Rightarrow> string option" where
  "strftime maxsize format x = (if length (expand x format) < maxsize then Some (expand x format) else None)"

section \<open>The handler of the timer signal\<close>

definition stamp_format :: string where
  "stamp_format = ''%a, %d %b %Y %T %z%n''"

text \<open>
  The bytes that are written: \<open>timestamp:\<close> and the time. When \<open>strftime\<close> returns 0 only the
  first ten are.
\<close>

definition stamp :: "nat \<Rightarrow> byte list" where
  "stamp now = ''timestamp:'' @ (case strftime (1024 - 10) stamp_format (gmtime now) of
     Some s \<Rightarrow> s | None \<Rightarrow> [])"

text \<open>
  The handler runs on top of whatever thread the signal interrupts. When that thread holds
  the mutex, the handler waits for itself. The results of the calls on the file are not
  looked at.
\<close>

definition TimeStamper :: "'f file_ops \<Rightarrow> nat \<Rightarrow> 'f world \<Rightarrow> 'f world res" where
  "TimeStamper ops now w =
     (if FileMutex w then Inl SelfDeadlock
      else bindR (f_open ops (target w)) (\<lambda>(fileFD, f).
        bindR (f_write ops fileFD (stamp now) f) (\<lambda>(_, f).
          bindR (f_close ops fileFD f) (\<lambda>f. Inr (w\<lparr>target := f\<rparr>)))))"

text \<open>
  The set-up of the timer: the calls it makes, in order, and whether it ends the process.
  The result of \<open>timer_create\<close> is overwritten before it is looked at.
\<close>

datatype timer_call = TimerCreate | SigAction | TimerSetTime nat nat

definition LaunchTimestamper :: "int \<Rightarrow> int \<Rightarrow> int \<Rightarrow> timer_call list \<times> unit res" where
  "LaunchTimestamper create_result sigaction_result settime_result =
     (let res = create_result;
          done_calls = [TimerCreate, SigAction] in
      if sigaction_result = - 1 then (done_calls, Inl (Exit (- 1)))
      else
        (let done_calls = done_calls @ [TimerSetTime 10 10];
             res = settime_result in
         if res \<noteq> 0 then (done_calls, Inl (Exit (- 1))) else (done_calls, Inr ())))"

section \<open>A regular file\<close>

text \<open>
  \<open>O_TRUNC\<close> on every open. A write goes to the offset; \<open>ioctl\<close> is refused; \<open>fstat\<close> and
  \<open>mmap\<close> give the whole content.
\<close>

record reg_file =
  content :: "byte list"
  offset :: nat

definition put_at :: "nat \<Rightarrow> byte list \<Rightarrow> byte list \<Rightarrow> byte list" where
  "put_at k buf c = take k (c @ replicate (k - length c) NUL) @ buf @ drop (k + length buf) c"

definition regular_ops :: "reg_file file_ops" where
  "regular_ops = \<lparr>
     f_open = (\<lambda>_. Inr (3, \<lparr>content = [], offset = 0\<rparr>)),
     f_close = (\<lambda>_ f. Inr f),
     f_write = (\<lambda>_ buf f. Inr (of_nat (length buf),
       \<lparr>content = put_at (offset f) buf (content f), offset = offset f + length buf\<rparr>)),
     f_ioctl = (\<lambda>_ _ f. Inr (- 1, f)),
     f_read = (\<lambda>_ n f. (let bs = take (unat n) (drop (offset f) (content f)) in
       Inr (of_nat (length bs), bs, f\<lparr>offset := offset f + length bs\<rparr>))),
     f_map = (\<lambda>_ f. content f)\<rparr>"

section \<open>The stamp is a line\<close>

lemma length_decimal:
  "n < 10 \<Longrightarrow> length (decimal n) = 1"
  "10 \<le> n \<Longrightarrow> length (decimal n) = Suc (length (decimal (n div 10)))"
  by (subst decimal.simps, simp)+

lemma two_digits_chars: "n < 100 \<Longrightarrow> length (two_digits n) = 2 \<and> (\<forall>c \<in> set (two_digits n). isdigit c)"
proof -
  assume "n < 100"
  moreover have "length (decimal n) = (if n < 10 then 1 else 2)" if "n < 100" for n
  proof (cases "n < 10")
    case False
    have "n div 10 < 10" using that by linarith
    with False show ?thesis by (simp add: length_decimal)
  qed (simp add: length_decimal)
  ultimately show ?thesis
    using decimal_digits [of n] by (auto simp: two_digits_def isdigit_def)
qed

lemma split_months_bounds:
  "\<forall>n \<in> set ns. n \<le> 31 \<Longrightarrow> d < sum_list ns \<Longrightarrow>
     split_months m ns d = (m', d') \<Longrightarrow> m' < m + length ns \<and> d' < 31"
proof (induction m ns d rule: split_months.induct)
  case (1 m d)
  then show ?case by simp
next
  case (2 m n ns d)
  then show ?case by (cases "d < n") auto
qed

lemma month_lengths_sum: "sum_list (month_lengths y) = year_days y"
  by (simp add: month_lengths_def year_days_def)

lemma split_years_bound: "snd (split_years y d) < year_days (fst (split_years y d))"
  by (induction y d rule: split_years.induct) (subst (1 2) split_years.simps, simp)

lemma month_lengths_le: "(\<forall>n \<in> set (month_lengths y). n \<le> 31) \<and> length (month_lengths y) = 12"
  by (simp add: month_lengths_def)

text \<open>A year is no later than the day count allows.\<close>

lemma split_years_le: "365 * (fst (split_years y d) - y) \<le> d \<and> y \<le> fst (split_years y d)"
proof (induction y d rule: split_years.induct)
  case (1 y d)
  show ?case
  proof (cases "d < year_days y")
    case True
    then show ?thesis by (subst (1 2) split_years.simps) simp
  next
    case False
    have "365 \<le> year_days y" by (simp add: year_days_def)
    then show ?thesis
      using 1 [OF False] False by (subst (1 2) split_years.simps) auto
  qed
qed

lemma gmtime_bounds:
  assumes "t < 253000000000"
  shows "tm_sec (gmtime t) < 60" "tm_min (gmtime t) < 60" "tm_hour (gmtime t) < 24"
    "0 < tm_mday (gmtime t) \<and> tm_mday (gmtime t) < 32" "tm_mon (gmtime t) < 12" "tm_wday (gmtime t) < 7"
    "1970 \<le> tm_year (gmtime t) \<and> tm_year (gmtime t) < 10000"
proof -
  obtain y yd where y: "split_years 1970 (t div 86400) = (y, yd)" by (cases "split_years 1970 (t div 86400)")
  obtain m d where m: "split_months 0 (month_lengths y) yd = (m, d)" by (cases "split_months 0 (month_lengths y) yd")
  have "yd < year_days y" using split_years_bound [of 1970 "t div 86400"] y by simp
  then have md: "m < 12 \<and> d < 31"
    using split_months_bounds [OF _ _ m] month_lengths_le [of y] by (simp add: month_lengths_sum)
  have "t div 86400 < 2928241" using assms by (simp add: less_mult_imp_div_less)
  then have yy: "1970 \<le> y \<and> y < 10000"
  proof -
    have "365 * (y - 1970) \<le> t div 86400" "1970 \<le> y" using split_years_le [of 1970 "t div 86400"] y by simp_all
    then have "y - 1970 < 8023" using \<open>t div 86400 < 2928241\<close> by linarith
    with \<open>1970 \<le> y\<close> show ?thesis by simp
  qed
  have secs: "t mod 86400 div 3600 < 24" by (simp add: less_mult_imp_div_less)
  show "tm_sec (gmtime t) < 60" "tm_min (gmtime t) < 60" "tm_hour (gmtime t) < 24"
    "0 < tm_mday (gmtime t) \<and> tm_mday (gmtime t) < 32" "tm_mon (gmtime t) < 12" "tm_wday (gmtime t) < 7"
    "1970 \<le> tm_year (gmtime t) \<and> tm_year (gmtime t) < 10000"
    using md yy secs by (simp_all add: gmtime_def y m Let_def)
qed

lemma decimal_four: "1000 \<le> n \<Longrightarrow> n < 10000 \<Longrightarrow> length (decimal n) = 4"
proof -
  assume n: "1000 \<le> n" "n < 10000"
  have "100 \<le> n div 10" "10 \<le> n div 10 div 10" "n div 10 div 10 div 10 < 10" using n by linarith+
  with n show ?thesis by (simp add: length_decimal)
qed

lemma expand_stamp:
  "expand x stamp_format = day_names ! tm_wday x @ '', '' @ two_digits (tm_mday x) @ '' ''
     @ month_names ! tm_mon x @ '' '' @ decimal (tm_year x) @ '' '' @ two_digits (tm_hour x) @ '':''
     @ two_digits (tm_min x) @ '':'' @ two_digits (tm_sec x) @ '' '' @ ''+0000'' @ [NL]"
  by (simp add: stamp_format_def convert_def)

lemma names_ok:
  "i < 7 \<Longrightarrow> length (day_names ! i) = 3 \<and> NL \<notin> set (day_names ! i) \<and> NUL \<notin> set (day_names ! i)"
  "i < 12 \<Longrightarrow> length (month_names ! i) = 3 \<and> NL \<notin> set (month_names ! i) \<and> NUL \<notin> set (month_names ! i)"
  by (simp_all add: day_names_def month_names_def less_Suc_eq numeral_nat)
     (elim disjE; simp)+

lemma stamp_body:
  assumes "now < 253000000000"
  obtains s where "stamp now = ''timestamp:'' @ s @ [NL]" "length s = 31" "NL \<notin> set s" "NUL \<notin> set s"
proof -
  let ?x = "gmtime now"
  note b = gmtime_bounds [OF assms]
  define s where "s = day_names ! tm_wday ?x @ '', '' @ two_digits (tm_mday ?x) @ '' ''
     @ month_names ! tm_mon ?x @ '' '' @ decimal (tm_year ?x) @ '' '' @ two_digits (tm_hour ?x) @ '':''
     @ two_digits (tm_min ?x) @ '':'' @ two_digits (tm_sec ?x) @ '' '' @ ''+0000''"
  have dig: "\<forall>c \<in> set xs. isdigit c \<Longrightarrow> NL \<notin> set xs \<and> NUL \<notin> set xs" for xs
    by (auto simp: isdigit_def)
  have two: "length (two_digits n) = 2 \<and> NL \<notin> set (two_digits n) \<and> NUL \<notin> set (two_digits n)" if "n < 100" for n
    using two_digits_chars [OF that] dig [of "two_digits n"] by simp
  have parts: "n \<in> {tm_mday ?x, tm_hour ?x, tm_min ?x, tm_sec ?x} \<Longrightarrow> n < 100" for n
    using b(1-4) by auto
  have len: "length s = 31" and chars: "NL \<notin> set s" "NUL \<notin> set s"
    using names_ok(1) [OF b(6)] names_ok(2) [OF b(5)] two [OF parts] decimal_four [of "tm_year ?x"] b(7)
      dig [OF decimal_digits, of "tm_year ?x"]
    by (simp_all add: s_def)
  have e: "expand ?x stamp_format = s @ [NL]" by (simp add: expand_stamp s_def)
  have "stamp now = ''timestamp:'' @ s @ [NL]"
    unfolding stamp_def strftime_def e using len by simp
  with len chars show ?thesis by (rule that [rotated 1])
qed

section \<open>The server on a regular file\<close>

text \<open>A line that is written when the offset is at the end is appended, and sent with all before it.\<close>

lemma segment_regular:
  assumes "plain l" "NUL \<in> set post" "\<not> FileMutex w" "offset (target w) = length (content (target w))"
    and "cfd \<noteq> 0"
  shows "process_segment False regular_ops (l @ post) (length l) fd cfd w = Some (Inr (w\<lparr>
    target := \<lparr>content = content (target w) @ l, offset = length (content (target w) @ l)\<rparr>,
    sends := sends w @ [(cfd, content (target w) @ l)]\<rparr>))"
proof -
  have l: "length l \<le> 400" using assms(1) by (simp add: plain_def is_line_def)
  have put: "put_at (length c) l c = c @ l" for c by (simp add: put_at_def)
  have "store_or_seek regular_ops (l @ post) (length l) fd (w\<lparr>FileMutex := True\<rparr>) = Inr (w\<lparr>FileMutex := True,
      target := \<lparr>content = content (target w) @ l, offset = length (content (target w) @ l)\<rparr>\<rparr>)"
    using written_fits [OF l] assms(4)
    by (simp add: store_or_seek_def plain_not_seek [OF assms(1,2)] regular_ops_def put)
  then show ?thesis
    using assms(3,5) by (simp add: process_segment_def answer_def regular_ops_def)
qed

lemma chunk_regular:
  assumes "\<not> FileMutex w" "residualSize h = 0" "length (buffer h) = 400"
    and "received n h = k" "plain k" "NUL \<in> set (drop (length k) (buffer h))" "cfd \<noteq> 0"
  shows "handler_chunk False regular_ops cfd n (h, w) = Some (Inr (after_chunk h k 0, w\<lparr>
    target := \<lparr>content = k, offset = length k\<rparr>, sends := sends w @ [(cfd, k)]\<rparr>))"
proof -
  let ?post = "drop (length k) (buffer h)"
  let ?f = "\<lparr>content = [], offset = 0\<rparr>"
  have op: "f_open regular_ops (target w) = Inr (3, ?f)" by (simp add: regular_ops_def)
  have seg: "process_segment False regular_ops (k @ ?post) (length k) 3 cfd (w\<lparr>target := ?f\<rparr>)
      = Some (Inr (w\<lparr>target := \<lparr>content = k, offset = length k\<rparr>, sends := sends w @ [(cfd, k)]\<rparr>))"
    using segment_regular [OF assms(5,6), of "w\<lparr>target := ?f\<rparr>" cfd 3] assms(1,7) by simp
  have "is_line k" using assms(5) by (simp add: plain_def)
  from process_loop_one [OF this seg] have loop: "process_loop False regular_ops (k @ ?post) (length k) 3 cfd
      0 0 0 (w\<lparr>target := ?f\<rparr>)
      = Some (Inr (length k, 0, w\<lparr>target := \<lparr>content = k, offset = length k\<rparr>, sends := sends w @ [(cfd, k)]\<rparr>))" .
  have cl: "f_close regular_ops 3 (target (w\<lparr>target := \<lparr>content = k, offset = length k\<rparr>, sends := sends w @ [(cfd, k)]\<rparr>))
      = Inr \<lparr>content = k, offset = length k\<rparr>" by (simp add: regular_ops_def)
  show ?thesis using handler_chunk_clean [OF assms(2,4,3) op loop cl] by simp
qed

section \<open>Properties\<close>

text \<open>
  Every time stamp up to the year 9992 is one line of exactly 42 bytes that ends with its
  only newline and cannot be taken for a seek command: \<open>strftime\<close> never runs out of space.
\<close>

theorem stamp_is_a_line:
  assumes "now < 253000000000"
  shows "plain (stamp now) \<and> length (stamp now) = 42"
proof -
  obtain s where "stamp now = ''timestamp:'' @ s @ [NL]" "length s = 31" "NL \<notin> set s" "NUL \<notin> set s"
    using assms by (rule stamp_body)
  then show ?thesis
    by (simp add: plain_def is_line_def AESD_SOCKET_IOC_STRING_def butlast_append)
qed

theorem stamp_is_a_line_witness:
  "plain (stamp 1700000000) \<and> length (stamp 1700000000) = 42"
  using stamp_is_a_line [of 1700000000] by simp

text \<open>
  C37. In the build on a regular file the target does not accumulate: it is truncated by
  every \<open>open\<close>, so after lines that arrive one by one it holds only the last of them, and
  each is answered with itself alone; a time stamp leaves nothing but itself. When the
  timer signal interrupts the thread that holds the mutex, the handler waits for ever.
\<close>

theorem regular_file_keeps_only_the_last:
  assumes "\<not> FileMutex w" and "between_lines m h" and "peer_input h = concat ks @ rest"
    and "\<forall>k \<in> set ks. plain k \<and> length k \<le> m" and "cfd \<noteq> 0"
  shows "\<exists>h' w' w''. handler_loop False regular_ops cfd (one_by_one ks) (h, w) = Some (Inr (Waiting, h', w')) \<and>
    sends w' = sends w @ map (Pair cfd) ks \<and>
    target w' = (if ks = [] then target w else \<lparr>content = last ks, offset = length (last ks)\<rparr>) \<and>
    TimeStamper regular_ops now w' = Inr w'' \<and> content (target w'') = stamp now \<and>
    TimeStamper regular_ops now (w'\<lparr>FileMutex := True\<rparr>) = Inl SelfDeadlock"
proof -
  have "\<exists>h' w'. handler_loop False regular_ops cfd (one_by_one ks) (h, w) = Some (Inr (Waiting, h', w')) \<and>
    sends w' = sends w @ map (Pair cfd) ks \<and> \<not> FileMutex w' \<and>
    target w' = (if ks = [] then target w else \<lparr>content = last ks, offset = length (last ks)\<rparr>)"
    using assms
  proof (induction ks arbitrary: h w)
    case Nil
    then show ?case by (simp add: one_by_one_def)
  next
    case (Cons k ks)
    have k: "plain k" "length k \<le> m" "length k \<le> 400" "k \<noteq> []"
      using Cons.prems(4) by (auto simp: plain_def is_line_def)
    have h: "residualSize h = 0" "length (buffer h) = 400" "\<not> lastCall h" "NUL \<in> set (drop m (buffer h))"
      using Cons.prems(2) by (simp_all add: between_lines_def)
    have rec: "received (length k) h = k"
      using Cons.prems(3) k(3) by (intro received_all [OF h(1)]) simp_all
    let ?w = "w\<lparr>target := \<lparr>content = k, offset = length k\<rparr>, sends := sends w @ [(cfd, k)]\<rparr>"
    have chunk: "handler_chunk False regular_ops cfd (length k) (h, w) = Some (Inr (after_chunk h k 0, ?w))"
      by (rule chunk_regular [OF Cons.prems(1) h(1,2) rec k(1) NUL_before [OF h(4) k(2)] Cons.prems(5)])
    have next_prems: "\<not> FileMutex ?w" "peer_input (after_chunk h k 0) = concat ks @ rest"
      "\<forall>k \<in> set ks. plain k \<and> length k \<le> m"
      using Cons.prems(1,3,4) by (simp_all add: after_chunk_def)
    obtain h' w' where "handler_loop False regular_ops cfd (one_by_one ks) (after_chunk h k 0, ?w)
        = Some (Inr (Waiting, h', w'))" "sends w' = sends ?w @ map (Pair cfd) ks" "\<not> FileMutex w'"
      "target w' = (if ks = [] then target ?w else \<lparr>content = last ks, offset = length (last ks)\<rparr>)"
      using Cons.IH [OF next_prems(1) between_lines_after [OF Cons.prems(2) k(2)] next_prems(2,3) Cons.prems(5)]
      by blast
    then show ?case
      using chunk rec k(4) h(3) by (auto simp: one_by_one_def after_chunk_def)
  qed
  then obtain h' w' where r: "handler_loop False regular_ops cfd (one_by_one ks) (h, w) = Some (Inr (Waiting, h', w'))"
    "sends w' = sends w @ map (Pair cfd) ks" "\<not> FileMutex w'"
    "target w' = (if ks = [] then target w else \<lparr>content = last ks, offset = length (last ks)\<rparr>)"
    by blast
  have "TimeStamper regular_ops now w' = Inr (w'\<lparr>target := \<lparr>content = stamp now, offset = length (stamp now)\<rparr>\<rparr>)"
    using r(3) by (simp add: TimeStamper_def regular_ops_def put_at_def)
  moreover have "TimeStamper regular_ops now (w'\<lparr>FileMutex := True\<rparr>) = Inl SelfDeadlock"
    by (simp add: TimeStamper_def)
  ultimately show ?thesis using r by auto
qed

definition regular_world :: "reg_file world" where
  "regular_world = \<lparr>target = \<lparr>content = ''old'', offset = 0\<rparr>, FileMutex = False, sends = [], closed = []\<rparr>"

theorem regular_file_keeps_only_the_last_witness:
  "\<exists>h' w'. handler_loop False regular_ops 4 (one_by_one [''a'' @ [NL], ''b'' @ [NL]])
      (zero_handler (''a'' @ [NL] @ ''b'' @ [NL]), regular_world) = Some (Inr (Waiting, h', w')) \<and>
    sends w' = [(4, ''a'' @ [NL]), (4, ''b'' @ [NL])] \<and> content (target w') = ''b'' @ [NL]"
proof -
  have "\<not> FileMutex regular_world" "between_lines 10 (zero_handler (''a'' @ [NL] @ ''b'' @ [NL]))"
    "peer_input (zero_handler (''a'' @ [NL] @ ''b'' @ [NL])) = concat [''a'' @ [NL], ''b'' @ [NL]] @ []"
    "\<forall>k \<in> set [''a'' @ [NL], ''b'' @ [NL]]. plain k \<and> length k \<le> 10"
    by (simp_all add: regular_world_def between_lines_def zero_handler_def plain_def is_line_def
        AESD_SOCKET_IOC_STRING_def)
  moreover have "(4 :: cint) \<noteq> 0" by simp
  ultimately obtain h' w' where "handler_loop False regular_ops 4 (one_by_one [''a'' @ [NL], ''b'' @ [NL]])
      (zero_handler (''a'' @ [NL] @ ''b'' @ [NL]), regular_world) = Some (Inr (Waiting, h', w'))"
    "sends w' = sends regular_world @ map (Pair 4) [''a'' @ [NL], ''b'' @ [NL]]"
    "target w' = (if [''a'' @ [NL], ''b'' @ [NL]] = [] then target regular_world
       else \<lparr>content = last [''a'' @ [NL], ''b'' @ [NL]], offset = length (last [''a'' @ [NL], ''b'' @ [NL]])\<rparr>)"
    using regular_file_keeps_only_the_last [of regular_world 10 _ "[''a'' @ [NL], ''b'' @ [NL]]" "[]" 4 0] by blast
  then show ?thesis by (intro exI [of _ h'] exI [of _ w']) (simp del: handler_loop.simps add: regular_world_def)
qed

end
