(* ===== verification/Local_Socket.thy ===== *)
theory Local_Socket
  imports Prelude
begin

text \<open>
  The interthread socket of \<open>server/localsocket.c\<close>: a datagram socket in the local domain
  that the main thread wants to use to tell the receiver thread to close. The address is
  laid out in memory as \<open>struct sockaddr_un\<close>; the sockets of the process are a table from
  descriptors to sockets. No call of the program connects a socket, so \<open>send\<close> on it fails;
  the theory shows that no message can ever be received.
\<close>

section \<open>The address\<close>

text \<open>\<open>struct sockaddr_un\<close> of Linux: a 2-byte family and 108 bytes for the path.\<close>

abbreviation NUL :: byte where
  "NUL \<equiv> CHR 0x00"

definition sun_path_size :: nat where
  "sun_path_size = 108"

definition sun_path_offset :: nat where
  "sun_path_offset = 2"

text \<open>\<open>strncpy\<close> copies at most \<open>n\<close> bytes of the string and fills up with NUL bytes.\<close>

definition strncpy :: "byte list \<Rightarrow> nat \<Rightarrow> byte list" where
  "strncpy src n = take n src @ replicate (n - length src) NUL"

text \<open>\<open>strlen\<close> faults when the array holds no NUL byte: it would read past its end.\<close>

definition strlen :: "byte list \<Rightarrow> nat res" where
  "strlen s = (if NUL \<in> set s then Inr (length (takeWhile (\<lambda>c. c \<noteq> NUL) s)) else Inl OutOfBounds)"

section \<open>The sockets of the process\<close>

record local_socket =
  bound_to :: "byte list option"      \<comment> \<open>the address bytes given to bind\<close>
  peer :: "cint option"               \<comment> \<open>where send delivers: set by connect only\<close>
  queue :: "byte list list"           \<comment> \<open>datagrams that have arrived\<close>

record its_state =
  interthreadSocketFD :: cint
  sockets :: "cint \<rightharpoonup> local_socket"

text \<open>What the system answers to \<open>socket\<close>, \<open>setsockopt\<close> and \<open>bind\<close>.\<close>

record its_answers =
  a_socket :: cint
  a_setsockopt :: cint
  a_bind :: cint

text \<open>
  \<open>MakeNamedSocket\<close>. The result is the descriptor, or the exit of the process with status
  \<open>-2\<close>. \<open>filename\<close> is a C string without its terminating NUL byte.
\<close>

definition MakeNamedSocket ::
    "its_answers \<Rightarrow> byte list \<Rightarrow> (cint \<rightharpoonup> local_socket) \<Rightarrow> (cint \<times> (cint \<rightharpoonup> local_socket)) res" where
  "MakeNamedSocket a filename ss =
     (let sock = a_socket a in
      if sint sock < 0 then Inl (Exit (- 2))
      else if sint (a_setsockopt a) < 0 then Inl (Exit (- 2))
      else
        let path = (strncpy filename sun_path_size)[sun_path_size - 1 := NUL] in
        bindR (strlen path) (\<lambda>len.
          let size = sun_path_offset + len in
          if sint (a_bind a) < 0 then Inl (Exit (- 2))
          else Inr (sock, ss(sock \<mapsto>
                 \<lparr>bound_to = Some (take (size - sun_path_offset) path), peer = None, queue = []\<rparr>))))"

definition InitITS :: "its_answers \<Rightarrow> its_state \<Rightarrow> its_state res" where
  "InitITS a s = bindR (MakeNamedSocket a [] (sockets s)) (\<lambda>(fd, ss).
     Inr (s\<lparr>interthreadSocketFD := fd, sockets := ss\<rparr>))"

definition CloseITS :: "its_state \<Rightarrow> its_state" where
  "CloseITS s = s\<lparr>sockets := (sockets s)(interthreadSocketFD s := None), interthreadSocketFD := 0\<rparr>"

text \<open>
  \<open>send\<close> without an address: the datagram goes to the peer. A descriptor that is no socket
  or a socket that has no peer is refused (\<open>ENOTSOCK\<close>, \<open>EBADF\<close>, \<open>ENOTCONN\<close>).
\<close>

definition send_datagram :: "cint \<Rightarrow> byte list \<Rightarrow> (cint \<rightharpoonup> local_socket) \<Rightarrow> (ssize_t \<times> (cint \<rightharpoonup> local_socket))" where
  "send_datagram fd msg ss = (case ss fd of
     None \<Rightarrow> (- 1, ss)
   | Some s \<Rightarrow> (case peer s of
       None \<Rightarrow> (- 1, ss)
     | Some p \<Rightarrow> (case ss p of
         None \<Rightarrow> (- 1, ss)
       | Some t \<Rightarrow> (of_nat (length msg), ss(p \<mapsto> t\<lparr>queue := queue t @ [msg]\<rparr>)))))"

text \<open>
  \<open>SendOnITS\<close> first reads an \<open>int\<close> at the start of the message for the log, whatever the
  length of the message; the result of \<open>send\<close> is ignored.
\<close>

definition SendOnITS :: "byte list \<Rightarrow> nat \<Rightarrow> its_state \<Rightarrow> its_state res" where
  "SendOnITS message len s =
     (if length message < 4 \<or> length message < len then Inl OutOfBounds
      else Inr (s\<lparr>sockets := snd (send_datagram (interthreadSocketFD s) (take len message) (sockets s))\<rparr>))"

section \<open>Lemmas\<close>

lemma length_strncpy [simp]: "length (strncpy src n) = n"
  by (simp add: strncpy_def)

lemma takeWhile_not_NUL:
  assumes "NUL \<notin> set fn"
  shows "takeWhile (\<lambda>c. c \<noteq> NUL) ((strncpy fn (Suc n))[n := NUL]) = take n fn"
proof -
  have "(strncpy fn (Suc n))[n := NUL] = take n (strncpy fn (Suc n)) @ [NUL]"
    by (simp add: upd_conv_take_nth_drop)
  also have "take n (strncpy fn (Suc n)) = take n fn @ replicate (n - length fn) NUL"
    by (simp add: strncpy_def min_def)
  finally have *: "(strncpy fn (Suc n))[n := NUL] = take n fn @ replicate (n - length fn) NUL @ [NUL]"
    by simp
  have "takeWhile (\<lambda>c. c \<noteq> NUL) (take n fn @ NUL # zs) = take n fn" for zs
    using assms by (subst takeWhile_append2) (auto dest: in_set_takeD)
  then show ?thesis
    unfolding * by (cases "n - length fn") simp_all
qed

text \<open>The path of the address always ends within its array.\<close>

lemma path_length:
  assumes "NUL \<notin> set fn"
  shows "strlen ((strncpy fn sun_path_size)[sun_path_size - 1 := NUL]) = Inr (min 107 (length fn))"
    "take (min 107 (length fn)) ((strncpy fn sun_path_size)[sun_path_size - 1 := NUL]) = take 107 fn"
proof -
  let ?p = "(strncpy fn 108)[107 := NUL]"
  have tw: "takeWhile (\<lambda>c. c \<noteq> NUL) ?p = take 107 fn"
    using takeWhile_not_NUL [OF assms, of 107] by simp
  have "NUL \<in> set ?p" by (rule set_update_memI) simp
  with tw show "strlen ((strncpy fn sun_path_size)[sun_path_size - 1 := NUL]) = Inr (min 107 (length fn))"
    by (simp add: strlen_def sun_path_size_def min.commute)
  have "take (length (take 107 fn)) ?p = take 107 fn"
    using takeWhile_eq_take [of "\<lambda>c. c \<noteq> NUL" ?p] tw by simp
  then show "take (min 107 (length fn)) ((strncpy fn sun_path_size)[sun_path_size - 1 := NUL]) = take 107 fn"
    by (simp add: sun_path_size_def min.commute)
qed

section \<open>Any use of the socket\<close>

datatype its_op = Init its_answers | Close | Send "byte list" nat

primrec its_step :: "its_op \<Rightarrow> its_state \<Rightarrow> its_state call" where
  "its_step (Init a) s = Some (InitITS a s)"
| "its_step Close s = Some (Inr (CloseITS s))"
| "its_step (Send msg n) s = Some (SendOnITS msg n s)"

text \<open>Every socket of the table has no peer and has received nothing.\<close>

definition unconnected :: "(cint \<rightharpoonup> local_socket) \<Rightarrow> bool" where
  "unconnected ss \<longleftrightarrow> (\<forall>fd s. ss fd = Some s \<longrightarrow> peer s = None \<and> queue s = [])"

lemma unconnected_empty [simp]: "unconnected Map.empty"
  by (simp add: unconnected_def)

lemma send_unconnected: "unconnected ss \<Longrightarrow> send_datagram fd msg ss = (- 1, ss)"
  by (auto simp: send_datagram_def unconnected_def split: option.splits)

lemma MakeNamedSocket_unconnected:
  "MakeNamedSocket a fn ss = Inr (fd, ss') \<Longrightarrow> unconnected ss \<Longrightarrow> unconnected ss'"
  by (auto simp: MakeNamedSocket_def Let_def bindR_Inr_iff unconnected_def split: if_splits)

lemma CloseITS_unconnected: "unconnected (sockets s) \<Longrightarrow> unconnected (sockets (CloseITS s))"
  by (simp add: CloseITS_def unconnected_def)

lemma its_step_unconnected:
  "its_step p s = Some (Inr s') \<Longrightarrow> unconnected (sockets s) \<Longrightarrow> unconnected (sockets s')"
  by (cases p)
     (auto simp: InitITS_def bindR_Inr_iff SendOnITS_def send_unconnected CloseITS_unconnected
           dest: MakeNamedSocket_unconnected split: if_splits)

lemma run_unconnected:
  "run_calls its_step ps s = Some (Inr s') \<Longrightarrow> unconnected (sockets s) \<Longrightarrow> unconnected (sockets s')"
proof (induction ps arbitrary: s)
  case (Cons p ps)
  then obtain s1 where "its_step p s = Some (Inr s1)" "run_calls its_step ps s1 = Some (Inr s')"
    by (cases "its_step p s"; cases "the (its_step p s)") auto
  with Cons its_step_unconnected show ?case by blast
qed simp

section \<open>Properties\<close>

text \<open>
  \<open>MakeNamedSocket\<close> ends the process with status -2 exactly when \<open>socket\<close>,
  \<open>setsockopt\<close> or \<open>bind\<close> fails. Otherwise the new socket is bound to the file name cut to
  107 bytes: the address has no overrun and no missing terminator, however long the name,
  and the size given to \<open>bind\<close> counts exactly the bytes of the path. The other sockets of
  the process are untouched.
\<close>

theorem MakeNamedSocket_binds_cut_name:
  assumes "NUL \<notin> set filename"
  shows "MakeNamedSocket a filename ss =
    (if sint (a_socket a) < 0 \<or> sint (a_setsockopt a) < 0 \<or> sint (a_bind a) < 0 then Inl (Exit (- 2))
     else Inr (a_socket a, ss(a_socket a \<mapsto>
       \<lparr>bound_to = Some (take 107 filename), peer = None, queue = []\<rparr>)))"
  using path_length [OF assms] by (simp add: MakeNamedSocket_def Let_def)

theorem MakeNamedSocket_binds_cut_name_witness:
  "MakeNamedSocket \<lparr>a_socket = 5, a_setsockopt = 0, a_bind = 0\<rparr> (replicate 200 CHR ''x'') Map.empty =
     Inr (5, [5 \<mapsto> \<lparr>bound_to = Some (replicate 107 CHR ''x''), peer = None, queue = []\<rparr>])"
  using MakeNamedSocket_binds_cut_name [of "replicate 200 CHR ''x''"
      "\<lparr>a_socket = 5, a_setsockopt = 0, a_bind = 0\<rparr>" Map.empty]
  by simp

text \<open>
  C32. Whatever is done with the interthread socket, in any order and any number of times,
  nothing is ever received on any socket: after every run that does not end the process,
  all queues are empty, and one more \<open>send\<close> reports \<open>-1\<close> and delivers nothing. The message
  with which the main thread wants to stop the receiver thread is therefore always lost;
  only the flag \<open>closeRequested\<close> stops it.
\<close>

theorem no_message_is_ever_delivered:
  assumes "run_calls its_step ps \<lparr>interthreadSocketFD = 0, sockets = Map.empty\<rparr> = Some (Inr s)"
    and "4 \<le> n" and "n \<le> length msg"
  shows "SendOnITS msg n s = Inr s \<and>
    send_datagram (interthreadSocketFD s) (take n msg) (sockets s) = (- 1, sockets s) \<and>
    (\<forall>fd t. sockets s fd = Some t \<longrightarrow> queue t = [])"
proof -
  have "unconnected (sockets s)" using run_unconnected [OF assms(1)] by simp
  then show ?thesis
    using assms(2,3) by (simp add: SendOnITS_def send_unconnected) (simp add: unconnected_def)
qed

theorem no_message_is_ever_delivered_witness:
  "\<exists>s. run_calls its_step [Init \<lparr>a_socket = 5, a_setsockopt = 0, a_bind = 0\<rparr>, Send (replicate 4 NUL) 4]
      \<lparr>interthreadSocketFD = 0, sockets = Map.empty\<rparr> = Some (Inr s) \<and>
    interthreadSocketFD s = 5 \<and> send_datagram 5 (replicate 4 NUL) (sockets s) = (- 1, sockets s)"
proof -
  let ?s = "\<lparr>interthreadSocketFD = 5,
      sockets = [5 \<mapsto> \<lparr>bound_to = Some [], peer = None, queue = []\<rparr>]\<rparr>"
  have r: "run_calls its_step [Init \<lparr>a_socket = 5, a_setsockopt = 0, a_bind = 0\<rparr>, Send (replicate 4 NUL) 4]
      \<lparr>interthreadSocketFD = 0, sockets = Map.empty\<rparr> = Some (Inr ?s)"
    using path_length [of "[]"]
    by (simp add: InitITS_def MakeNamedSocket_def Let_def SendOnITS_def send_datagram_def)
  show ?thesis
    using no_message_is_ever_delivered [OF r, of 4 "replicate 4 NUL"] r
    by (intro exI [of _ ?s]) simp
qed

end
