(* ===== verification/Server_Main.thy ===== *)
theory Server_Main
  imports Timestamper Local_Socket
begin

text \<open>
  The main thread of the server, \<open>server/aesdsocket.c\<close>: start-up, daemon mode, the wait for
  a signal and the clean-up. A process is the list of the calls it has made and the status
  it has ended with; every answer of the system is a field of \<open>main_env\<close>. The race between
  the signal handler and the wait on the condition variable is a state machine of its own.
\<close>

section \<open>Processes\<close>

text \<open>The calls of the main thread, in the words of the source.\<close>

datatype main_call =
    CondInit | OpenSocket | BindSocket nat | Fork | Setsid | Sigaction string | Listen nat
  | OpenTarget bool            \<comment> \<open>whether the file is created and truncated\<close>
  | CloseTarget | MutexInit
  | TimerCall timer_call
  | CreateReceiver | CallInitITS | CondWait | CallSendOnITS "byte list" | JoinReceiver
  | CloseSocket | MutexDestroy | CondDestroy | CallCloseITS

record process =
  calls :: "main_call list"
  exited :: "int option"

text \<open>A statement of a process that has not ended; \<open>fail\<close> of \<open>aesdsocket.h\<close> ends it.\<close>

definition act :: "main_call \<Rightarrow> process \<Rightarrow> process" where
  "act c p = (if exited p = None then p\<lparr>calls := calls p @ [c]\<rparr> else p)"

definition exit_with :: "int \<Rightarrow> process \<Rightarrow> process" where
  "exit_with code p = (if exited p = None then p\<lparr>exited := Some code\<rparr> else p)"

definition fail :: "int \<Rightarrow> process \<Rightarrow> process" where
  "fail returnCode p = exit_with returnCode p"

text \<open>\<open>if (b) {fail(..., returnCode);}\<close>\<close>

definition fail_if :: "bool \<Rightarrow> int \<Rightarrow> process \<Rightarrow> process" where
  "fail_if b returnCode p = (if b then fail returnCode p else p)"

record main_env =
  use_char_device :: bool      \<comment> \<open>USE_AESD_CHAR_DEVICE\<close>
  argv :: "string list"
  e_socket :: cint
  e_bind :: cint
  e_fork1 :: cint
  e_fork2 :: cint
  e_listen :: cint
  e_open :: cint
  e_sigaction :: int           \<comment> \<open>the calls of LaunchTimestamper\<close>
  e_timer_settime :: int
  e_its :: its_answers
  e_flag :: "bool list"        \<comment> \<open>closeRequested, each time it is tested\<close>

section \<open>Start-up\<close>

text \<open>A call of \<open>fork\<close> returns in both processes; the parent gets the id of the child.\<close>

definition Daemonize :: "cint \<Rightarrow> cint \<Rightarrow> process \<Rightarrow> process" where
  "Daemonize fork1 fork2 p =
     (let p = act Fork p;
          p = (if fork1 = - 1 then fail (- 1) p
               else if fork1 \<noteq> 0 then exit_with 0 p
               else act Setsid p);
          p = act Fork p
      in if fork2 = - 1 then fail (- 1) p
         else if fork2 \<noteq> 0 then exit_with 0 p
         else p)"

fun daemon_option :: "main_env \<Rightarrow> string list \<Rightarrow> process \<Rightarrow> process" where
  "daemon_option e [] p = p"
| "daemon_option e (a # as) p =
     (if a = ''-d'' then Daemonize (e_fork1 e) (e_fork2 e) p else daemon_option e as p)"

definition subscribeToSignals :: "process \<Rightarrow> process" where
  "subscribeToSignals p = act (Sigaction ''SIGTERM'') (act (Sigaction ''SIGINT'') p)"

text \<open>\<open>LaunchTimestamper\<close> is compiled in only for the regular file.\<close>

definition launch_timestamper :: "main_env \<Rightarrow> process \<Rightarrow> process" where
  "launch_timestamper e p =
     (if use_char_device e then p
      else
        (let (cs, r) = LaunchTimestamper 0 (e_sigaction e) (e_timer_settime e);
             p = fold (\<lambda>c. act (TimerCall c)) cs p
         in case r of Inl (Exit code) \<Rightarrow> exit_with code p | _ \<Rightarrow> p))"

definition init_its :: "main_env \<Rightarrow> process \<Rightarrow> process" where
  "init_its e p =
     (let p = act CallInitITS p in
      case InitITS (e_its e) \<lparr>interthreadSocketFD = 0, sockets = Map.empty\<rparr> of
        Inl (Exit code) \<Rightarrow> exit_with code p
      | _ \<Rightarrow> p)"

text \<open>Everything before the wait, up to the creation of the interthread socket.\<close>

definition start_up :: "main_env \<Rightarrow> process \<Rightarrow> process" where
  "start_up e p =
     (let p = act CondInit p;
          p = act OpenSocket p;
          p = fail_if (e_socket e = - 1) (- 1) p;
          p = act (BindSocket 9000) p;
          p = fail_if (e_bind e = - 1) (- 1) p;
          p = daemon_option e (argv e) p;
          p = subscribeToSignals p;
          p = act (Listen 10) p;
          p = fail_if (e_listen e = - 1) (- 1) p;
          p = act (OpenTarget (\<not> use_char_device e)) p;
          p = fail_if (e_open e = - 1) (- 1) p;
          p = act CloseTarget p;
          p = act MutexInit p;
          p = launch_timestamper e p;
          p = act CreateReceiver p
      in init_its e p)"

section \<open>The wait and the clean-up\<close>

text \<open>Each element is a test of \<open>closeRequested\<close>; when they are used up the thread still waits.\<close>

fun wait_loop :: "bool list \<Rightarrow> process \<Rightarrow> process option" where
  "wait_loop [] p = None"
| "wait_loop (flag # flags) p = (if \<not> flag then wait_loop flags (act CondWait p) else Some p)"

definition clean_up :: "process \<Rightarrow> process" where
  "clean_up p =
     (let p = act (CallSendOnITS (replicate 4 (CHR 0x00))) p;
          p = act JoinReceiver p;
          p = act CloseSocket p;
          p = act MutexDestroy p;
          p = act CondDestroy p;
          p = act CallCloseITS p
      in exit_with 0 p)"

text \<open>\<open>None\<close>: the main thread is still waiting.\<close>

definition main :: "main_env \<Rightarrow> process option" where
  "main e =
     (let p = start_up e \<lparr>calls = [], exited = None\<rparr> in
      if exited p = None then map_option clean_up (wait_loop (e_flag e) p) else Some p)"

section \<open>Waiting for a signal\<close>

text \<open>
  The main thread is at the test of the loop, between the test and the wait, in
  \<open>pthread_cond_wait\<close>, or past the loop. \<open>closingMutex\<close> is never locked by the program, so it
  orders nothing.
\<close>

datatype main_place = Testing | AboutToWait | InWait | PastLoop

record closing =
  main_at :: main_place
  closeRequested :: bool

text \<open>
  \<open>pthread_cond_broadcast\<close> wakes the thread only when it is already waiting.
\<close>

definition sigHandler :: "closing \<Rightarrow> closing" where
  "sigHandler s = s\<lparr>closeRequested := True,
     main_at := (if main_at s = InWait then Testing else main_at s)\<rparr>"

text \<open>One step of the main thread; \<open>None\<close> when it cannot move.\<close>

definition main_step :: "closing \<Rightarrow> closing option" where
  "main_step s = (case main_at s of
     Testing \<Rightarrow> Some (s\<lparr>main_at := if closeRequested s then PastLoop else AboutToWait\<rparr>)
   | AboutToWait \<Rightarrow> Some (s\<lparr>main_at := InWait\<rparr>)
   | InWait \<Rightarrow> None
   | PastLoop \<Rightarrow> None)"

inductive closing_step :: "closing \<Rightarrow> closing \<Rightarrow> bool" where
  main_moves: "main_step s = Some s' \<Longrightarrow> closing_step s s'"
| a_signal: "closing_step s (sigHandler s)"
| spurious: "main_at s = InWait \<Longrightarrow> closing_step s (s\<lparr>main_at := Testing\<rparr>)"

inductive_cases closing_stepE: "closing_step s s'"

inductive closing_reachable :: "closing \<Rightarrow> bool" where
  at_start: "closing_reachable \<lparr>main_at = Testing, closeRequested = False\<rparr>"
| moves: "closing_reachable s \<Longrightarrow> closing_step s s' \<Longrightarrow> closing_reachable s'"

text \<open>The main thread runs on its own until it cannot move (at most \<open>n\<close> steps).\<close>

fun run_main :: "nat \<Rightarrow> closing \<Rightarrow> closing" where
  "run_main 0 s = s"
| "run_main (Suc n) s = (case main_step s of None \<Rightarrow> s | Some s' \<Rightarrow> run_main n s')"

lemma reachable_past: "closing_reachable s \<Longrightarrow> main_at s = PastLoop \<Longrightarrow> closeRequested s"
proof (induction rule: closing_reachable.induct)
  case (moves s s')
  from moves.hyps(2) moves.IH moves.prems show ?case
    by (cases rule: closing_step.cases)
       (auto simp: main_step_def sigHandler_def split: main_place.splits if_splits)
qed simp

section \<open>Calls of a process\<close>

lemma act_simps [simp]:
  "act c \<lparr>calls = cs, exited = None\<rparr> = \<lparr>calls = cs @ [c], exited = None\<rparr>"
  "act c \<lparr>calls = cs, exited = Some k\<rparr> = \<lparr>calls = cs, exited = Some k\<rparr>"
  by (simp_all add: act_def)

lemma exit_simps [simp]:
  "exit_with k \<lparr>calls = cs, exited = None\<rparr> = \<lparr>calls = cs, exited = Some k\<rparr>"
  "exit_with k \<lparr>calls = cs, exited = Some k'\<rparr> = \<lparr>calls = cs, exited = Some k'\<rparr>"
  by (simp_all add: exit_with_def)

lemma fail_if_simps [simp]:
  "fail_if b k \<lparr>calls = cs, exited = None\<rparr> = \<lparr>calls = cs, exited = if b then Some k else None\<rparr>"
  "fail_if b k \<lparr>calls = cs, exited = Some k'\<rparr> = \<lparr>calls = cs, exited = Some k'\<rparr>"
  by (simp_all add: fail_if_def fail_def)

section \<open>What a run of the main thread does\<close>

definition daemon :: "main_env \<Rightarrow> bool" where
  "daemon e \<longleftrightarrow> ''-d'' \<in> set (argv e)"

definition timer_ok :: "main_env \<Rightarrow> bool" where
  "timer_ok e \<longleftrightarrow> use_char_device e \<or> (e_sigaction e \<noteq> - 1 \<and> e_timer_settime e = 0)"

definition its_ok :: "main_env \<Rightarrow> bool" where
  "its_ok e \<longleftrightarrow> 0 \<le> sint (a_socket (e_its e)) \<and> 0 \<le> sint (a_setsockopt (e_its e)) \<and> 0 \<le> sint (a_bind (e_its e))"

text \<open>Every call of the start-up succeeds, in the process that is to serve.\<close>

definition start_ok :: "main_env \<Rightarrow> bool" where
  "start_ok e \<longleftrightarrow> e_socket e \<noteq> - 1 \<and> e_bind e \<noteq> - 1 \<and> (daemon e \<longrightarrow> e_fork1 e = 0 \<and> e_fork2 e = 0) \<and>
     e_listen e \<noteq> - 1 \<and> e_open e \<noteq> - 1 \<and> timer_ok e \<and> its_ok e"

definition start_calls :: "main_env \<Rightarrow> main_call list" where
  "start_calls e = [CondInit, OpenSocket, BindSocket 9000] @
     (if daemon e then [Fork, Setsid, Fork] else []) @
     [Sigaction ''SIGINT'', Sigaction ''SIGTERM'', Listen 10, OpenTarget (\<not> use_char_device e),
      CloseTarget, MutexInit] @
     (if use_char_device e then [] else map TimerCall [TimerCreate, SigAction, TimerSetTime 10 10]) @
     [CreateReceiver, CallInitITS]"

definition clean_up_calls :: "main_call list" where
  "clean_up_calls = [CallSendOnITS (replicate 4 (CHR 0x00)), JoinReceiver, CloseSocket, MutexDestroy,
     CondDestroy, CallCloseITS]"

lemma daemon_option_eq:
  "daemon_option e as p = (if ''-d'' \<in> set as then Daemonize (e_fork1 e) (e_fork2 e) p else p)"
  by (induction as) auto

lemma Daemonize_simps [simp]:
  "Daemonize f1 f2 \<lparr>calls = cs, exited = None\<rparr> =
     (if f1 = - 1 then \<lparr>calls = cs @ [Fork], exited = Some (- 1)\<rparr>
      else if f1 \<noteq> 0 then \<lparr>calls = cs @ [Fork], exited = Some 0\<rparr>
      else \<lparr>calls = cs @ [Fork, Setsid, Fork],
            exited = if f2 = - 1 then Some (- 1) else if f2 \<noteq> 0 then Some 0 else None\<rparr>)"
  "Daemonize f1 f2 \<lparr>calls = cs, exited = Some k\<rparr> = \<lparr>calls = cs, exited = Some k\<rparr>"
  by (simp_all add: Daemonize_def fail_def Let_def)

lemma subscribe_simps [simp]:
  "subscribeToSignals \<lparr>calls = cs, exited = None\<rparr> =
     \<lparr>calls = cs @ [Sigaction ''SIGINT'', Sigaction ''SIGTERM''], exited = None\<rparr>"
  "subscribeToSignals \<lparr>calls = cs, exited = Some k\<rparr> = \<lparr>calls = cs, exited = Some k\<rparr>"
  by (simp_all add: subscribeToSignals_def)

definition timer_calls :: "main_env \<Rightarrow> timer_call list" where
  "timer_calls e = (if use_char_device e then []
     else [TimerCreate, SigAction] @ (if e_sigaction e = - 1 then [] else [TimerSetTime 10 10]))"

lemma launch_simps [simp]:
  "launch_timestamper e \<lparr>calls = cs, exited = None\<rparr> =
     \<lparr>calls = cs @ map TimerCall (timer_calls e), exited = if timer_ok e then None else Some (- 1)\<rparr>"
  "launch_timestamper e \<lparr>calls = cs, exited = Some k\<rparr> = \<lparr>calls = cs, exited = Some k\<rparr>"
  by (simp_all add: launch_timestamper_def LaunchTimestamper_def Let_def timer_calls_def timer_ok_def)

lemma InitITS_eq:
  "InitITS a s = (if 0 \<le> sint (a_socket a) \<and> 0 \<le> sint (a_setsockopt a) \<and> 0 \<le> sint (a_bind a)
     then Inr (s\<lparr>interthreadSocketFD := a_socket a,
       sockets := (sockets s)(a_socket a \<mapsto> \<lparr>bound_to = Some [], peer = None, queue = []\<rparr>)\<rparr>)
     else Inl (Exit (- 2)))"
  using path_length [of "[]"] by (auto simp: InitITS_def MakeNamedSocket_def Let_def not_less)

lemma init_its_simps [simp]:
  "init_its e \<lparr>calls = cs, exited = None\<rparr> =
     \<lparr>calls = cs @ [CallInitITS], exited = if its_ok e then None else Some (- 2)\<rparr>"
  "init_its e \<lparr>calls = cs, exited = Some k\<rparr> = \<lparr>calls = cs, exited = Some k\<rparr>"
  by (simp_all add: init_its_def InitITS_eq its_ok_def Let_def)

lemma start_up_ok:
  "start_ok e \<Longrightarrow> start_up e \<lparr>calls = [], exited = None\<rparr> = \<lparr>calls = start_calls e, exited = None\<rparr>"
  by (cases "daemon e")
     (auto simp: start_ok_def start_up_def Let_def daemon_option_eq daemon_def [symmetric]
       start_calls_def timer_ok_def timer_calls_def)

text \<open>
  Where a start-up that fails has ended: the calls it has made before, none of which belongs
  to the clean-up, and the status.
\<close>

definition failed_start :: "main_env \<Rightarrow> process \<Rightarrow> bool" where
  "failed_start e p \<longleftrightarrow> exited p \<noteq> None \<and> JoinReceiver \<notin> set (calls p) \<and> CloseSocket \<notin> set (calls p) \<and>
    (exited p = Some 0 \<longleftrightarrow> e_socket e \<noteq> - 1 \<and> e_bind e \<noteq> - 1 \<and> daemon e \<and>
       (e_fork1 e \<notin> {0, - 1} \<or> e_fork1 e = 0 \<and> e_fork2 e \<notin> {0, - 1})) \<and>
    (exited p = Some (- 2) \<longleftrightarrow> CreateReceiver \<in> set (calls p)) \<and>
    exited p \<in> {Some 0, Some (- 2), Some (- 1)}"

lemma start_up_fails:
  assumes "\<not> start_ok e"
  shows "failed_start e (start_up e \<lparr>calls = [], exited = None\<rparr>)"
proof -
  note up = start_up_def Let_def daemon_option_eq daemon_def [symmetric] timer_calls_def failed_start_def
  consider (net) "e_socket e = - 1 \<or> e_bind e = - 1"
    | (fork) "e_socket e \<noteq> - 1" "e_bind e \<noteq> - 1" "daemon e" "e_fork1 e \<noteq> 0 \<or> e_fork2 e \<noteq> 0"
    | (late) "e_socket e \<noteq> - 1" "e_bind e \<noteq> - 1" "daemon e \<Longrightarrow> e_fork1 e = 0 \<and> e_fork2 e = 0"
        "e_listen e = - 1 \<or> e_open e = - 1 \<or> \<not> timer_ok e"
    | (its) "e_socket e \<noteq> - 1" "e_bind e \<noteq> - 1" "daemon e \<Longrightarrow> e_fork1 e = 0 \<and> e_fork2 e = 0"
        "e_listen e \<noteq> - 1" "e_open e \<noteq> - 1" "timer_ok e" "\<not> its_ok e"
    using assms unfolding start_ok_def by blast
  then show ?thesis
  proof cases
    case net
    then show ?thesis by (cases "e_socket e = - 1") (simp_all add: up)
  next
    case fork
    then show ?thesis by (cases "e_fork1 e = - 1"; cases "e_fork1 e = 0") (simp_all add: up)
  next
    case late
    then show ?thesis
      by (cases "daemon e"; cases "e_listen e = - 1"; cases "e_open e = - 1") (auto simp: up)
  next
    case its
    then show ?thesis by (cases "daemon e") (auto simp: up)
  qed
qed

lemma wait_loop_waits:
  "exited p = None \<Longrightarrow> wait_loop flags p =
     (if True \<in> set flags
      then Some (p\<lparr>calls := calls p @ replicate (length (takeWhile Not flags)) CondWait\<rparr>)
      else None)"
  by (induction flags arbitrary: p) (auto simp: act_def)

lemma clean_up_eq:
  "exited p = None \<Longrightarrow> clean_up p = \<lparr>calls = calls p @ clean_up_calls, exited = Some 0\<rparr>"
  by (simp add: clean_up_def clean_up_calls_def act_def exit_with_def)

section \<open>Properties\<close>


definition demo_main :: main_env where
  "demo_main = \<lparr>use_char_device = False, argv = [''aesdsocket'', ''-d'', ''-d''], e_socket = 3, e_bind = 0,
     e_fork1 = 0, e_fork2 = 0, e_listen = 0, e_open = 4, e_sigaction = 0, e_timer_settime = 0,
     e_its = \<lparr>a_socket = 5, a_setsockopt = 0, a_bind = 0\<rparr>, e_flag = [False, True]\<rparr>"

lemma demo_main_ok: "start_ok demo_main"
  by (simp add: start_ok_def demo_main_def daemon_def timer_ok_def its_ok_def)


text \<open>
  When the start-up fails the process ends at once, without waiting and without any
  clean-up. The status is 0 only for the two parents of daemon mode, -2 only for a failure of
  the interthread socket, and -1 otherwise; the receiver thread exists only in the case -2,
  in which it is not joined.
\<close>

theorem failed_start_exits:
  assumes "\<not> start_ok e"
  shows "\<exists>p. main e = Some p \<and> exited p \<noteq> None \<and> JoinReceiver \<notin> set (calls p) \<and> CloseSocket \<notin> set (calls p) \<and>
    (exited p = Some 0 \<longleftrightarrow> e_socket e \<noteq> - 1 \<and> e_bind e \<noteq> - 1 \<and> daemon e \<and>
       (e_fork1 e \<notin> {0, - 1} \<or> e_fork1 e = 0 \<and> e_fork2 e \<notin> {0, - 1})) \<and>
    (exited p = Some (- 2) \<longleftrightarrow> CreateReceiver \<in> set (calls p)) \<and>
    (exited p \<in> {Some 0, Some (- 2), Some (- 1)})"
proof -
  have "failed_start e (start_up e \<lparr>calls = [], exited = None\<rparr>)" by (rule start_up_fails [OF assms])
  moreover from this have "exited (start_up e \<lparr>calls = [], exited = None\<rparr>) \<noteq> None"
    unfolding failed_start_def by blast
  then have "main e = Some (start_up e \<lparr>calls = [], exited = None\<rparr>)"
    unfolding main_def Let_def by (simp only: if_False simp_thms)
  ultimately show ?thesis unfolding failed_start_def by blast
qed

theorem failed_start_exits_witness:
  "\<exists>p. main (demo_main\<lparr>e_its := \<lparr>a_socket = 5, a_setsockopt = 0, a_bind = - 1\<rparr>\<rparr>) = Some p \<and>
     exited p \<noteq> None \<and> JoinReceiver \<notin> set (calls p)"
proof -
  have "\<not> start_ok (demo_main\<lparr>e_its := \<lparr>a_socket = 5, a_setsockopt = 0, a_bind = - 1\<rparr>\<rparr>)"
    by (simp add: start_ok_def its_ok_def)
  from failed_start_exits [OF this] show ?thesis by blast
qed

text \<open>
  Daemon mode leaves exactly one process. When both forks succeed, the original process
  and the first child end with status 0, the latter as the leader of the new session; only
  the grandchild goes on, and \<open>fork\<close> and \<open>setsid\<close> are not called again however often
  \<open>-d\<close> is given. The port is bound before the first fork, so that its failure is reported
  to the caller, with status -1 and without any fork.
\<close>

theorem daemon_leaves_one_process:
  assumes "''-d'' \<in> set (argv e)" and "e_socket e \<noteq> - 1" and "e_bind e \<noteq> - 1"
    and "pid1 \<notin> {0, - 1}" and "pid2 \<notin> {0, - 1}"
  defines "before \<equiv> [CondInit, OpenSocket, BindSocket 9000, Fork]"
  shows "main (e\<lparr>e_fork1 := pid1\<rparr>) = Some \<lparr>calls = before, exited = Some 0\<rparr> \<and>
    main (e\<lparr>e_fork1 := 0, e_fork2 := pid2\<rparr>) = Some \<lparr>calls = before @ [Setsid, Fork], exited = Some 0\<rparr> \<and>
    (\<exists>cs. calls (start_up (e\<lparr>e_fork1 := 0, e_fork2 := 0\<rparr>) \<lparr>calls = [], exited = None\<rparr>)
        = before @ [Setsid, Fork, Sigaction ''SIGINT'', Sigaction ''SIGTERM'', Listen 10] @ cs \<and>
      Fork \<notin> set cs \<and> Setsid \<notin> set cs) \<and>
    main (e\<lparr>e_bind := - 1\<rparr>) = Some \<lparr>calls = [CondInit, OpenSocket, BindSocket 9000], exited = Some (- 1)\<rparr>"
proof -
  note up = start_up_def Let_def daemon_option_eq timer_calls_def before_def
  have "main (e\<lparr>e_fork1 := pid1\<rparr>) = Some \<lparr>calls = before, exited = Some 0\<rparr>"
    "main (e\<lparr>e_fork1 := 0, e_fork2 := pid2\<rparr>) = Some \<lparr>calls = before @ [Setsid, Fork], exited = Some 0\<rparr>"
    "main (e\<lparr>e_bind := - 1\<rparr>) = Some \<lparr>calls = [CondInit, OpenSocket, BindSocket 9000], exited = Some (- 1)\<rparr>"
    using assms(1-5) by (simp_all add: main_def up)
  moreover have "\<exists>cs. calls (start_up (e\<lparr>e_fork1 := 0, e_fork2 := 0\<rparr>) \<lparr>calls = [], exited = None\<rparr>)
        = before @ [Setsid, Fork, Sigaction ''SIGINT'', Sigaction ''SIGTERM'', Listen 10] @ cs \<and>
      Fork \<notin> set cs \<and> Setsid \<notin> set cs"
    using assms(1-3)
    by (cases "e_listen e = - 1"; cases "e_open e = - 1"; cases "timer_ok (e\<lparr>e_fork1 := 0, e_fork2 := 0\<rparr>)";
        cases "its_ok (e\<lparr>e_fork1 := 0, e_fork2 := 0\<rparr>)") (auto simp: up)
  ultimately show ?thesis by blast
qed

theorem daemon_leaves_one_process_witness:
  "main (demo_main\<lparr>e_fork1 := 77\<rparr>) =
     Some \<lparr>calls = [CondInit, OpenSocket, BindSocket 9000, Fork], exited = Some 0\<rparr>"
  using daemon_leaves_one_process [of demo_main 77 78] by (simp add: demo_main_def)

text \<open>
  C31. The main thread leaves its loop only after a signal. A signal that comes while it is
  at the test or in the wait makes it leave. But a signal that comes between the test and the
  wait is lost: the flag is set, the thread waits for a condition that nobody signals again,
  and only a second signal (or a spurious wake-up) makes it leave. Holding \<open>closingMutex\<close>
  would not help either, because the handler cannot take it.
\<close>

theorem signal_between_test_and_wait_is_lost:
  assumes "closing_reachable s"
  shows "(main_at s = PastLoop \<longrightarrow> closeRequested s) \<and>
    (main_at s \<noteq> AboutToWait \<longrightarrow> main_at (run_main (Suc n) (sigHandler s)) = PastLoop) \<and>
    (main_at s = AboutToWait \<longrightarrow>
       (\<exists>s'. main_step (sigHandler s) = Some s' \<and> closeRequested s' \<and> main_at s' = InWait \<and>
          run_main n s' = s' \<and> main_at (run_main (Suc n) (sigHandler s')) = PastLoop))"
proof -
  have past: "run_main n t = t" if "main_at t = PastLoop" for n t
    using that by (cases n) (simp_all add: main_step_def)
  have inwait: "run_main n t = t" if "main_at t = InWait" for n t
    using that by (cases n) (simp_all add: main_step_def)
  have tests: "main_at (run_main (Suc n) t) = PastLoop" if "main_at t = Testing" "closeRequested t" for n t
    using that by (simp add: main_step_def past)
  have leave: "main_at (run_main (Suc n) (sigHandler s)) = PastLoop" if "main_at s \<noteq> AboutToWait"
  proof (cases "main_at s = PastLoop")
    case True
    then show ?thesis by (intro past [THEN arg_cong [where f = main_at], THEN trans]) (simp_all add: sigHandler_def)
  next
    case False
    with that have "main_at s = Testing \<or> main_at s = InWait" by (cases "main_at s") simp_all
    then have "main_at (sigHandler s) = Testing" "closeRequested (sigHandler s)"
      by (auto simp: sigHandler_def)
    then show ?thesis by (rule tests)
  qed
  have lost: "\<exists>s'. main_step (sigHandler s) = Some s' \<and> closeRequested s' \<and> main_at s' = InWait \<and>
      run_main n s' = s' \<and> main_at (run_main (Suc n) (sigHandler s')) = PastLoop"
    if "main_at s = AboutToWait"
  proof -
    let ?s = "(sigHandler s)\<lparr>main_at := InWait\<rparr>"
    have "main_step (sigHandler s) = Some ?s" using that by (simp add: main_step_def sigHandler_def)
    moreover have "closeRequested ?s" "main_at ?s = InWait" by (simp_all add: sigHandler_def)
    moreover have "main_at (run_main (Suc n) (sigHandler ?s)) = PastLoop"
      by (rule tests) (simp_all add: sigHandler_def)
    ultimately show ?thesis using inwait by blast
  qed
  show ?thesis using leave lost reachable_past [OF assms] by blast
qed

theorem signal_between_test_and_wait_is_lost_witness:
  "\<exists>s s'. closing_reachable s \<and> main_step (sigHandler s) = Some s' \<and> closeRequested s' \<and> run_main 100 s' = s'"
proof -
  let ?s = "\<lparr>main_at = AboutToWait, closeRequested = False\<rparr>"
  have r: "closing_reachable ?s"
    by (rule closing_reachable.moves [OF closing_reachable.at_start], rule closing_step.main_moves)
       (simp add: main_step_def)
  have "\<exists>s'. main_step (sigHandler ?s) = Some s' \<and> closeRequested s' \<and> main_at s' = InWait \<and>
      run_main 100 s' = s' \<and> main_at (run_main (Suc 100) (sigHandler s')) = PastLoop"
    using signal_between_test_and_wait_is_lost [OF r, of 100] by simp
  with r show ?thesis by blast
qed

end
