(* ===== verification/Server_System.thy ===== *)
theory Server_System
  imports Concurrent Receiver Server_Main
begin

text \<open>
  The server as one process: the main thread of \<open>aesdsocket.c\<close>, the receiver thread and
  every handler thread it starts, in any interleaving, with signals at any time. The parts
  are those of the other theories: the main thread and \<open>closeRequested\<close> of \<open>Server_Main\<close>,
  the receiver and its list of \<open>Receiver\<close>, the handlers on the device of \<open>Concurrent\<close>. New is
  what connects them: the flag they share, the pointer into the list that a handler starts
  with, and the end of the process. Handler \<open>i\<close> is the \<open>i\<close>-th one that is started; its
  entry in \<open>hthreads\<close> is there from the beginning, with what its peer is going to send.
\<close>

section \<open>State\<close>

datatype receiver_place = InLoop | AtDestroy | ReceiverDone

text \<open>The main thread past its loop: it joins the receiver, destroys \<open>FileMutex\<close> and returns.\<close>

datatype main_end_place = Serving | ReceiverJoined | MutexDestroyed | Exited

text \<open>
  \<open>begun\<close>: the handlers that have read their \<open>Connection\<close>, with the descriptor they read;
  \<open>last_call\<close>: those with \<open>lastCall\<close> set; \<open>closed_by\<close>: those that have ended, with the
  descriptor they closed; \<open>accepted_fds\<close> is a history of the descriptors accepted for the
  handlers, which no thread reads.
\<close>

record server =
  main_thread :: closing
  main_end :: main_end_place
  rcv :: receiver
  receiver_at :: receiver_place
  handlers :: service
  begun :: "nat \<rightharpoonup> cint"
  last_call :: "nat set"
  closed_by :: "(nat \<times> cint) list"
  accepted_fds :: "cint list"

section \<open>The threads\<close>

text \<open>
  The message that the main thread sends before it joins is never delivered
  (\<open>Local_Socket\<close>), and closing its own descriptors (\<open>clean_up\<close> of \<open>Server_Main\<close>) touches
  nothing that another thread uses: of its last calls, the join, the destruction of
  \<open>FileMutex\<close> and the return are steps.
\<close>

definition main_move :: "server \<Rightarrow> server call" where
  "main_move s = (case main_end s of
     Serving \<Rightarrow>
       if main_at (main_thread s) = PastLoop
       then (if receiver_at s = ReceiverDone then Some (Inr (s\<lparr>main_end := ReceiverJoined\<rparr>)) else None)
       else map_option (\<lambda>c. Inr (s\<lparr>main_thread := c\<rparr>)) (main_step (main_thread s))
   | ReceiverJoined \<Rightarrow> Some (Inr (s\<lparr>main_end := MutexDestroyed\<rparr>))
   | MutexDestroyed \<Rightarrow> Some (Inr (s\<lparr>main_end := Exited\<rparr>))
   | Exited \<Rightarrow> None)"

text \<open>One turn of the loop of the receiver; the first result tells whether it was the last.\<close>

definition receiver_turn :: "receiver_env \<Rightarrow> turn \<Rightarrow> receiver \<Rightarrow> (bool \<times> receiver) call" where
  "receiver_turn env t r =
     (if \<not> t_close t then
        (case found_event (t_poll t) (event_fd r) of
           None \<Rightarrow> Some (Inr (False, r))
         | Some fd \<Rightarrow>
             (let r = r\<lparr>event_fd := fd\<rparr> in
              if event_fd r = t_its t then interthread_event env t r
              else if event_fd r = socketFD env
              then bindO (accept_event env t r) (\<lambda>r. Some (Inr (False, r)))
              else Some (Inr (False, r))))
      else Some (Inr (True, r)))"

lemma receiver_loop_turn:
  "receiver_loop env (t # ts) r =
     bindO (receiver_turn env t r) (\<lambda>(stop, r). if stop then Some (Inr r) else receiver_loop env ts r)"
proof -
  have assoc: "bindO (bindO m (\<lambda>r. Some (Inr (False, r)))) (\<lambda>(stop, r). if stop then Some (Inr r) else f r) = bindO m f"
    for m :: "receiver call" and f
    by (cases m; cases "the m") simp_all
  show ?thesis by (auto simp: receiver_turn_def Let_def assoc split: option.splits)
qed

text \<open>The flag that the loop tests is the one the signal handler sets.\<close>

definition receiver_move :: "receiver_env \<Rightarrow> turn \<Rightarrow> server \<Rightarrow> server call" where
  "receiver_move env t s = (case receiver_at s of
     InLoop \<Rightarrow>
       bindO (receiver_turn env (t\<lparr>t_close := closeRequested (main_thread s)\<rparr>) (rcv s)) (\<lambda>(stop, r).
         Some (Inr (s\<lparr>rcv := r, receiver_at := if stop then AtDestroy else InLoop,
           accepted_fds := accepted_fds s @
             replicate (length (started r) - length (started (rcv s))) (t_accept t)\<rparr>)))
   | AtDestroy \<Rightarrow>
       bindO (DestroyConnectionList (connections (rcv s))) (\<lambda>l.
         Some (Inr (s\<lparr>rcv := (rcv s)\<lparr>connections := l, watched := []\<rparr>, receiver_at := ReceiverDone\<rparr>)))
   | ReceiverDone \<Rightarrow> None)"

text \<open>
  The start of a handler: it reads the descriptor through the pointer it was given. When
  the peer is already gone the process ends.
\<close>

definition handler_begins :: "nat \<Rightarrow> bool \<Rightarrow> server \<Rightarrow> server call" where
  "handler_begins i peer_known s =
     (if i < length (started (rcv s)) \<and> begun s i = None then
        bindO (item_at (connections (rcv s)) (snd (started (rcv s) ! i))) (\<lambda>it.
          if \<not> peer_known then Some (Inl (Exit (- 1)))
          else Some (Inr (s\<lparr>begun := (begun s)(i \<mapsto> m_connectionFD (m_connection it))\<rparr>)))
      else None)"

definition running :: "server \<Rightarrow> nat \<Rightarrow> bool" where
  "running s i \<longleftrightarrow> begun s i \<noteq> None \<and> i \<notin> fst ` set (closed_by s)"

definition handler_ends :: "nat \<Rightarrow> server \<Rightarrow> server" where
  "handler_ends i s = s\<lparr>closed_by := closed_by s @ [(i, the (begun s i))]\<rparr>"

text \<open>
  A step of \<open>Concurrent\<close>; after the last one of a line the thread leaves its loop when
  \<open>lastCall\<close> is set. A mutex that has been destroyed must not be used.
\<close>

definition handler_goes_on :: "kernel_env \<Rightarrow> nat \<Rightarrow> server \<Rightarrow> server call" where
  "handler_goes_on env i s = (case hthreads (handlers s) i of
     None \<Rightarrow> None
   | Some h \<Rightarrow>
       if \<not> running s i then None
       else if main_end s = MutexDestroyed \<and> (h_place h = H_Lock \<or> h_place h = H_Unlock)
       then Some (Inl UseAfterFree)
       else map_option (\<lambda>r. bindR r (\<lambda>v.
         let s = s\<lparr>handlers := v\<rparr> in
         Inr (if h_place h = H_Close \<and> i \<in> last_call s then handler_ends i s else s)))
         (handler_move env i (handlers s)))"

definition receiving :: "server \<Rightarrow> nat \<Rightarrow> bool" where
  "receiving s i \<longleftrightarrow> running s i \<and> map_option h_place (hthreads (handlers s) i) = Some H_Receive"

text \<open>The three seconds pass; or \<open>recv\<close> returns 0 or an error.\<close>

definition handler_times_out :: "nat \<Rightarrow> server \<Rightarrow> server call" where
  "handler_times_out i s =
     (if receiving s i
      then Some (Inr (if closeRequested (main_thread s) then s\<lparr>last_call := insert i (last_call s)\<rparr> else s))
      else None)"

definition peer_gone :: "nat \<Rightarrow> server \<Rightarrow> server call" where
  "peer_gone i s = (if receiving s i then Some (Inr (handler_ends i s)) else None)"

section \<open>The process\<close>

datatype server_event =
    Main_Moves | A_Signal | Wakes_Up
  | Receiver_Moves turn
  | Handler_Begins nat bool | Handler_Moves nat | Times_Out nat | Peer_Gone nat

fun server_move :: "kernel_env \<Rightarrow> receiver_env \<Rightarrow> server_event \<Rightarrow> server \<Rightarrow> server call" where
  "server_move env renv Main_Moves s = main_move s"
| "server_move env renv A_Signal s = Some (Inr (s\<lparr>main_thread := sigHandler (main_thread s)\<rparr>))"
| "server_move env renv Wakes_Up s =
     (if main_at (main_thread s) = InWait
      then Some (Inr (s\<lparr>main_thread := (main_thread s)\<lparr>main_at := Testing\<rparr>\<rparr>)) else None)"
| "server_move env renv (Receiver_Moves t) s = receiver_move renv t s"
| "server_move env renv (Handler_Begins i known) s = handler_begins i known s"
| "server_move env renv (Handler_Moves i) s = handler_goes_on env i s"
| "server_move env renv (Times_Out i) s = handler_times_out i s"
| "server_move env renv (Peer_Gone i) s = peer_gone i s"

text \<open>When \<open>main\<close> has returned there is no process any more; an event that cannot happen is passed over.\<close>

fun run_events :: "kernel_env \<Rightarrow> receiver_env \<Rightarrow> server_event list \<Rightarrow> server \<Rightarrow> server res" where
  "run_events env renv [] s = Inr s"
| "run_events env renv (e # es) s =
     (if main_end s = Exited then Inr s
      else case server_move env renv e s of
        None \<Rightarrow> run_events env renv es s
      | Some r \<Rightarrow> bindR r (run_events env renv es))"

lemma run_exited: "main_end s = Exited \<Longrightarrow> run_events env renv es s = Inr s"
  by (cases es) simp_all

lemma run_events_append:
  "run_events env renv (es @ es') s = bindR (run_events env renv es s) (run_events env renv es')"
proof (induction es arbitrary: s)
  case (Cons e es)
  then show ?case
    by (cases "server_move env renv e s"; cases "the (server_move env renv e s)") (auto simp: run_exited)
qed simp

section \<open>Pointers into the list\<close>

lemma AddConnection_keeps:
  "AddConnection (Some b) fd th l = Some (Inr (p, l')) \<Longrightarrow> a \<noteq> b \<Longrightarrow> items l a = Some it \<Longrightarrow>
     p = Some b \<and> (\<exists>it'. items l' a = Some it' \<and> m_connection it' = m_connection it)"
  by (auto simp: AddConnection_def bindO_Inr_iff mutex_lock_def mutex_unlock_def set_next_def item_at_def Let_def
      split: mutex.splits if_splits option.splits)

lemma set_thread_keeps: "set_thread l p th = Some (Inr l') \<Longrightarrow> p \<noteq> Some a \<Longrightarrow> items l' a = items l a"
  by (auto simp: set_thread_def bindO_Inr_iff item_at_def split: option.splits)

lemma accept_event_keeps:
  assumes "fresh_alloc (new_item env)" "ready (connections r) cs" "accept_event env t r = Some (Inr r')"
    and "items (connections r) a = Some it"
  shows "\<exists>it'. items (connections r') a = Some it' \<and> m_connection it' = m_connection it"
proof -
  obtain b where b: "new_item env (items (connections r)) = Some b" "b \<notin> dom (items (connections r))"
    using assms(1,2) by (auto simp: ready_def fresh_alloc_def dest: represents_finite)
  then have "a \<noteq> b" using assms(4) by auto
  show ?thesis
  proof (cases "t_accept t = - 1")
    case True
    with assms(3,4) show ?thesis by (simp add: accept_event_def)
  next
    case False
    then obtain p l l' where add: "AddConnection (Some b) (t_accept t) 0 (connections r) = Some (Inr (p, l))"
      "set_thread l p (t_create t) = Some (Inr l')" "connections r' = l'"
      using assms(3) b(1) by (auto simp: accept_event_def bindO_Inr_iff)
    from AddConnection_keeps [OF add(1) \<open>a \<noteq> b\<close> assms(4)] set_thread_keeps [OF add(2), of a] \<open>a \<noteq> b\<close> add(3)
    show ?thesis by auto
  qed
qed

text \<open>Each handler's pointer leads to an item with the descriptor accepted for it.\<close>

definition leads_to :: "receiver \<Rightarrow> pthread_t \<times> ptr \<Rightarrow> cint \<Rightarrow> bool" where
  "leads_to r x fd \<longleftrightarrow> (\<exists>a it. snd x = Some a \<and> items (connections r) a = Some it \<and>
     m_connectionFD (m_connection it) = fd)"

definition list_sound :: "receiver \<Rightarrow> cint list \<Rightarrow> bool" where
  "list_sound r fds \<longleftrightarrow> (\<exists>cs. ready (connections r) cs) \<and> list_all2 (leads_to r) (started r) fds"

lemma list_sound_event_fd [simp]: "list_sound (r\<lparr>event_fd := fd\<rparr>) fds = list_sound r fds"
  by (simp add: list_sound_def leads_to_def cong: list.rel_cong)

lemma list_sound_pointers: "list_sound r fds \<Longrightarrow> x \<in> set (started r) \<Longrightarrow> snd x \<noteq> None"
  by (auto simp: list_sound_def leads_to_def list_all2_conv_all_nth in_set_conv_nth)

lemma accept_sound:
  assumes fresh: "fresh_alloc (new_item env)" and ok: "list_sound r fds"
  shows "\<exists>r'. accept_event env t r = Some (Inr r') \<and> event_fd r' = event_fd r \<and>
    length (started r) \<le> length (started r') \<and>
    list_sound r' (fds @ replicate (length (started r') - length (started r)) (t_accept t))"
proof -
  obtain cs where cs: "ready (connections r) cs" "list_all2 (leads_to r) (started r) fds"
    using ok by (auto simp: list_sound_def)
  show ?thesis
  proof (cases "t_accept t = - 1")
    case True
    with ok show ?thesis by (simp add: accept_event_def)
  next
    case False
    obtain r' a it where r': "accept_event env t r = Some (Inr r')" "ready (connections r') (cs @ [conn_of t])"
      "event_fd r' = event_fd r"
      "started r' = started r @ (if t_create t = 0 then [(t_new t, Some a)] else [])"
      "item_at (connections r') (Some a) = Some (Inr it)" "m_connection it = conn_of t"
      using accept_event_adds [OF cs(1) fresh False] by metis
    have "leads_to r' x fd" if "leads_to r x fd" for x fd
      using that accept_event_keeps [OF fresh cs(1) r'(1)] unfolding leads_to_def by metis
    then have "list_all2 (leads_to r') (started r) fds" using cs(2) by (rule list_all2_mono [rotated])
    moreover have "leads_to r' (t_new t, Some a) (t_accept t)"
      using r'(5,6) by (auto simp: leads_to_def item_at_def conn_of_def split: option.splits)
    ultimately have "list_all2 (leads_to r') (started r')
        (fds @ replicate (length (started r') - length (started r)) (t_accept t))"
      using r'(4) by (auto intro: list_all2_appendI)
    with r' show ?thesis by (auto simp: list_sound_def)
  qed
qed

text \<open>A turn without a message from the interthread socket.\<close>

definition ordinary_turn :: "cint \<Rightarrow> turn \<Rightarrow> bool" where
  "ordinary_turn its t \<longleftrightarrow> t_its t = its \<and> t_poll t \<noteq> Event its"

lemma turn_sound:
  assumes fresh: "fresh_alloc (new_item env)" and ok: "list_sound r fds"
    and its: "event_fd r \<noteq> its" "ordinary_turn its t"
  shows "\<exists>r'. receiver_turn env t r = Some (Inr (t_close t, r')) \<and> event_fd r' \<noteq> its \<and>
    length (started r) \<le> length (started r') \<and>
    list_sound r' (fds @ replicate (length (started r') - length (started r)) (t_accept t))"
proof (cases "t_close t \<or> found_event (t_poll t) (event_fd r) = None")
  case True
  with ok its show ?thesis by (auto simp: receiver_turn_def)
next
  case False
  then obtain fd where fd: "\<not> t_close t" "found_event (t_poll t) (event_fd r) = Some fd" by auto
  then have ne: "fd \<noteq> t_its t" "fd \<noteq> its"
    using its by (auto simp: ordinary_turn_def found_event_def split: poll.splits)
  let ?r = "r\<lparr>event_fd := fd\<rparr>"
  show ?thesis
  proof (cases "fd = socketFD env")
    case True
    obtain r' where "accept_event env t ?r = Some (Inr r')" "event_fd r' = fd"
      "length (started r) \<le> length (started r')"
      "list_sound r' (fds @ replicate (length (started r') - length (started r)) (t_accept t))"
      using accept_sound [OF fresh, of ?r fds t] ok by auto
    with True fd ne show ?thesis by (auto simp: receiver_turn_def)
  next
    case False
    with fd ne ok show ?thesis by (auto simp: receiver_turn_def)
  qed
qed

section \<open>Invariant\<close>

definition main_sound :: "server \<Rightarrow> bool" where
  "main_sound s \<longleftrightarrow> closing_reachable (main_thread s) \<and>
     (receiver_at s \<noteq> InLoop \<longrightarrow> closeRequested (main_thread s)) \<and>
     (main_end s \<noteq> Serving \<longrightarrow> main_at (main_thread s) = PastLoop \<and> receiver_at s = ReceiverDone)"

definition receiver_sound :: "cint \<Rightarrow> server \<Rightarrow> bool" where
  "receiver_sound its s \<longleftrightarrow>
     (if receiver_at s = ReceiverDone then items (connections (rcv s)) = Map.empty
      else list_sound (rcv s) (accepted_fds s)) \<and>
     (\<forall>x \<in> set (started (rcv s)). snd x \<noteq> None) \<and>
     length (accepted_fds s) = length (started (rcv s)) \<and> event_fd (rcv s) \<noteq> its"

definition handlers_sound :: "kernel_env \<Rightarrow> server \<Rightarrow> server \<Rightarrow> bool" where
  "handlers_sound env s0 s \<longleftrightarrow> (service_step env)\<^sup>*\<^sup>* (handlers s0) (handlers s) \<and>
     (\<forall>i fd. begun s i = Some fd \<longrightarrow> i < length (accepted_fds s) \<and> fd = accepted_fds s ! i) \<and>
     fst ` set (stored (handlers s)) \<union> fst ` set (sent (handlers s)) \<subseteq> dom (begun s) \<and>
     distinct (map fst (closed_by s)) \<and> (\<forall>i fd. (i, fd) \<in> set (closed_by s) \<longrightarrow> begun s i = Some fd)"

definition server_inv :: "kernel_env \<Rightarrow> cint \<Rightarrow> server \<Rightarrow> server \<Rightarrow> bool" where
  "server_inv env its s0 s \<longleftrightarrow> main_sound s \<and> receiver_sound its s \<and> handlers_sound env s0 s"

text \<open>The start: nothing accepted yet, the main thread at its first test.\<close>

definition server_start :: "kernel_env \<Rightarrow> cint \<Rightarrow> nat \<Rightarrow> byte list list \<Rightarrow> server \<Rightarrow> bool" where
  "server_start env its m ls s \<longleftrightarrow> service_start env m ls (handlers s) \<and>
     main_thread s = \<lparr>main_at = Testing, closeRequested = False\<rparr> \<and> main_end s = Serving \<and>
     receiver_at s = InLoop \<and> ready (connections (rcv s)) [] \<and> started (rcv s) = [] \<and>
     event_fd (rcv s) \<noteq> its \<and> begun s = Map.empty \<and> closed_by s = [] \<and> accepted_fds s = []"

lemma server_start_inv: "server_start env its m ls s \<Longrightarrow> server_inv env its s s"
  by (auto simp: server_start_def server_inv_def main_sound_def receiver_sound_def handlers_sound_def
      list_sound_def service_start_def intro: closing_reachable.at_start)

text \<open>What is asked of the events: peers are there when their handler starts, and \<open>ordinary_turn\<close>.\<close>

fun ordinary :: "cint \<Rightarrow> server_event \<Rightarrow> bool" where
  "ordinary its (Receiver_Moves t) = ordinary_turn its t"
| "ordinary its (Handler_Begins i known) = known"
| "ordinary its e = True"

section \<open>Every event\<close>

text \<open>An event is fine when it cannot happen, or keeps the invariant, or is one of the two late accesses.\<close>

definition fine :: "kernel_env \<Rightarrow> cint \<Rightarrow> server \<Rightarrow> server \<Rightarrow> server call \<Rightarrow> bool" where
  "fine env its s0 s r \<longleftrightarrow> (case r of None \<Rightarrow> True
     | Some (Inl e) \<Rightarrow> e = UseAfterFree \<and> closeRequested (main_thread s)
     | Some (Inr s') \<Rightarrow> server_inv env its s0 s')"

lemma fine_simps [simp]:
  "fine env its s0 s None"
  "fine env its s0 s (Some (Inl e)) = (e = UseAfterFree \<and> closeRequested (main_thread s))"
  "fine env its s0 s (Some (Inr s')) = server_inv env its s0 s'"
  by (simp_all add: fine_def)

lemma main_step_reachable: "closing_reachable c \<Longrightarrow> main_step c = Some c' \<Longrightarrow> closing_reachable c'"
  by (blast intro: closing_reachable.moves closing_step.main_moves)

lemma main_step_flag: "main_step c = Some c' \<Longrightarrow> closeRequested c' = closeRequested c"
  by (auto simp: main_step_def split: main_place.splits)

lemma main_fine:
  assumes "server_inv env its s0 s"
  shows "fine env its s0 s (main_move s)"
  using assms main_step_reachable main_step_flag
  by (auto simp: main_move_def server_inv_def main_sound_def receiver_sound_def handlers_sound_def fine_def
      split: main_end_place.splits option.splits)

lemma signal_fine:
  assumes "server_inv env its s0 s"
  shows "server_inv env its s0 (s\<lparr>main_thread := sigHandler (main_thread s)\<rparr>)"
proof -
  have "closing_reachable (sigHandler (main_thread s))"
    using assms by (auto simp: server_inv_def main_sound_def intro: closing_reachable.moves closing_step.a_signal)
  with assms show ?thesis
    by (auto simp: server_inv_def main_sound_def receiver_sound_def handlers_sound_def sigHandler_def)
qed

lemma wake_fine:
  assumes "server_inv env its s0 s" "main_at (main_thread s) = InWait"
  shows "server_inv env its s0 (s\<lparr>main_thread := (main_thread s)\<lparr>main_at := Testing\<rparr>\<rparr>)"
proof -
  have "closing_reachable ((main_thread s)\<lparr>main_at := Testing\<rparr>)"
    using assms by (auto simp: server_inv_def main_sound_def intro: closing_reachable.moves closing_step.spurious)
  with assms show ?thesis
    by (auto simp: server_inv_def main_sound_def receiver_sound_def handlers_sound_def)
qed

lemma receiver_fine:
  assumes inv: "server_inv env its s0 s" and fresh: "fresh_alloc (new_item renv)" and t: "ordinary_turn its t"
  shows "fine env its s0 s (receiver_move renv t s)"
proof (cases "receiver_at s")
  case InLoop
  let ?t = "t\<lparr>t_close := closeRequested (main_thread s)\<rparr>"
  have ok: "list_sound (rcv s) (accepted_fds s)" "event_fd (rcv s) \<noteq> its" "ordinary_turn its ?t"
    using inv InLoop t by (simp_all add: server_inv_def receiver_sound_def ordinary_turn_def)
  obtain r' where r': "receiver_turn renv ?t (rcv s) = Some (Inr (closeRequested (main_thread s), r'))"
    "event_fd r' \<noteq> its" "length (started (rcv s)) \<le> length (started r')"
    "list_sound r' (accepted_fds s @ replicate (length (started r') - length (started (rcv s))) (t_accept t))"
    using turn_sound [OF fresh ok] by auto
  have "main_end s = Serving" using inv InLoop by (auto simp: server_inv_def main_sound_def)
  with inv InLoop r' list_sound_pointers [OF r'(4)] show ?thesis
    by (auto simp: receiver_move_def server_inv_def main_sound_def receiver_sound_def handlers_sound_def nth_append)
next
  case AtDestroy
  then obtain cs where "ready (connections (rcv s)) cs"
    using inv by (auto simp: server_inv_def receiver_sound_def list_sound_def)
  from destroy_ready [OF this] obtain l where
    "DestroyConnectionList (connections (rcv s)) = Some (Inr l)" "items l = Map.empty"
    by (auto simp: torn_down_def)
  with inv AtDestroy show ?thesis
    by (auto simp: receiver_move_def server_inv_def main_sound_def receiver_sound_def handlers_sound_def)
next
  case ReceiverDone
  then show ?thesis by (simp add: receiver_move_def)
qed

lemma begin_late:
  assumes "server_inv env its s0 s" "i < length (started (rcv s))" "receiver_at s = ReceiverDone"
  shows "item_at (connections (rcv s)) (snd (started (rcv s) ! i)) = Some (Inl UseAfterFree)"
proof -
  have r: "receiver_sound its s" using assms(1) by (simp add: server_inv_def)
  then have "snd (started (rcv s) ! i) \<noteq> None" using nth_mem [OF assms(2)] unfolding receiver_sound_def by blast
  moreover have "items (connections (rcv s)) = Map.empty" using r assms(3) by (simp add: receiver_sound_def)
  ultimately show ?thesis by (auto simp: item_at_def)
qed

lemma begin_item:
  assumes "server_inv env its s0 s" "i < length (started (rcv s))" "receiver_at s \<noteq> ReceiverDone"
  shows "\<exists>it. item_at (connections (rcv s)) (snd (started (rcv s) ! i)) = Some (Inr it) \<and>
    m_connectionFD (m_connection it) = accepted_fds s ! i"
proof -
  have "list_all2 (leads_to (rcv s)) (started (rcv s)) (accepted_fds s)"
    using assms by (simp add: server_inv_def receiver_sound_def list_sound_def)
  then have "leads_to (rcv s) (started (rcv s) ! i) (accepted_fds s ! i)" using assms(2) by (rule list_all2_nthD)
  then obtain a it where "snd (started (rcv s) ! i) = Some a" "items (connections (rcv s)) a = Some it"
    "m_connectionFD (m_connection it) = accepted_fds s ! i" unfolding leads_to_def by blast
  then show ?thesis by (intro exI [of _ it]) (simp add: item_at_def)
qed

lemma begin_fine:
  assumes inv: "server_inv env its s0 s"
  shows "fine env its s0 s (handler_begins i True s)"
proof (cases "i < length (started (rcv s)) \<and> begun s i = None")
  case True
  show ?thesis
  proof (cases "receiver_at s = ReceiverDone")
    case late: True
    then have "closeRequested (main_thread s)" using inv by (simp add: server_inv_def main_sound_def)
    with begin_late [OF inv _ late] True show ?thesis by (simp add: handler_begins_def)
  next
    case False
    obtain it where it: "item_at (connections (rcv s)) (snd (started (rcv s) ! i)) = Some (Inr it)"
      "m_connectionFD (m_connection it) = accepted_fds s ! i"
      using begin_item [OF inv _ False] True by blast
    have len: "length (accepted_fds s) = length (started (rcv s))"
      using inv by (simp add: server_inv_def receiver_sound_def)
    have "handlers_sound env s0 (s\<lparr>begun := (begun s)(i \<mapsto> accepted_fds s ! i)\<rparr>)"
      using inv True len by (auto simp: server_inv_def handlers_sound_def)
    with inv True it show ?thesis
      by (simp add: handler_begins_def server_inv_def main_sound_def receiver_sound_def)
  qed
next
  case False
  then show ?thesis by (auto simp: handler_begins_def)
qed

text \<open>What a step of one handler adds to the two logs is its own.\<close>

lemma handler_move_logs:
  "handler_move env t v = Some (Inr v') \<Longrightarrow>
     fst ` set (stored v') \<union> fst ` set (sent v') \<subseteq> insert t (fst ` set (stored v) \<union> fst ` set (sent v))"
  by (auto simp: handler_move_def receive_line_def store_line_def echo_once_def close_file_def put_thread_def
      bindR_Inr_iff split: option.splits list.splits handler_place.splits if_splits)

lemma handlers_sound_end:
  "handlers_sound env s0 s \<Longrightarrow> running s i \<Longrightarrow> handlers_sound env s0 (handler_ends i s)"
  by (auto simp: handlers_sound_def handler_ends_def running_def)

lemma goes_on_fine:
  assumes start: "server_start env its m ls s0" and inv: "server_inv env its s0 s"
  shows "fine env its s0 s (handler_goes_on env i s)"
proof -
  have srv: "service_start env m ls (handlers s0)" using start by (simp add: server_start_def)
  have run: "(service_step env)\<^sup>*\<^sup>* (handlers s0) (handlers s)"
    using inv by (simp add: server_inv_def handlers_sound_def)
  note reach = service_run_inv [OF srv run]
  have ok: "handler_move env i (handlers s) \<noteq> Some (Inl e)" for e
    by (rule serving.never_faults [OF reach])
  show ?thesis
  proof (cases "hthreads (handlers s) i = None \<or> \<not> running s i \<or> handler_move env i (handlers s) = None")
    case True
    then show ?thesis
      using inv by (auto simp: handler_goes_on_def server_inv_def main_sound_def split: option.splits)
  next
    case False
    then obtain h v where h: "hthreads (handlers s) i = Some h" "running s i"
      "handler_move env i (handlers s) = Some (Inr v)"
      using ok by (auto simp: sum.case_eq_if) (metis old.sum.exhaust)
    let ?s = "s\<lparr>handlers := v\<rparr>"
    have "(service_step env)\<^sup>*\<^sup>* (handlers s0) v"
      using run service_step.intros [OF h(3)] by (rule rtranclp.rtrancl_into_rtrancl)
    moreover have "fst ` set (stored v) \<union> fst ` set (sent v) \<subseteq> dom (begun s)"
    proof -
      have "fst ` set (stored (handlers s)) \<union> fst ` set (sent (handlers s)) \<subseteq> dom (begun s)" "i \<in> dom (begun s)"
        using h(2) inv by (auto simp only: running_def server_inv_def handlers_sound_def)
      with handler_move_logs [OF h(3)] show ?thesis by blast
    qed
    ultimately have hs: "handlers_sound env s0 ?s" using inv by (simp add: server_inv_def handlers_sound_def)
    moreover have "running ?s i" using h(2) by (simp add: running_def)
    ultimately have he: "handlers_sound env s0 (handler_ends i ?s)" by (rule handlers_sound_end)
    have late: "main_end s = MutexDestroyed \<Longrightarrow> closeRequested (main_thread s)"
      using inv by (simp add: server_inv_def main_sound_def)
    from inv h hs he late show ?thesis
      by (simp add: handler_goes_on_def server_inv_def main_sound_def receiver_sound_def handler_ends_def Let_def)
  qed
qed

lemma server_fine:
  assumes start: "server_start env its m ls s0" and fresh: "fresh_alloc (new_item renv)"
    and inv: "server_inv env its s0 s" and e: "ordinary its e"
  shows "fine env its s0 s (server_move env renv e s)"
proof (cases e)
  case (Handler_Begins i known)
  with e begin_fine [OF inv] show ?thesis by simp
next
  case (Times_Out i)
  with inv show ?thesis
    by (auto simp: handler_times_out_def server_inv_def main_sound_def receiver_sound_def handlers_sound_def)
next
  case (Peer_Gone i)
  have "handlers_sound env s0 (handler_ends i s)" if "receiving s i"
    using handlers_sound_end inv that by (auto simp: receiving_def server_inv_def)
  with inv Peer_Gone show ?thesis
    by (simp add: peer_gone_def server_inv_def main_sound_def receiver_sound_def handler_ends_def)
qed (use main_fine [OF inv] signal_fine [OF inv] wake_fine [OF inv] receiver_fine [OF inv fresh]
    goes_on_fine [OF start inv] e in simp_all)

section \<open>Runs\<close>

lemma flag_step:
  "server_move env renv e s = Some (Inr s') \<Longrightarrow> e \<noteq> A_Signal \<Longrightarrow>
     closeRequested (main_thread s') = closeRequested (main_thread s)"
  using main_step_flag
  by (cases e)
     (auto simp: main_move_def receiver_move_def handler_begins_def handler_goes_on_def handler_times_out_def
       peer_gone_def handler_ends_def bindO_Inr_iff bindR_Inr_iff Let_def
       split: main_end_place.splits receiver_place.splits option.splits if_splits)

lemma run_sound:
  assumes start: "server_start env its m ls s0" and fresh: "fresh_alloc (new_item renv)"
  shows "server_inv env its s0 s \<Longrightarrow> \<forall>e \<in> set es. ordinary its e \<Longrightarrow>
    (\<exists>s'. run_events env renv es s = Inr s' \<and> server_inv env its s0 s') \<or>
    (run_events env renv es s = Inl UseAfterFree \<and> (closeRequested (main_thread s) \<or> A_Signal \<in> set es))"
proof (induction es arbitrary: s)
  case (Cons e es)
  have f: "fine env its s0 s (server_move env renv e s)"
    using server_fine [OF start fresh Cons.prems(1)] Cons.prems(2) by simp
  show ?case
  proof (cases "main_end s = Exited \<or> server_move env renv e s = None")
    case True
    then consider "main_end s = Exited" | "main_end s \<noteq> Exited" "server_move env renv e s = None" by auto
    then show ?thesis
    proof cases
      case 2
      with Cons.IH [OF Cons.prems(1)] Cons.prems(2) show ?thesis by auto
    qed (use Cons.prems in simp)
  next
    case False
    then obtain r where r: "main_end s \<noteq> Exited" "server_move env renv e s = Some r" by blast
    show ?thesis
    proof (cases r)
      case (Inl e)
      with f r show ?thesis by simp
    next
      case (Inr s')
      with f r have inv': "server_inv env its s0 s'" by simp
      have "closeRequested (main_thread s') \<Longrightarrow> closeRequested (main_thread s) \<or> A_Signal = e"
        using flag_step r(2) Inr by blast
      with Cons.IH [OF inv'] Cons.prems(2) r Inr show ?thesis by auto
    qed
  qed
qed simp

text \<open>Only a handler that starts or uses the mutex can fault.\<close>

fun of_handler :: "server_event \<Rightarrow> bool" where
  "of_handler (Handler_Begins i known) = True"
| "of_handler (Handler_Moves i) = True"
| "of_handler e = False"

lemma receiver_no_fault:
  assumes "server_inv env its s0 s" "fresh_alloc (new_item renv)" "ordinary_turn its t"
  shows "receiver_move renv t s \<noteq> Some (Inl x)"
proof (cases "receiver_at s")
  case InLoop
  then have "list_sound (rcv s) (accepted_fds s)" "event_fd (rcv s) \<noteq> its"
    "ordinary_turn its (t\<lparr>t_close := closeRequested (main_thread s)\<rparr>)"
    using assms by (simp_all add: server_inv_def receiver_sound_def ordinary_turn_def)
  from turn_sound [OF assms(2) this] InLoop show ?thesis by (auto simp: receiver_move_def)
next
  case AtDestroy
  then obtain cs where "ready (connections (rcv s)) cs"
    using assms(1) by (auto simp: server_inv_def receiver_sound_def list_sound_def)
  from destroy_ready [OF this] AtDestroy show ?thesis by (auto simp: receiver_move_def)
qed (simp add: receiver_move_def)

lemma fault_of_handler:
  assumes start: "server_start env its m ls s0" and fresh: "fresh_alloc (new_item renv)"
  shows "server_inv env its s0 s \<Longrightarrow> \<forall>e \<in> set es. ordinary its e \<Longrightarrow> run_events env renv es s = Inl x \<Longrightarrow>
    \<exists>e \<in> set es. of_handler e"
proof (induction es arbitrary: s)
  case (Cons e es)
  have on: "main_end s \<noteq> Exited" using Cons.prems(3) by auto
  show ?case
  proof (cases "of_handler e \<or> server_move env renv e s = None")
    case True
    then consider "of_handler e" | "run_events env renv es s = Inl x" using on Cons.prems(3) by auto
    then show ?thesis using Cons.IH [OF Cons.prems(1)] Cons.prems(2) by cases auto
  next
    case False
    then obtain r where r: "server_move env renv e s = Some r" "\<not> of_handler e" by auto
    have "r \<noteq> Inl y" for y
      using r Cons.prems(2) receiver_no_fault [OF Cons.prems(1) fresh]
      by (cases e) (auto simp: main_move_def handler_times_out_def peer_gone_def
        split: main_end_place.splits if_splits)
    then obtain s1 where s1: "r = Inr s1" by (cases r) auto
    have "server_inv env its s0 s1"
      using server_fine [OF start fresh Cons.prems(1), of e] Cons.prems(2) r(1) s1 by simp
    from Cons.IH [OF this] Cons.prems(2,3) r(1) s1 on show ?thesis by auto
  qed
qed simp

section \<open>Shutdown\<close>

text \<open>
  What is left to do once the flag is set and the main thread is not past it in its wait: the
  receiver leaves its loop and destroys the list, the main thread leaves its loop, joins,
  destroys the mutex and returns.
\<close>

definition flagged :: "server \<Rightarrow> bool" where
  "flagged s \<longleftrightarrow> closeRequested (main_thread s) \<and> main_at (main_thread s) \<in> {Testing, PastLoop}"

primrec receiver_rank :: "receiver_place \<Rightarrow> nat" where
  "receiver_rank InLoop = 2"
| "receiver_rank AtDestroy = 1"
| "receiver_rank ReceiverDone = 0"

definition main_rank :: "server \<Rightarrow> nat" where
  "main_rank s = (case main_end s of
     Serving \<Rightarrow> if main_at (main_thread s) = PastLoop then 3 else 4
   | ReceiverJoined \<Rightarrow> 2 | MutexDestroyed \<Rightarrow> 1 | Exited \<Rightarrow> 0)"

definition shut_rank :: "server \<Rightarrow> nat" where
  "shut_rank s = receiver_rank (receiver_at s) + main_rank s"

definition due :: "server \<Rightarrow> server_event \<Rightarrow> bool" where
  "due s e \<longleftrightarrow> (if receiver_at s = ReceiverDone then e = Main_Moves else \<exists>t. e = Receiver_Moves t)"

lemma receiver_rank_inj: "receiver_rank p = receiver_rank q \<longleftrightarrow> p = q"
  by (cases p; cases q) simp_all

lemma turn_stops: "t_close t \<Longrightarrow> receiver_turn env t r = Some (Inr (True, r))"
  by (simp add: receiver_turn_def)

lemma main_rank_cong:
  "main_end s' = main_end s \<Longrightarrow> main_thread s' = main_thread s \<Longrightarrow> main_rank s' = main_rank s"
  by (simp add: main_rank_def)

lemma handler_event_keeps:
  assumes "server_move env renv e s = Some (Inr s')" "\<forall>t. e \<notin> {Main_Moves, A_Signal, Wakes_Up, Receiver_Moves t}"
  shows "main_end s' = main_end s \<and> main_thread s' = main_thread s \<and> receiver_at s' = receiver_at s"
  using assms
  by (cases e)
     (auto simp: handler_begins_def handler_goes_on_def handler_times_out_def peer_gone_def handler_ends_def
       bindO_Inr_iff bindR_Inr_iff Let_def split: option.splits if_splits)

lemma receiver_move_flagged:
  assumes "flagged s" "receiver_move env t s = Some (Inr s')"
  shows "main_end s' = main_end s \<and> main_thread s' = main_thread s \<and>
    receiver_rank (receiver_at s') < receiver_rank (receiver_at s)"
proof (cases "receiver_at s")
  case InLoop
  with assms show ?thesis by (auto simp: receiver_move_def turn_stops flagged_def)
next
  case AtDestroy
  with assms(2) show ?thesis by (auto simp: receiver_move_def bindO_Inr_iff)
qed (use assms(2) in \<open>simp add: receiver_move_def\<close>)

lemma main_move_flagged:
  assumes "flagged s" "main_move s = Some (Inr s')"
  shows "flagged s' \<and> receiver_at s' = receiver_at s \<and> main_rank s' < main_rank s"
proof (cases "main_end s")
  case Serving
  with assms show ?thesis
    by (auto simp: main_move_def main_step_def flagged_def main_rank_def split: if_splits)
qed (use assms in \<open>auto simp: main_move_def flagged_def main_rank_def\<close>)

lemma flagged_step:
  assumes "flagged s" "server_move env renv e s = Some (Inr s')"
  shows "flagged s' \<and> receiver_rank (receiver_at s') \<le> receiver_rank (receiver_at s) \<and> main_rank s' \<le> main_rank s"
proof -
  consider "e = Main_Moves" | "e = A_Signal" | "e = Wakes_Up" | t where "e = Receiver_Moves t"
    | "\<forall>t. e \<notin> {Main_Moves, A_Signal, Wakes_Up, Receiver_Moves t}" by auto
  then show ?thesis
  proof cases
    case 1
    with assms main_move_flagged [of s s'] show ?thesis by simp
  next
    case 2
    then have "s' = s\<lparr>main_thread := sigHandler (main_thread s)\<rparr>" using assms(2) by simp
    moreover have "main_at (sigHandler (main_thread s)) = main_at (main_thread s)" "closeRequested (sigHandler (main_thread s))"
      using assms(1) by (auto simp: flagged_def sigHandler_def)
    ultimately show ?thesis using assms(1) by (simp add: flagged_def main_rank_def)
  next
    case 3
    with assms show ?thesis by (auto simp: flagged_def)
  next
    case 4
    with receiver_move_flagged [OF assms(1), of renv t s'] assms main_rank_cong [of s' s] show ?thesis
      by (simp add: flagged_def)
  next
    case 5
    with handler_event_keeps [OF assms(2)] assms(1) main_rank_cong [of s' s] show ?thesis by (simp add: flagged_def)
  qed
qed

lemma due_step:
  assumes inv: "server_inv env its s0 s" and fl: "flagged s" and on: "main_end s \<noteq> Exited" and due: "due s e"
  shows "\<exists>s'. server_move env renv e s = Some (Inr s') \<and> shut_rank s' < shut_rank s"
proof -
  have "\<exists>s'. server_move env renv e s = Some (Inr s')"
  proof (cases "receiver_at s")
    case InLoop
    with due fl show ?thesis by (auto simp: due_def receiver_move_def turn_stops flagged_def)
  next
    case AtDestroy
    then obtain cs where "ready (connections (rcv s)) cs"
      using inv by (auto simp: server_inv_def receiver_sound_def list_sound_def)
    from destroy_ready [OF this] obtain l where "DestroyConnectionList (connections (rcv s)) = Some (Inr l)" by blast
    with AtDestroy due show ?thesis by (auto simp: due_def receiver_move_def)
  next
    case ReceiverDone
    with due fl on show ?thesis
      by (cases "main_end s") (auto simp: due_def main_move_def main_step_def flagged_def)
  qed
  then obtain s' where s': "server_move env renv e s = Some (Inr s')" by blast
  have "shut_rank s' < shut_rank s"
  proof (cases "receiver_at s = ReceiverDone")
    case True
    with s' due main_move_flagged [OF fl, of s'] show ?thesis by (simp add: due_def shut_rank_def)
  next
    case False
    with due obtain t where "e = Receiver_Moves t" by (auto simp: due_def)
    with s' receiver_move_flagged [OF fl, of renv t s'] main_rank_cong [of s' s] show ?thesis
      by (simp add: shut_rank_def)
  qed
  with s' show ?thesis by blast
qed

lemma exited_rank: "main_end s = Exited \<longleftrightarrow> main_rank s = 0"
  by (auto simp: main_rank_def split: main_end_place.splits)

lemma run_flagged:
  assumes start: "server_start env its m ls s0" and fresh: "fresh_alloc (new_item renv)"
  shows "server_inv env its s0 s \<Longrightarrow> flagged s \<Longrightarrow> \<forall>e \<in> set es. ordinary its e \<Longrightarrow>
    run_events env renv es s = Inr s' \<Longrightarrow>
    server_inv env its s0 s' \<and> flagged s' \<and> shut_rank s' \<le> shut_rank s \<and>
    (main_end s = Exited \<longrightarrow> s' = s) \<and>
    (main_end s \<noteq> Exited \<and> (\<exists>e \<in> set es. due s e) \<longrightarrow> shut_rank s' < shut_rank s)"
proof (induction es arbitrary: s)
  case (Cons e es)
  show ?case
  proof (cases "main_end s = Exited")
    case True
    with Cons.prems show ?thesis by simp
  next
    case on: False
    show ?thesis
    proof (cases "server_move env renv e s")
      case None
      have "\<not> due s e"
      proof
        assume "due s e"
        from due_step [OF Cons.prems(1,2) on this, of renv] None show False by simp
      qed
      with None on Cons.prems(3,4) Cons.IH [OF Cons.prems(1,2)] show ?thesis by simp
    next
      case (Some r)
      then obtain s1 where s1: "server_move env renv e s = Some (Inr s1)" "run_events env renv es s1 = Inr s'"
        using Cons.prems(4) on by (auto simp: bindR_Inr_iff)
      have inv1: "server_inv env its s0 s1"
        using server_fine [OF start fresh Cons.prems(1), of e] Cons.prems(3) s1(1) by simp
      note f = flagged_step [OF Cons.prems(2) s1(1)]
      have IH: "server_inv env its s0 s'" "flagged s'" "shut_rank s' \<le> shut_rank s1"
        "main_end s1 \<noteq> Exited \<and> (\<exists>e \<in> set es. due s1 e) \<longrightarrow> shut_rank s' < shut_rank s1"
        using Cons.IH [OF inv1 _ _ s1(2)] f Cons.prems(3) by auto
      have le: "shut_rank s1 \<le> shut_rank s" using f by (simp add: shut_rank_def)
      have "shut_rank s' < shut_rank s" if "\<exists>e' \<in> set (e # es). due s e'"
      proof (cases "shut_rank s1 < shut_rank s")
        case False
        then have same: "receiver_at s1 = receiver_at s" "main_rank s1 = main_rank s"
          using f by (auto simp: shut_rank_def simp flip: receiver_rank_inj)
        have "\<not> due s e" using due_step [OF Cons.prems(1,2) on, of e renv] s1(1) False by auto
        with that same(1) have "\<exists>e' \<in> set es. due s1 e'" by (auto simp: due_def)
        with IH(4) same(2) on le show ?thesis by (simp add: exited_rank)
      qed (use IH(3) in simp)
      with IH le on show ?thesis by simp
    qed
  qed
qed simp

lemma rounds_finish:
  assumes start: "server_start env its m ls s0" and fresh: "fresh_alloc (new_item renv)"
  shows "server_inv env its s0 s \<Longrightarrow> flagged s \<Longrightarrow> \<forall>e \<in> set (concat rounds). ordinary its e \<Longrightarrow>
    \<forall>r \<in> set rounds. Main_Moves \<in> set r \<and> (\<exists>t. Receiver_Moves t \<in> set r) \<Longrightarrow> shut_rank s \<le> length rounds \<Longrightarrow>
    run_events env renv (concat rounds) s = Inr s' \<Longrightarrow> main_end s' = Exited"
proof (induction rounds arbitrary: s)
  case Nil
  then show ?case by (simp add: shut_rank_def exited_rank)
next
  case (Cons r rounds)
  obtain s1 where s1: "run_events env renv r s = Inr s1" "run_events env renv (concat rounds) s1 = Inr s'"
    using Cons.prems(6) by (auto simp: run_events_append bindR_Inr_iff)
  have "\<exists>e \<in> set r. due s e" using Cons.prems(4) by (auto simp: due_def)
  with run_flagged [OF start fresh Cons.prems(1,2) _ s1(1)] Cons.prems(3)
  have 1: "server_inv env its s0 s1" "flagged s1" "main_end s = Exited \<longrightarrow> s1 = s"
    "main_end s \<noteq> Exited \<longrightarrow> shut_rank s1 < shut_rank s" by auto
  show ?case
  proof (cases "main_end s = Exited")
    case True
    with 1(3) s1(2) show ?thesis by (simp add: run_exited)
  next
    case False
    with 1 Cons.prems(3-5) s1(2) show ?thesis by (intro Cons.IH [OF 1(1,2)]) simp_all
  qed
qed

section \<open>Properties\<close>

lemma inv_no_signal:
  assumes start: "server_start env its m ls s0" and fresh: "fresh_alloc (new_item renv)"
    and "\<forall>e \<in> set es. ordinary its e" "A_Signal \<notin> set es" "run_events env renv es s0 = Inr s"
  shows "server_inv env its s0 s" "receiver_at s = InLoop" "main_end s = Serving" "\<not> closeRequested (main_thread s)"
proof -
  show inv: "server_inv env its s0 s"
    using run_sound [OF start fresh server_start_inv [OF start] assms(3)] assms(5) by simp
  have "closeRequested (main_thread s') \<longrightarrow> closeRequested (main_thread s)"
    if "run_events env renv es s = Inr s'" "A_Signal \<notin> set es" for s s' es
    using that
  proof (induction es arbitrary: s)
    case (Cons e es)
    then show ?case
      by (auto simp: bindR_Inr_iff dest: flag_step split: if_splits option.splits)
  qed simp
  from this [OF assms(5,4)] show fl: "\<not> closeRequested (main_thread s)"
    using start by (simp add: server_start_def)
  with inv show "receiver_at s = InLoop" by (auto simp: server_inv_def main_sound_def)
  with inv show "main_end s = Serving" by (auto simp: server_inv_def main_sound_def)
qed


text \<open>
  The main thread destroys \<open>FileMutex\<close> when the receiver has ended, although a handler may be
  about to take or to release it.
\<close>

lemma destroyed_mutex_is_used:
  assumes "main_end s = ReceiverJoined" "running s i" "hthreads (handlers s) i = Some h"
    and "h_place h = H_Lock \<or> h_place h = H_Unlock"
  shows "run_events env renv [Main_Moves, Handler_Moves i] s = Inl UseAfterFree"
  using assms by (auto simp: main_move_def handler_goes_on_def running_def)

text \<open>A server on the new device; two peers.\<close>

definition demo_server :: server where
  "demo_server = \<lparr>main_thread = \<lparr>main_at = Testing, closeRequested = False\<rparr>, main_end = Serving,
     rcv = \<lparr>connections = fresh_list, watched = [3, 5], event_fd = 0, started = []\<rparr>, receiver_at = InLoop,
     handlers = demo_service\<lparr>hthreads := [0 \<mapsto> demo_thread demo_lines, 1 \<mapsto> demo_thread [''z'' @ [NL]]]\<rparr>,
     begun = Map.empty, last_call = {}, closed_by = [], accepted_fds = []\<rparr>"

definition demo_accept :: "cint \<Rightarrow> server_event" where
  "demo_accept fd = Receiver_Moves (idle_turn\<lparr>t_poll := Event 3, t_accept := fd, t_new := 101\<rparr>)"

lemma demo_server_start: "server_start server_env 5 20 [] demo_server"
proof -
  have "plain (''z'' @ [NL])" by (simp add: plain_def is_line_def AESD_SOCKET_IOC_STRING_def)
  then have "service_start server_env 20 [] (handlers demo_server)"
    using server_world_facts(1) demo_lines_plain
    by (auto simp: service_start_def demo_service_def demo_server_def demo_thread_def server_world_def split: if_splits)
  then show ?thesis
    by (simp add: server_start_def demo_server_def ready_def fresh_list_facts)
qed

lemma demo_ordinary: "ordinary 5 (demo_accept fd)" "ordinary 5 (Receiver_Moves idle_turn)"
  by (simp_all add: demo_accept_def ordinary_turn_def idle_turn_def)






end
