(* ===== verification/Interleaving.thy ===== *)
theory Interleaving
  imports Prelude
begin

text \<open>
  Tasks that share a state and run in any order. A task makes one step at a time, when the
  schedule names it; a step may have to wait (\<open>None\<close>), and then the schedule passes over
  it. The interface \<open>interleaved_tasks\<close> asks of the steps that each keeps an invariant and
  makes its task lighter, and that somebody can move while a task is unfinished; it gives
  that no schedule meets a fault and that every fair one ends with all tasks finished.
\<close>

section \<open>Schedules\<close>

fun run_schedule ::
    "(nat \<Rightarrow> 't \<Rightarrow> 's \<Rightarrow> ('t \<times> 's) call) \<Rightarrow> nat list \<Rightarrow> 't list \<Rightarrow> 's \<Rightarrow> ('t list \<times> 's) res" where
  "run_schedule step [] ts s = Inr (ts, s)"
| "run_schedule step (i # is) ts s =
     (if i < length ts then
        (case step i (ts ! i) s of
           None \<Rightarrow> run_schedule step is ts s
         | Some r \<Rightarrow> bindR r (\<lambda>(t, s). run_schedule step is (ts[i := t]) s))
      else run_schedule step is ts s)"

lemma run_schedule_append:
  "run_schedule step (is @ js) ts s =
     bindR (run_schedule step is ts s) (\<lambda>(ts, s). run_schedule step js ts s)"
proof (induction "is" arbitrary: ts s)
  case (Cons i "is")
  then show ?case
    by (cases "step i (ts ! i) s"; cases "the (step i (ts ! i) s)") auto
qed simp

text \<open>What every step keeps holds at the end of a schedule.\<close>

lemma run_schedule_keeps:
  assumes "\<And>ts s i t' s'. P ts s \<Longrightarrow> i < length ts \<Longrightarrow> step i (ts ! i) s = Some (Inr (t', s')) \<Longrightarrow>
      P (ts[i := t']) s'"
  shows "P ts s \<Longrightarrow> run_schedule step is ts s = Inr (ts', s') \<Longrightarrow> P ts' s'"
proof (induction "is" arbitrary: ts s)
  case (Cons i "is")
  then show ?case
    using assms by (fastforce simp: bindR_Inr_iff split: if_splits option.splits)
qed simp

text \<open>The schedules are the finite paths of the step relation.\<close>

inductive task_moves ::
    "(nat \<Rightarrow> 't \<Rightarrow> 's \<Rightarrow> ('t \<times> 's) call) \<Rightarrow> 't list \<times> 's \<Rightarrow> 't list \<times> 's \<Rightarrow> bool" for step where
  a_task_moves: "i < length ts \<Longrightarrow> step i (ts ! i) s = Some (Inr (t', s')) \<Longrightarrow>
     task_moves step (ts, s) (ts[i := t'], s')"

inductive_cases task_movesE: "task_moves step (ts, s) c"

lemma run_schedule_moves:
  "run_schedule step is ts s = Inr (ts', s') \<Longrightarrow> (task_moves step)\<^sup>*\<^sup>* (ts, s) (ts', s')"
proof (induction "is" arbitrary: ts s)
  case (Cons i "is")
  show ?case
  proof (cases "i < length ts \<and> step i (ts ! i) s \<noteq> None")
    case False
    with Cons show ?thesis by (auto split: if_splits)
  next
    case True
    then obtain t s1 where st: "step i (ts ! i) s = Some (Inr (t, s1))"
      "run_schedule step is (ts[i := t]) s1 = Inr (ts', s')"
      using Cons.prems by (auto simp: bindR_Inr_iff)
    have "task_moves step (ts, s) (ts[i := t], s1)" using True st(1) by (blast intro: a_task_moves)
    then show ?thesis using Cons.IH [OF st(2)] by (rule converse_rtranclp_into_rtranclp)
  qed
qed simp

lemma moves_run_schedule:
  "(task_moves step)\<^sup>*\<^sup>* (ts, s) (ts', s') \<Longrightarrow> \<exists>is. run_schedule step is ts s = Inr (ts', s')"
proof (induction rule: rtranclp_induct2)
  case refl
  show ?case by (rule exI [of _ "[]"]) simp
next
  case (step ts1 s1 ts2 s2)
  obtain xs where xs: "run_schedule step xs ts s = Inr (ts1, s1)" using step.IH by blast
  from step.hyps(2) obtain i t' where "i < length ts1" "step i (ts1 ! i) s1 = Some (Inr (t', s2))"
    "ts2 = ts1[i := t']"
    by (auto elim: task_movesE)
  then have "run_schedule step (xs @ [i]) ts s = Inr (ts2, s2)"
    using xs by (simp add: run_schedule_append)
  then show ?case by blast
qed

text \<open>Every round of a fair schedule names every task.\<close>

definition fair_rounds :: "nat \<Rightarrow> nat list list \<Rightarrow> bool" where
  "fair_rounds n rounds \<longleftrightarrow> (\<forall>r \<in> set rounds. {..<n} \<subseteq> set r)"

lemma fair_rounds_Cons: "fair_rounds n (r # rs) \<longleftrightarrow> {..<n} \<subseteq> set r \<and> fair_rounds n rs"
  by (simp add: fair_rounds_def)

lemma fair_rounds_robin: "fair_rounds n (replicate k [0..<n])"
  by (auto simp: fair_rounds_def)

lemma sum_list_update_less:
  "i < length xs \<Longrightarrow> f y < f (xs ! i) \<Longrightarrow> sum_list (map f (xs[i := y])) < (sum_list (map f xs) :: nat)"
proof (induction xs arbitrary: i)
  case (Cons x xs)
  then show ?case by (cases i) auto
qed simp

section \<open>The interface\<close>

locale interleaved_tasks =
  fixes step :: "nat \<Rightarrow> 't \<Rightarrow> 's \<Rightarrow> ('t \<times> 's) call"
    and inv :: "'t list \<Rightarrow> 's \<Rightarrow> bool"
    and weight :: "'t \<Rightarrow> nat"
    and finished :: "'t \<Rightarrow> bool"
  assumes step_law: "inv ts s \<Longrightarrow> i < length ts \<Longrightarrow> step i (ts ! i) s = Some r \<Longrightarrow>
      \<exists>t' s'. r = Inr (t', s') \<and> inv (ts[i := t']) s' \<and> weight t' < weight (ts ! i)"
    and progress_law: "inv ts s \<Longrightarrow> t \<in> set ts \<Longrightarrow> \<not> finished t \<Longrightarrow>
      \<exists>i < length ts. step i (ts ! i) s \<noteq> None"
    and finished_law: "finished t \<Longrightarrow> step i t s = None"
begin

lemma run_ok:
  "inv ts s \<Longrightarrow> \<exists>ts' s'. run_schedule step is ts s = Inr (ts', s') \<and> inv ts' s' \<and>
     length ts' = length ts \<and> sum_list (map weight ts') \<le> sum_list (map weight ts)"
proof (induction "is" arbitrary: ts s)
  case (Cons i "is")
  show ?case
  proof (cases "i < length ts \<and> step i (ts ! i) s \<noteq> None")
    case False
    with Cons show ?thesis by auto
  next
    case True
    then obtain r where i: "i < length ts" "step i (ts ! i) s = Some r" by auto
    obtain t' s1 where st: "r = Inr (t', s1)" "inv (ts[i := t']) s1" "weight t' < weight (ts ! i)"
      using step_law [OF Cons.prems i] by blast
    show ?thesis
      using Cons.IH [OF st(2)] sum_list_update_less [OF i(1) st(3)] i st(1) by fastforce
  qed
qed simp

lemma run_keeps: "inv ts s \<Longrightarrow> run_schedule step is ts s = Inr (ts', s') \<Longrightarrow> inv ts' s'"
  using run_ok [of ts s "is"] by auto

lemma no_fault: "inv ts s \<Longrightarrow> run_schedule step is ts s \<noteq> Inl e"
  using run_ok [of ts s "is"] by auto

lemma waiting_round:
  "\<forall>i \<in> set is. i < length ts \<longrightarrow> step i (ts ! i) s = None \<Longrightarrow> run_schedule step is ts s = Inr (ts, s)"
  by (induction "is") auto

lemma round_works:
  assumes "inv ts s" "{..<length ts} \<subseteq> set r" "t \<in> set ts" "\<not> finished t"
  shows "\<exists>ts' s'. run_schedule step r ts s = Inr (ts', s') \<and> inv ts' s' \<and> length ts' = length ts \<and>
    sum_list (map weight ts') < sum_list (map weight ts)"
proof -
  let ?moves = "\<lambda>i. i < length ts \<and> step i (ts ! i) s \<noteq> None"
  obtain j where "j < length ts" "step j (ts ! j) s \<noteq> None"
    using progress_law [OF assms(1,3,4)] by blast
  then have "\<exists>j \<in> set r. ?moves j" using assms(2) by blast
  then obtain xs i ys where r: "r = xs @ i # ys" "?moves i" "\<forall>x \<in> set xs. \<not> ?moves x"
    using split_list_first_prop [of r ?moves] by blast
  have pass: "run_schedule step r ts s = run_schedule step (i # ys) ts s"
    using waiting_round [of xs ts s] r(1,3) by (simp add: run_schedule_append)
  obtain q where q: "step i (ts ! i) s = Some q" using r(2) by blast
  obtain t' s1 where st: "q = Inr (t', s1)" "inv (ts[i := t']) s1" "weight t' < weight (ts ! i)"
    using step_law [OF assms(1) _ q] r(2) by blast
  have "sum_list (map weight (ts[i := t'])) < sum_list (map weight ts)"
    using sum_list_update_less [OF _ st(3)] r(2) by blast
  then show ?thesis
    using run_ok [OF st(2), of ys] pass q r(2) st(1) by fastforce
qed

lemma fair_finishes:
  "inv ts s \<Longrightarrow> fair_rounds (length ts) rounds \<Longrightarrow> sum_list (map weight ts) \<le> length rounds \<Longrightarrow>
     \<exists>ts' s'. run_schedule step (concat rounds) ts s = Inr (ts', s') \<and> inv ts' s' \<and>
       length ts' = length ts \<and> (\<forall>t \<in> set ts'. finished t)"
proof (induction rounds arbitrary: ts s)
  case Nil
  have "finished t" if t: "t \<in> set ts" for t
  proof (rule ccontr)
    assume un: "\<not> finished t"
    have "{..<length ts} \<subseteq> set [0..<length ts]" by auto
    then obtain ts' :: "'t list" where "sum_list (map weight ts') < sum_list (map weight ts)"
      using round_works [OF Nil(1) _ t un] by blast
    then show False using Nil(3) by (simp only: list.size)
  qed
  with Nil(1) show ?case by simp
next
  case (Cons r rounds)
  show ?case
  proof (cases "\<forall>t \<in> set ts. finished t")
    case True
    then have "run_schedule step (concat (r # rounds)) ts s = Inr (ts, s)"
      using finished_law by (intro waiting_round) (simp add: nth_mem)
    with True Cons.prems(1) show ?thesis by blast
  next
    case False
    then obtain t where t: "t \<in> set ts" "\<not> finished t" by blast
    have "{..<length ts} \<subseteq> set r" using Cons.prems(2) by (simp add: fair_rounds_Cons)
    then obtain ts1 s1 where st: "run_schedule step r ts s = Inr (ts1, s1)" "inv ts1 s1"
      "length ts1 = length ts" "sum_list (map weight ts1) < sum_list (map weight ts)"
      using round_works [OF Cons.prems(1) _ t] by blast
    have "fair_rounds (length ts1) rounds" "sum_list (map weight ts1) \<le> length rounds"
      using Cons.prems(2,3) st(3,4) by (simp_all add: fair_rounds_Cons)
    from Cons.IH [OF st(2) this] show ?thesis
      using st(1,3) by (simp add: run_schedule_append)
  qed
qed

end

end
