(* ===== verification/Driver_Tasks.thy ===== *)
theory Driver_Tasks
  imports Device_Ops Interleaving
begin

text \<open>
  Many tasks inside the file operations of \<open>aesd-char-driver/main.c\<close> at once. The kernel
  runs the system calls of different threads at the same time on the one \<open>aesd_device\<close>;
  here every operation is cut into steps between which any other task may run: at each
  \<open>mutex_lock_interruptible\<close> and \<open>mutex_unlock\<close>, and inside the critical sections at
  each access to what the tasks share. A copy into the staging buffer (\<open>StorePartial\<close>) is
  one step, and so is a call into the circular buffer. The local variables of an operation
  are arguments of the place its task is at.
\<close>

section \<open>State\<close>

text \<open>A system call on the open file of the task. \<open>SysWrite\<close> has the user memory and the count.\<close>

datatype syscall =
    SysOpen | SysRelease
  | SysRead size_t
  | SysLlseek loff_t cint
  | SysIoctl u32 size_t
  | SysWrite "byte list" size_t

text \<open>
  Where a task is. \<open>Entry\<close> is the start of its next call; \<open>UnlockBuff\<close> and
  \<open>UnlockEntry\<close> are the label \<open>end\<close> of the operations, with the result. In
  \<open>aesd_write\<close> the last number is \<open>inputBaseIdx\<close>, the one before it \<open>inputIdx\<close>.
\<close>

datatype dplace =
    Entry
  | ReadFind | ReadCopy nat size_t size_t
  | SeekSet | SeekGet
  | IoctlLock aesd_seekto | IoctlSeek aesd_seekto
  | UnlockBuff ssize_t "byte list"
  | WriteLock | WriteCheck | Scan nat nat | Store nat nat
  | FlushLock nat | FlushAdd nat | FlushFree nat ptr | FlushReset nat | FlushUnlock nat
  | Tail nat
  | UnlockEntry ssize_t

record dtask =
  d_file :: struct_file
  d_todo :: "syscall list"
  d_place :: dplace
  d_answers :: "(ssize_t \<times> byte list) list"

text \<open>
  What the tasks share: the state of the driver, and a history which no task reads: the
  accepted writes, the lines in the order in which they became entries, and the reads
  with the position and the count they asked for and what they delivered.
\<close>

datatype event =
    Accepted nat "byte list"
  | Published "byte list"
  | Delivered nat size_t size_t "byte list"

record shared =
  kern :: kstate
  history :: "event list"

definition reply :: "ssize_t \<Rightarrow> byte list \<Rightarrow> dtask \<Rightarrow> dtask" where
  "reply r bs t = t\<lparr>d_place := Entry, d_todo := tl (d_todo t), d_answers := d_answers t @ [(r, bs)]\<rparr>"

section \<open>The mutexes\<close>

text \<open>
  \<open>mutex_lock_interruptible\<close> of a task among others: \<open>None\<close> while the mutex is held and
  no signal arrives, \<open>Some (True, _)\<close> when a signal arrived.
\<close>

definition take_buff :: "kernel_env \<Rightarrow> kstate \<Rightarrow> (bool \<times> kstate) option" where
  "take_buff env k =
     (if lock_interrupted env (clock k) then Some (True, tick k)
      else if buffMutex k then None
      else Some (False, (tick k)\<lparr>buffMutex := True\<rparr>))"

definition take_entry :: "kernel_env \<Rightarrow> kstate \<Rightarrow> (bool \<times> kstate) option" where
  "take_entry env k =
     (if lock_interrupted env (clock k) then Some (True, tick k)
      else if entryMutex k then None
      else Some (False, (tick k)\<lparr>entryMutex := True\<rparr>))"

text \<open>The step at the mutex: on a signal the call returns \<open>-ERESTARTSYS\<close>.\<close>

definition lock_step ::
    "(bool \<times> kstate) option \<Rightarrow> dplace \<Rightarrow> dtask \<Rightarrow> shared \<Rightarrow> (dtask \<times> shared) call" where
  "lock_step m p t s = map_option (\<lambda>(interrupted, k).
     Inr (if interrupted then reply (- ERESTARTSYS) [] t else t\<lparr>d_place := p\<rparr>, s\<lparr>kern := k\<rparr>)) m"

definition unlock_step :: "ssize_t \<Rightarrow> byte list \<Rightarrow> dtask \<Rightarrow> shared \<Rightarrow> (dtask \<times> shared) call" where
  "unlock_step r bs t s = Some (Inr (reply r bs t, s\<lparr>kern := unlock_buff (kern s)\<rparr>))"

section \<open>The operations in steps\<close>

text \<open>
  \<open>aesd_read\<close>. The entry is found in one step and copied from in a later one; in between
  only the mutex keeps the entry and its block where they are.
\<close>

definition read_step :: "kernel_env \<Rightarrow> nat \<Rightarrow> size_t \<Rightarrow> dtask \<Rightarrow> shared \<Rightarrow> (dtask \<times> shared) call" where
  "read_step env i count t s =
     (let k = kern s in case d_place t of
        Entry \<Rightarrow>
          if private_data (d_file t) = None then Some (Inl NullDeref)
          else lock_step (take_buff env k) ReadFind t s
      | ReadFind \<Rightarrow>
          (let actualPos = f_pos (d_file t) + lseekPos k in
           case aesd_circular_buffer_find_entry_offset_for_fpos (buff k) actualPos of
             None \<Rightarrow> Some (Inr (t\<lparr>d_place := UnlockBuff 0 []\<rparr>,
                       s\<lparr>history := history s @ [Delivered i actualPos count []]\<rparr>))
           | Some (slot, entryOffset) \<Rightarrow>
               Some (Inr (t\<lparr>d_place := ReadCopy slot entryOffset actualPos\<rparr>, s)))
      | ReadCopy slot entryOffset actualPos \<Rightarrow>
          (let e = entry (buff k) ! slot;
               entrySize = esize e - entryOffset;
               sizeToRead = (if entrySize < count then entrySize else count) in
           Some (bindR (kread (kheap k) (buffptr e) (unat entryOffset) (unat sizeToRead)) (\<lambda>bytes.
             (let notCopied = not_copied env (clock k) sizeToRead;
                  retVal = sizeToRead - notCopied;
                  bs = take (unat retVal) bytes
              in Inr (t\<lparr>d_file := (d_file t)\<lparr>f_pos := f_pos (d_file t) + retVal\<rparr>,
                        d_place := UnlockBuff retVal bs\<rparr>,
                      s\<lparr>kern := tick k, history := history s @ [Delivered i actualPos count bs]\<rparr>)))))
      | UnlockBuff r bs \<Rightarrow> unlock_step r bs t s
      | _ \<Rightarrow> None)"

text \<open>\<open>aesd_llseek\<close>. The position is set in one step and read for the result in the next.\<close>

definition llseek_step ::
    "kernel_env \<Rightarrow> loff_t \<Rightarrow> cint \<Rightarrow> dtask \<Rightarrow> shared \<Rightarrow> (dtask \<times> shared) call" where
  "llseek_step env off whence t s =
     (let k = kern s in case d_place t of
        Entry \<Rightarrow>
          if private_data (d_file t) = None then Some (Inl NullDeref)
          else lock_step (take_buff env k) SeekSet t s
      | SeekSet \<Rightarrow>
          Some (Inr (t\<lparr>d_place := SeekGet\<rparr>, s\<lparr>kern :=
            (if whence = SEEK_SET then k\<lparr>lseekPos := off\<rparr>
             else if whence = SEEK_CUR then k\<lparr>lseekPos := lseekPos k + off\<rparr>
             else if whence = SEEK_END
             then k\<lparr>lseekPos := aesd_circular_buffer_get_size (buff k)\<rparr>
             else k)\<rparr>))
      | SeekGet \<Rightarrow> Some (Inr (t\<lparr>d_place := UnlockBuff (lseekPos k) []\<rparr>, s))
      | UnlockBuff r bs \<Rightarrow> unlock_step r bs t s
      | _ \<Rightarrow> None)"

definition ioctl_step ::
    "kernel_env \<Rightarrow> u32 \<Rightarrow> size_t \<Rightarrow> dtask \<Rightarrow> shared \<Rightarrow> (dtask \<times> shared) call" where
  "ioctl_step env cmd arg t s =
     (let k = kern s in case d_place t of
        Entry \<Rightarrow>
          if IOC_TYPE cmd \<noteq> AESD_IOC_MAGIC \<or> IOC_NR cmd > AESDCHAR_IOC_MAXNR
          then Some (Inr (reply (- ENOTTY) [] t, s))
          else if cmd = AESDCHAR_IOCSEEKTO then
            (case user_seekto env (clock k) arg of
               None \<Rightarrow> Some (Inr (reply (- EFAULT) [] t, s\<lparr>kern := tick k\<rparr>))
             | Some st \<Rightarrow> Some (Inr (t\<lparr>d_place := IoctlLock st\<rparr>, s\<lparr>kern := tick k\<rparr>)))
          else Some (Inr (reply (- ENOTTY) [] t, s))
      | IoctlLock st \<Rightarrow>
          if private_data (d_file t) = None then Some (Inl NullDeref)
          else lock_step (take_buff env k) (IoctlSeek st) t s
      | IoctlSeek st \<Rightarrow>
          (let basePos = aesd_circular_buffer_find_fpos_for_virtual_entry_offset (buff k)
                           (ucast (write_cmd st)) in
           if sint basePos < 0 then Some (Inr (t\<lparr>d_place := UnlockBuff (- EINVAL) []\<rparr>, s))
           else
             (let e = entry (buff k) !
                    aesd_circular_buffer_find_entry_at_position (buff k) (ucast (write_cmd st))
              in if esize e < ucast (write_cmd_offset st)
                 then Some (Inr (t\<lparr>d_place := UnlockBuff (- EINVAL) []\<rparr>, s))
                 else Some (Inr (t\<lparr>d_place := UnlockBuff 0 []\<rparr>,
                        s\<lparr>kern := k\<lparr>lseekPos := ucast (basePos + write_cmd_offset st)\<rparr>\<rparr>))))
      | UnlockBuff r bs \<Rightarrow> unlock_step r bs t s
      | _ \<Rightarrow> None)"

text \<open>
  \<open>FlushPartial\<close>, after which \<open>aesd_write\<close> goes on with its scan whatever the result.
  The return for a missing buffer leaves the mutex locked, as in the code. The old entry
  is freed after the new one has replaced it, and only then the staging buffer is given up.
\<close>

definition flush_step :: "kernel_env \<Rightarrow> dtask \<Rightarrow> shared \<Rightarrow> (dtask \<times> shared) call" where
  "flush_step env t s =
     (let k = kern s in case d_place t of
        FlushLock b \<Rightarrow> map_option (\<lambda>(interrupted, k).
          Inr (t\<lparr>d_place := (if interrupted then Scan 0 b else FlushAdd b)\<rparr>, s\<lparr>kern := k\<rparr>)) (take_buff env k)
      | FlushAdd b \<Rightarrow>
          if buffPtr (stage k) = None then Some (Inr (t\<lparr>d_place := Scan 0 b\<rparr>, s))
          else
            (let newEntry = \<lparr>buffptr = buffPtr (stage k), esize = endIdx (stage k)\<rparr> in
             Some (bindR (aesd_circular_buffer_add_entry (buff k) newEntry) (\<lambda>(rb, freePtr).
               Inr (t\<lparr>d_place := FlushFree b freePtr\<rparr>,
                    s\<lparr>kern := k\<lparr>buff := rb\<rparr>, history := history s @ [Published (dev_partial k)]\<rparr>))))
      | FlushFree b freePtr \<Rightarrow>
          Some (bindR (kfree (kheap k) freePtr) (\<lambda>h.
            Inr (t\<lparr>d_place := FlushReset b\<rparr>, s\<lparr>kern := k\<lparr>kheap := h\<rparr>\<rparr>)))
      | FlushReset b \<Rightarrow>
          Some (Inr (t\<lparr>d_place := FlushUnlock b\<rparr>,
            s\<lparr>kern := k\<lparr>stage := (stage k)\<lparr>buffPtr := None, endIdx := 0\<rparr>\<rparr>\<rparr>))
      | FlushUnlock b \<Rightarrow> Some (Inr (t\<lparr>d_place := Scan 0 b\<rparr>, s\<lparr>kern := unlock_buff k\<rparr>))
      | _ \<Rightarrow> None)"

text \<open>
  \<open>aesd_write\<close>. The size of the staging buffer is set before the mutex is taken. One turn
  of the loop is one step, the copy of a line another.
\<close>

definition write_step ::
    "kernel_env \<Rightarrow> nat \<Rightarrow> byte list \<Rightarrow> size_t \<Rightarrow> dtask \<Rightarrow> shared \<Rightarrow> (dtask \<times> shared) call" where
  "write_step env i buf count t s =
     (let k = kern s in case d_place t of
        Entry \<Rightarrow>
          if private_data (d_file t) = None then Some (Inl NullDeref)
          else Some (Inr (t\<lparr>d_place := WriteLock\<rparr>,
                 s\<lparr>kern := k\<lparr>stage := (stage k)\<lparr>stage_size := KMALLOC_MAX_SIZE env\<rparr>\<rparr>\<rparr>))
      | WriteLock \<Rightarrow> lock_step (take_entry env k) WriteCheck t s
      | WriteCheck \<Rightarrow>
          if count > stage_size (stage k) \<or> endIdx (stage k) + count > stage_size (stage k)
          then Some (Inr (t\<lparr>d_place := UnlockEntry (- ENOMEM)\<rparr>, s))
          else Some (Inr (t\<lparr>d_place := Scan 0 0\<rparr>, s\<lparr>history := history s @ [Accepted i buf]\<rparr>))
      | Scan j b \<Rightarrow>
          if b + j < unat count then
            (if \<not> b + j < length buf then Some (Inl OutOfBounds)
             else Some (Inr (t\<lparr>d_place := (if buf ! (b + j) = NL then Store (Suc j) b else Scan (Suc j) b)\<rparr>, s)))
          else Some (Inr (t\<lparr>d_place := (if b < unat count then Tail b else UnlockEntry count)\<rparr>, s))
      | Store n b \<Rightarrow>
          Some (bindR (StorePartial env (drop b buf) (of_nat n) k) (\<lambda>(r, k).
            Inr (t\<lparr>d_place := (if r \<noteq> 0 then UnlockEntry (- ENOMEM) else FlushLock (b + n))\<rparr>,
                 s\<lparr>kern := k\<rparr>)))
      | Tail b \<Rightarrow>
          Some (bindR (StorePartial env (drop b buf) (count - of_nat b) k) (\<lambda>(_, k).
            Inr (t\<lparr>d_place := UnlockEntry count\<rparr>, s\<lparr>kern := k\<rparr>)))
      | UnlockEntry r \<Rightarrow> Some (Inr (reply r [] t, s\<lparr>kern := unlock_entry k\<rparr>))
      | _ \<Rightarrow> flush_step env t s)"

text \<open>\<open>aesd_open\<close> and \<open>aesd_release\<close> take no mutex: each is one step.\<close>

definition open_step :: "dtask \<Rightarrow> shared \<Rightarrow> (dtask \<times> shared) call" where
  "open_step t s = Some (bindR (aesd_open (d_file t) (kern s)) (\<lambda>(r, f, k).
     Inr (reply r [] (t\<lparr>d_file := f\<rparr>), s\<lparr>kern := k\<rparr>)))"

definition release_step :: "dtask \<Rightarrow> shared \<Rightarrow> (dtask \<times> shared) call" where
  "release_step t s = Some (bindR (aesd_release (d_file t) (kern s)) (\<lambda>(r, f, k).
     Inr (reply r [] (t\<lparr>d_file := f\<rparr>), s\<lparr>kern := k\<rparr>)))"

fun call_step :: "kernel_env \<Rightarrow> nat \<Rightarrow> syscall \<Rightarrow> dtask \<Rightarrow> shared \<Rightarrow> (dtask \<times> shared) call" where
  "call_step env i SysOpen t s = open_step t s"
| "call_step env i SysRelease t s = release_step t s"
| "call_step env i (SysRead count) t s = read_step env i count t s"
| "call_step env i (SysLlseek off whence) t s = llseek_step env off whence t s"
| "call_step env i (SysIoctl cmd arg) t s = ioctl_step env cmd arg t s"
| "call_step env i (SysWrite buf count) t s = write_step env i buf count t s"

definition driver_step :: "kernel_env \<Rightarrow> nat \<Rightarrow> dtask \<Rightarrow> shared \<Rightarrow> (dtask \<times> shared) call" where
  "driver_step env i t s = (case d_todo t of [] \<Rightarrow> None | c # _ \<Rightarrow> call_step env i c t s)"

lemmas steps_def = read_step_def llseek_step_def ioctl_step_def write_step_def flush_step_def
  open_step_def release_step_def lock_step_def unlock_step_def

end
