(* ===== verification/Driver_Safety.thy ===== *)
theory Driver_Safety
  imports Driver_Tasks
begin

text \<open>
  Any number of tasks in the driver at once, each with any system calls, under every
  schedule, with signals and failing allocations: no step faults, each mutex has at most one
  holder, the structure of the device is intact whenever nobody is changing it, and every
  fair schedule brings every call to its end.
\<close>

section \<open>The invariant\<close>

fun holds_buff :: "dplace \<Rightarrow> bool" where
  "holds_buff ReadFind = True"
| "holds_buff (ReadCopy _ _ _) = True"
| "holds_buff SeekSet = True"
| "holds_buff SeekGet = True"
| "holds_buff (IoctlSeek _) = True"
| "holds_buff (UnlockBuff _ _) = True"
| "holds_buff (FlushAdd _) = True"
| "holds_buff (FlushFree _ _) = True"
| "holds_buff (FlushReset _) = True"
| "holds_buff (FlushUnlock _) = True"
| "holds_buff _ = False"

fun holds_entry :: "dplace \<Rightarrow> bool" where
  "holds_entry WriteCheck = True"
| "holds_entry (Scan _ _) = True"
| "holds_entry (Store _ _) = True"
| "holds_entry (FlushLock _) = True"
| "holds_entry (FlushAdd _) = True"
| "holds_entry (FlushFree _ _) = True"
| "holds_entry (FlushReset _) = True"
| "holds_entry (FlushUnlock _) = True"
| "holds_entry (Tail _) = True"
| "holds_entry (UnlockEntry _) = True"
| "holds_entry _ = False"

text \<open>
  In the middle of a flush the new entry and the staging buffer are the same block, and
  the block of the evicted entry still has to be freed. \<open>settle\<close> finishes that work.
\<close>

definition drop_block :: "heap \<Rightarrow> ptr \<Rightarrow> heap" where
  "drop_block h p = (case p of None \<Rightarrow> h | Some a \<Rightarrow> h(a := None))"

definition reset_stage :: "kstate \<Rightarrow> kstate" where
  "reset_stage k = k\<lparr>stage := (stage k)\<lparr>buffPtr := None, endIdx := 0\<rparr>\<rparr>"

fun settle :: "dplace \<Rightarrow> kstate \<Rightarrow> kstate" where
  "settle (FlushFree b p) k = reset_stage (k\<lparr>kheap := drop_block (kheap k) p\<rparr>)"
| "settle (FlushReset b) k = reset_stage k"
| "settle _ k = k"

fun flushing :: "dplace \<Rightarrow> bool" where
  "flushing (FlushFree b p) = True"
| "flushing (FlushReset b) = True"
| "flushing _ = False"

definition settled :: "dtask list \<Rightarrow> kstate \<Rightarrow> kstate" where
  "settled ts k = (case find (\<lambda>t. flushing (d_place t)) ts of None \<Rightarrow> k | Some t \<Rightarrow> settle (d_place t) k)"

text \<open>The space that the rest of the input from \<open>b\<close> on still needs.\<close>

definition room :: "kernel_env \<Rightarrow> kstate \<Rightarrow> size_t \<Rightarrow> nat \<Rightarrow> bool" where
  "room env k count b \<longleftrightarrow> b \<le> unat count \<and>
     unat (endIdx (stage k)) + (unat count - b) \<le> unat (KMALLOC_MAX_SIZE env)"

definition staged_line :: "kstate \<Rightarrow> bool" where
  "staged_line k \<longleftrightarrow> buffPtr (stage k) \<noteq> None \<and> 0 < unat (endIdx (stage k))"

lemma room_fields [simp]:
  "room env (k\<lparr>buff := rb\<rparr>) count b = room env k count b"
  "room env (k\<lparr>kheap := h\<rparr>) count b = room env k count b"
  "room env (k\<lparr>buffMutex := m\<rparr>) count b = room env k count b"
  "room env (tick k) count b = room env k count b"
  "room env (unlock_buff k) count b = room env k count b"
  by (simp_all add: room_def unlock_buff_def)

lemma room_le: "room env k count b \<Longrightarrow> b \<le> unat count"
  by (simp add: room_def)

lemma room_reset: "room env k count b \<Longrightarrow> room env (reset_stage k) count b"
  by (simp add: room_def reset_stage_def)

lemma staged_line_fields [simp]:
  "staged_line (k\<lparr>buffMutex := m\<rparr>) = staged_line k"
  "staged_line (tick k) = staged_line k"
  by (simp_all add: staged_line_def)

text \<open>What holds of the device for a task at a place of a call.\<close>

definition write_at_ok :: "kernel_env \<Rightarrow> kstate \<Rightarrow> size_t \<Rightarrow> dplace \<Rightarrow> bool" where
  "write_at_ok env k count p \<longleftrightarrow> stage_size (stage k) = KMALLOC_MAX_SIZE env \<and>
     (case p of
        WriteLock \<Rightarrow> True
      | WriteCheck \<Rightarrow> True
      | Scan j b \<Rightarrow> b + j \<le> unat count \<and> room env k count b
      | Store n b \<Rightarrow> 0 < n \<and> b + n \<le> unat count \<and> room env k count b
      | FlushLock b \<Rightarrow> room env k count b \<and> staged_line k
      | FlushAdd b \<Rightarrow> room env k count b \<and> staged_line k
      | FlushFree b freePtr \<Rightarrow> room env k count b \<and> (\<forall>a. freePtr = Some a \<longrightarrow> kheap k a \<noteq> None)
      | FlushReset b \<Rightarrow> room env k count b
      | FlushUnlock b \<Rightarrow> room env k count b
      | Tail b \<Rightarrow> b < unat count \<and> room env k count b
      | UnlockEntry r \<Rightarrow> True
      | _ \<Rightarrow> False)"

text \<open>A position that \<open>aesd_read\<close> has looked up: the slot, the offset in its entry, the position.\<close>

definition located :: "aesd_circular_buffer \<Rightarrow> nat \<Rightarrow> size_t \<Rightarrow> size_t \<Rightarrow> bool" where
  "located b slot off pos \<longleftrightarrow> (\<exists>i < length (cb_items b). entry b ! slot = cb_items b ! i \<and>
     unat off < unat (esize (cb_items b ! i)) \<and>
     unat pos = sum_list (take i (item_sizes (cb_items b))) + unat off)"

definition read_at_ok :: "kstate \<Rightarrow> dplace \<Rightarrow> bool" where
  "read_at_ok k p \<longleftrightarrow> (case p of
        ReadFind \<Rightarrow> True
      | ReadCopy slot off pos \<Rightarrow> located (buff k) slot off pos
      | UnlockBuff r bs \<Rightarrow> True
      | _ \<Rightarrow> False)"

definition seek_at_ok :: "dplace \<Rightarrow> bool" where
  "seek_at_ok p \<longleftrightarrow> p = SeekSet \<or> p = SeekGet \<or> (\<exists>r bs. p = UnlockBuff r bs)"

definition ioctl_at_ok :: "dplace \<Rightarrow> bool" where
  "ioctl_at_ok p \<longleftrightarrow> (\<exists>st. p = IoctlLock st \<or> p = IoctlSeek st) \<or> (\<exists>r bs. p = UnlockBuff r bs)"

fun at_ok :: "kernel_env \<Rightarrow> kstate \<Rightarrow> syscall \<Rightarrow> dplace \<Rightarrow> bool" where
  "at_ok env k (SysWrite buf count) p = (p = Entry \<or> write_at_ok env k count p)"
| "at_ok env k (SysRead n) p = (p = Entry \<or> read_at_ok k p)"
| "at_ok env k (SysLlseek off w) p = (p = Entry \<or> seek_at_ok p)"
| "at_ok env k (SysIoctl cmd arg) p = (p = Entry \<or> ioctl_at_ok p)"
| "at_ok env k c p = (p = Entry)"

lemmas at_ok_defs = write_at_ok_def read_at_ok_def seek_at_ok_def ioctl_at_ok_def

fun call_ok :: "syscall \<Rightarrow> bool" where
  "call_ok (SysWrite buf count) = (length buf = unat count)"
| "call_ok _ = True"

definition task_ok :: "kernel_env \<Rightarrow> kstate \<Rightarrow> dtask \<Rightarrow> bool" where
  "task_ok env k t \<longleftrightarrow> private_data (d_file t) \<noteq> None \<and> (\<forall>c \<in> set (d_todo t). call_ok c) \<and>
     (case d_todo t of [] \<Rightarrow> d_place t = Entry | c # _ \<Rightarrow> at_ok env k c (d_place t))"

definition holders :: "(dplace \<Rightarrow> bool) \<Rightarrow> dtask list \<Rightarrow> nat" where
  "holders P ts = length (filter (\<lambda>t. P (d_place t)) ts)"

definition tasks_inv :: "kernel_env \<Rightarrow> dtask list \<Rightarrow> shared \<Rightarrow> bool" where
  "tasks_inv env ts s \<longleftrightarrow>
     (\<forall>t \<in> set ts. task_ok env (kern s) t) \<and>
     holders holds_buff ts = of_bool (buffMutex (kern s)) \<and>
     holders holds_entry ts = of_bool (entryMutex (kern s)) \<and>
     dev_inv env (settled ts (kern s))"

section \<open>Holders\<close>

lemma holders_update:
  "i < length ts \<Longrightarrow> holders P (ts[i := t]) + of_bool (P (d_place (ts ! i))) = holders P ts + of_bool (P (d_place t))"
proof (induction ts arbitrary: i)
  case (Cons u ts)
  then show ?case by (cases i) (auto simp: holders_def)
qed simp

lemma holders_unique:
  "i < length ts \<Longrightarrow> P (d_place (ts ! i)) \<Longrightarrow> holders P ts \<le> 1 \<Longrightarrow> j < length ts \<Longrightarrow> j \<noteq> i \<Longrightarrow>
     \<not> P (d_place (ts ! j))"
proof (induction ts arbitrary: i j)
  case (Cons u ts)
  have pos: "holders P ts \<noteq> 0" if "n < length ts" "P (d_place (ts ! n))" for n
    using that nth_mem [of n ts] by (force simp: holders_def filter_empty_conv)
  have holders: "holders P (u # ts) = of_bool (P (d_place u)) + holders P ts"
    by (simp add: holders_def)
  show ?case
  proof (cases i)
    case 0
    then obtain m where "j = Suc m" using Cons.prems(5) by (cases j) auto
    with 0 Cons.prems pos [of m] holders show ?thesis by auto
  next
    case (Suc n)
    have n: "n < length ts" "P (d_place (ts ! n))" using Cons.prems(1,2) Suc by simp_all
    show ?thesis
    proof (cases j)
      case 0
      with Suc Cons.prems(3) pos [OF n] holders show ?thesis by (cases "P (d_place u)") simp_all
    next
      case (Suc m)
      with Cons.IH [of n m] Cons.prems \<open>i = Suc n\<close> holders show ?thesis by simp
    qed
  qed
qed simp

lemma flushing_holds: "flushing p \<Longrightarrow> holds_buff p \<and> holds_entry p"
  by (cases p) auto

lemma settle_quiet [simp]: "\<not> flushing p \<Longrightarrow> settle p k = k"
  by (cases p) auto

lemma settled_at:
  assumes "i < length ts" "\<And>j. j < length ts \<Longrightarrow> j \<noteq> i \<Longrightarrow> \<not> flushing (d_place (ts ! j))"
  shows "settled ts k = settle (d_place (ts ! i)) k"
proof (cases "flushing (d_place (ts ! i))")
  case True
  have "find (\<lambda>t. flushing (d_place t)) ts = Some (ts ! i)"
    unfolding find_Some_iff using assms True by (metis (no_types, lifting) less_trans nat_neq_iff)
  then show ?thesis by (simp add: settled_def)
next
  case False
  then have "\<not> flushing (d_place t)" if "t \<in> set ts" for t
    using that assms by (metis in_set_conv_nth)
  then have "find (\<lambda>t. flushing (d_place t)) ts = None" by (simp add: find_None_iff)
  then show ?thesis using False by (simp add: settled_def)
qed

lemma settled_none: "(\<And>t. t \<in> set ts \<Longrightarrow> \<not> flushing (d_place t)) \<Longrightarrow> settled ts k = k"
  by (simp add: settled_def find_None_iff [THEN iffD2])

section \<open>What the steps of the device do\<close>

lemma find_located:
  assumes inv: "dev_inv env k" "env_ok env"
    and find: "aesd_circular_buffer_find_entry_offset_for_fpos (buff k) pos = Some (slot, off)"
  shows "located (buff k) slot off pos"
proof -
  obtain i j where ij: "locate (map length (dev_lines k)) (unat pos) = Some (i, j)"
    "slot = get_entry_at_virtual_offset (buff k) (of_nat i)" "off = of_nat j"
    using find by (auto simp: locate_lines [OF inv])
  note at = locate_SomeD [OF ij(1)]
  have i: "i < length (cb_items (buff k))" "i < 10"
    using at length_cb_items_le [OF dev_inv_cb [OF inv(1)]] by (simp_all add: length_dev_lines)
  have e: "entry (buff k) ! slot = cb_items (buff k) ! i"
    using i dev_inv_cb [OF inv(1)] by (simp add: ij(2) entry_at_virtual unat_of_nat_8 item_nth)
  have j: "j < unat (esize (cb_items (buff k) ! i))"
    using at i(1) by (simp add: lengths_dev_lines [OF inv(1)])
  then have "unat off = j"
    using unat_less_64 [of "esize (cb_items (buff k) ! i)"] unfolding ij(3) by (intro unat_of_nat_64) simp
  with at i e j show ?thesis
    by (auto simp: located_def lengths_dev_lines [OF inv(1)] intro!: exI [of _ i])
qed

lemma find_none:
  assumes "dev_inv env k" "env_ok env"
    and "aesd_circular_buffer_find_entry_offset_for_fpos (buff k) pos = None"
  shows "length (concat (dev_lines k)) \<le> unat pos"
  using assms by (simp add: locate_lines locate_None_iff length_concat)

lemma located_copy:
  assumes inv: "dev_inv env k" and loc: "located (buff k) slot off pos"
    and n: "n \<le> unat (esize (entry (buff k) ! slot)) - unat off"
  shows "kread (kheap k) (buffptr (entry (buff k) ! slot)) (unat off) n
    = Inr (take n (drop (unat pos) (concat (dev_lines k))))"
proof -
  obtain i where i: "i < length (cb_items (buff k))" "entry (buff k) ! slot = cb_items (buff k) ! i"
    "unat off < unat (esize (cb_items (buff k) ! i))"
    "unat pos = sum_list (take i (item_sizes (cb_items (buff k)))) + unat off"
    using loc by (auto simp: located_def)
  let ?e = "cb_items (buff k) ! i"
  obtain a blk where blk: "buffptr ?e = Some a" "kheap k a = Some blk" "unat (esize ?e) \<le> length blk"
    using inv nth_mem [OF i(1)] by (fastforce simp: dev_inv_def block_ok_def)
  have line: "dev_lines k ! i = take (unat (esize ?e)) blk" and il: "i < length (dev_lines k)"
    using i(1) blk by (simp_all add: dev_lines_def)
  have "unat off < length (dev_lines k ! i)" using i(3) blk(3) line by simp
  then have "locate (map length (dev_lines k)) (sum_list (take i (map length (dev_lines k))) + unat off)
      = Some (i, unat off)"
    using il by (intro locate_SomeI) simp_all
  then have "locate (map length (dev_lines k)) (unat pos) = Some (i, unat off)"
    by (simp only: i(4) lengths_dev_lines [OF inv])
  from drop_concat_locate [OF this]
  have "take n (drop (unat pos) (concat (dev_lines k))) = take n (drop (unat off) blk)"
    using n i(2,3) blk(3) by (simp add: line drop_take)
  then show ?thesis using n i blk by (simp add: kread_def)
qed

lemma kfree_drop: "kfree h p = Inr h' \<longleftrightarrow> h' = drop_block h p \<and> (\<forall>a. p = Some a \<longrightarrow> h a \<noteq> None)"
  by (auto simp: kfree_def drop_block_def split: option.splits)

lemma dev_inv_env: "KMALLOC_MAX_SIZE env' = KMALLOC_MAX_SIZE env \<Longrightarrow> dev_inv env' k = dev_inv env k"
  by (simp add: dev_inv_def block_ok_def)

text \<open>The new entry of a flush, given that the flush will be finished.\<close>

lemma flush_add:
  assumes inv: "dev_inv env k" and staged: "staged_line k"
  shows "\<exists>rb p. aesd_circular_buffer_add_entry (buff k)
      \<lparr>buffptr = buffPtr (stage k), esize = endIdx (stage k)\<rparr> = Inr (rb, p) \<and>
    (\<forall>a. p = Some a \<longrightarrow> kheap k a \<noteq> None) \<and>
    dev_inv env (settle (FlushFree b p) (k\<lparr>buff := rb\<rparr>)) \<and>
    dev_lines (settle (FlushFree b p) (k\<lparr>buff := rb\<rparr>)) = keep_last 10 (dev_lines k @ [dev_partial k])"
proof -
  let ?env = "env\<lparr>lock_interrupted := (\<lambda>n. False)\<rparr>"
  let ?k = "k\<lparr>buffMutex := False\<rparr>"
  obtain a where a: "buffPtr (stage ?k) = Some a" "0 < unat (endIdx (stage ?k))"
    using staged by (auto simp: staged_line_def)
  have inv': "dev_inv ?env ?k" using inv by (simp add: dev_inv_env [of ?env env])
  have "\<not> buffMutex ?k" "\<not> lock_interrupted ?env (clock ?k)" by simp_all
  from FlushPartial_flushed [OF inv' a this]
  obtain k' where k': "FlushPartial ?env ?k = Inr (0, k')" "dev_inv ?env k'"
    "dev_lines k' = keep_last 10 (dev_lines k @ [dev_partial k])"
    by auto
  obtain rb p where rb: "aesd_circular_buffer_add_entry (buff k)
      \<lparr>buffptr = buffPtr (stage k), esize = endIdx (stage k)\<rparr> = Inr (rb, p)"
    "\<forall>a. p = Some a \<longrightarrow> kheap k a \<noteq> None"
    "k' = unlock_buff ((tick ?k)\<lparr>buffMutex := True, buff := rb, kheap := drop_block (kheap k) p,
            stage := (stage k)\<lparr>buffPtr := None, endIdx := 0\<rparr>\<rparr>)"
    using k'(1) a(1)
    by (auto simp: FlushPartial_def lock_buff_def bindR_Inr_iff kfree_drop)
  let ?s = "settle (FlushFree b p) (k\<lparr>buff := rb\<rparr>)"
  have "dev_inv env ?s = dev_inv env k'"
    by (rule dev_inv_cong) (simp_all add: rb(3) reset_stage_def unlock_buff_def)
  moreover have "dev_lines ?s = dev_lines k'"
    by (rule dev_lines_cong) (simp_all add: rb(3) reset_stage_def unlock_buff_def)
  ultimately show ?thesis
    using rb(1,2) k'(2,3) dev_inv_env [of ?env env k'] by simp
qed

lemma dev_inv_settle_cong:
  "buff k' = buff k \<Longrightarrow> kheap k' = kheap k \<Longrightarrow> next_block k' = next_block k \<Longrightarrow>
   buffPtr (stage k') = buffPtr (stage k) \<Longrightarrow> endIdx (stage k') = endIdx (stage k) \<Longrightarrow>
   dev_inv env (settle p k') = dev_inv env (settle p k)"
  by (cases p; simp only: settle.simps; rule dev_inv_cong; simp add: reset_stage_def)

section \<open>Progress of a task\<close>

text \<open>How many steps a task can still make in its call, at most.\<close>

definition place_weight :: "syscall \<Rightarrow> dplace \<Rightarrow> nat" where
  "place_weight c p = (let n = (case c of SysWrite buf count \<Rightarrow> unat count | _ \<Rightarrow> 0) in case p of
     Entry \<Rightarrow> 11 * n + 6
   | ReadFind \<Rightarrow> 3 | ReadCopy slot off pos \<Rightarrow> 2
   | SeekSet \<Rightarrow> 3 | SeekGet \<Rightarrow> 2
   | IoctlLock st \<Rightarrow> 3 | IoctlSeek st \<Rightarrow> 2
   | UnlockBuff r bs \<Rightarrow> 1
   | WriteLock \<Rightarrow> 11 * n + 5 | WriteCheck \<Rightarrow> 11 * n + 4
   | Scan j b \<Rightarrow> 10 * (n - b) + (n - (b + j)) + 3
   | Store m b \<Rightarrow> 10 * (n - b) + (n - (b + m)) + 3
   | FlushLock b \<Rightarrow> 11 * (n - b) + 8 | FlushAdd b \<Rightarrow> 11 * (n - b) + 7
   | FlushFree b q \<Rightarrow> 11 * (n - b) + 6 | FlushReset b \<Rightarrow> 11 * (n - b) + 5
   | FlushUnlock b \<Rightarrow> 11 * (n - b) + 4
   | Tail b \<Rightarrow> 2
   | UnlockEntry r \<Rightarrow> 1)"

definition task_weight :: "dtask \<Rightarrow> nat" where
  "task_weight t = (case d_todo t of [] \<Rightarrow> 0
     | c # cs \<Rightarrow> place_weight c (d_place t) + sum_list (map (\<lambda>c. place_weight c Entry) cs))"

lemma place_weight_pos: "0 < place_weight c p"
  by (cases p) (simp_all add: place_weight_def Let_def)

text \<open>What a step may do to the rest of the system, given the places before and after it.\<close>

definition lock_moves :: "bool \<Rightarrow> bool \<Rightarrow> bool \<Rightarrow> bool \<Rightarrow> bool" where
  "lock_moves h h' m m' \<longleftrightarrow> (if h = h' then m' = m else m = h \<and> m' = h')"

definition guar :: "kernel_env \<Rightarrow> dplace \<Rightarrow> dplace \<Rightarrow> kstate \<Rightarrow> kstate \<Rightarrow> bool" where
  "guar env p p' k k' \<longleftrightarrow>
     (stage_size (stage k') = stage_size (stage k) \<or> stage_size (stage k') = KMALLOC_MAX_SIZE env) \<and>
     (\<not> holds_entry p \<longrightarrow> buffPtr (stage k') = buffPtr (stage k) \<and> endIdx (stage k') = endIdx (stage k) \<and>
        kheap k' = kheap k \<and> next_block k' = next_block k) \<and>
     (\<not> (holds_entry p \<and> holds_buff p) \<longrightarrow> buff k' = buff k) \<and>
     (flushing p' \<longrightarrow> holds_entry p) \<and>
     lock_moves (holds_buff p) (holds_buff p') (buffMutex k) (buffMutex k') \<and>
     lock_moves (holds_entry p) (holds_entry p') (entryMutex k) (entryMutex k')"

definition step_good :: "kernel_env \<Rightarrow> dtask \<Rightarrow> kstate \<Rightarrow> dtask \<Rightarrow> kstate \<Rightarrow> bool" where
  "step_good env t k t' k' \<longleftrightarrow>
     task_ok env k' t' \<and> guar env (d_place t) (d_place t') k k' \<and> task_weight t' < task_weight t \<and>
     (holds_buff (d_place t) \<or> holds_entry (d_place t) \<longrightarrow> dev_inv env (settle (d_place t') k'))"

text \<open>What a task knows when it makes a step.\<close>

definition at_step :: "kernel_env \<Rightarrow> syscall \<Rightarrow> dtask \<Rightarrow> kstate \<Rightarrow> bool" where
  "at_step env c t k \<longleftrightarrow> env_ok env \<and> task_ok env k t \<and> (\<exists>cs. d_todo t = c # cs) \<and>
     (holds_buff (d_place t) \<longrightarrow> buffMutex k) \<and> (holds_entry (d_place t) \<longrightarrow> entryMutex k) \<and>
     (holds_buff (d_place t) \<or> holds_entry (d_place t) \<longrightarrow> dev_inv env (settle (d_place t) k))"

lemma at_step_ok: "at_step env c t k \<Longrightarrow> private_data (d_file t) \<noteq> None \<and> call_ok c \<and> at_ok env k c (d_place t)"
  by (auto simp: at_step_def task_ok_def)

text \<open>A step inside the call, and a step that ends it.\<close>

lemma step_goodI:
  assumes "at_step env c t k" "private_data (d_file t') \<noteq> None" "d_todo t' = d_todo t"
    and "at_ok env k' c (d_place t')" "place_weight c (d_place t') < place_weight c (d_place t)"
    and "guar env (d_place t) (d_place t') k k'"
    and "holds_buff (d_place t) \<or> holds_entry (d_place t) \<Longrightarrow> dev_inv env (settle (d_place t') k')"
  shows "step_good env t k t' k'"
  using assms by (auto simp: step_good_def at_step_def task_ok_def task_weight_def)

lemma step_good_answer:
  assumes "at_step env c t k" "private_data (d_file t') \<noteq> None" "d_todo t' = d_todo t"
    and "guar env (d_place t) Entry k k'"
    and "holds_buff (d_place t) \<or> holds_entry (d_place t) \<Longrightarrow> dev_inv env k'"
  shows "step_good env t k (reply r bs t') k'"
proof -
  obtain cs where cs: "d_todo t = c # cs" using assms(1) by (auto simp: at_step_def)
  have "task_weight (reply r bs t') = sum_list (map (\<lambda>c. place_weight c Entry) cs)"
    using cs assms(3) by (cases cs) (simp_all add: task_weight_def reply_def)
  then have "task_weight (reply r bs t') < task_weight t"
    using cs place_weight_pos [of c "d_place t"] by (simp add: task_weight_def)
  moreover have "at_ok env k' d Entry" for d by (cases d) simp_all
  then have "task_ok env k' (reply r bs t')"
    using assms(1-3) cs by (auto simp: at_step_def task_ok_def reply_def split: list.split)
  ultimately show ?thesis using assms(4,5) by (simp add: step_good_def reply_def)
qed

lemma guar_same:
  "k' = k \<or> k' = tick k \<or> (\<exists>q. k' = k\<lparr>lseekPos := q\<rparr>) \<Longrightarrow> holds_buff p' = holds_buff p \<Longrightarrow>
   holds_entry p' = holds_entry p \<Longrightarrow> guar env p p' k k'"
  by (auto simp: guar_def lock_moves_def flushing_holds)

lemma lock_buff_step:
  assumes "at_step env c t k" "lock_step (take_buff env k) p t s = Some r" "k = kern s"
    and "\<not> holds_buff (d_place t)" "\<not> holds_entry (d_place t)" "holds_buff p" "\<not> holds_entry p"
    and "\<And>k'. at_ok env k' c p" "place_weight c p < place_weight c (d_place t)"
  shows "\<exists>t' s'. r = Inr (t', s') \<and> step_good env t k t' (kern s')"
proof -
  obtain i k1 where m: "take_buff env k = Some (i, k1)"
    "r = Inr (if i then reply (- ERESTARTSYS) [] t else t\<lparr>d_place := p\<rparr>, s\<lparr>kern := k1\<rparr>)"
    using assms(2) by (auto simp: lock_step_def)
  have "private_data (d_file t) \<noteq> None" using at_step_ok [OF assms(1)] by blast
  moreover have "i \<Longrightarrow> guar env (d_place t) Entry k k1" "\<not> i \<Longrightarrow> guar env (d_place t) p k k1"
    using m(1) assms(4-7) flushing_holds [of p]
    by (auto simp: take_buff_def guar_def lock_moves_def split: if_splits)
  ultimately show ?thesis
    using assms m(2) by (auto intro: step_good_answer step_goodI)
qed

lemma unlock_buff_step:
  assumes "at_step env c t k" "unlock_step r bs t s = Some q" "k = kern s" "d_place t = UnlockBuff r bs"
  shows "\<exists>t' s'. q = Inr (t', s') \<and> step_good env t k t' (kern s')"
proof -
  have "private_data (d_file t) \<noteq> None" using at_step_ok [OF assms(1)] by blast
  moreover have "guar env (d_place t) Entry k (unlock_buff k)" "dev_inv env (unlock_buff k)"
    using assms(1,4) by (simp_all add: guar_def lock_moves_def unlock_buff_def at_step_def)
  ultimately have "step_good env t k (reply r bs t) (unlock_buff k)"
    using assms(4) by (intro step_good_answer [OF assms(1)]) simp_all
  with assms(2,3) show ?thesis by (auto simp: unlock_step_def)
qed

section \<open>Every step is good\<close>

lemma read_step_good:
  assumes st: "at_step env (SysRead n) t (kern s)" and r: "read_step env i n t s = Some r"
  shows "\<exists>t' s'. r = Inr (t', s') \<and> step_good env t (kern s) t' (kern s')"
proof -
  let ?k = "kern s"
  have pd: "private_data (d_file t) \<noteq> None" and ok: "d_place t = Entry \<or> read_at_ok ?k (d_place t)"
    using at_step_ok [OF st] by simp_all
  have inv: "holds_buff (d_place t) \<Longrightarrow> \<not> flushing (d_place t) \<Longrightarrow> dev_inv env ?k" and eo: "env_ok env"
    using st by (auto simp: at_step_def)
  show ?thesis
  proof (cases "d_place t")
    case Entry
    with r pd show ?thesis
      by (intro lock_buff_step [OF st, of ReadFind])
         (auto simp: read_step_def read_at_ok_def place_weight_def Let_def)
  next
    case ReadFind
    with inv have inv: "dev_inv env ?k" by simp
    show ?thesis
    proof (cases "aesd_circular_buffer_find_entry_offset_for_fpos (buff ?k) (f_pos (d_file t) + lseekPos ?k)")
      case None
      with r ReadFind pd inv show ?thesis
        by (auto simp: read_step_def Let_def read_at_ok_def place_weight_def intro!: step_goodI [OF st] guar_same)
    next
      case (Some so)
      obtain slot off where so: "so = (slot, off)" by (cases so)
      from find_located [OF inv eo Some [unfolded so]] r ReadFind pd inv Some so show ?thesis
        by (auto simp: read_step_def Let_def read_at_ok_def place_weight_def intro!: step_goodI [OF st] guar_same)
    qed
  next
    case (ReadCopy slot off pos)
    with inv have inv: "dev_inv env ?k" by simp
    have loc: "located (buff ?k) slot off pos" using ok ReadCopy by (simp add: read_at_ok_def)
    let ?e = "entry (buff ?k) ! slot"
    define m where "m = (if esize ?e - off < n then esize ?e - off else n)"
    have "unat off \<le> unat (esize ?e)" using loc by (auto simp: located_def)
    then have "unat m \<le> unat (esize ?e) - unat off"
      by (auto simp: m_def unat_sub word_le_nat_alt word_less_nat_alt)
    from located_copy [OF inv loc this] r ReadCopy pd inv show ?thesis
      by (auto simp: read_step_def Let_def m_def read_at_ok_def place_weight_def
          intro!: step_goodI [OF st] guar_same)
  next
    case (UnlockBuff q bs)
    with r show ?thesis by (intro unlock_buff_step [OF st]) (auto simp: read_step_def Let_def)
  qed (use r in \<open>simp_all add: read_step_def Let_def\<close>)
qed

lemma llseek_step_good:
  assumes st: "at_step env (SysLlseek off w) t (kern s)" and r: "llseek_step env off w t s = Some r"
  shows "\<exists>t' s'. r = Inr (t', s') \<and> step_good env t (kern s) t' (kern s')"
proof -
  let ?k = "kern s"
  have pd: "private_data (d_file t) \<noteq> None" and ok: "d_place t = Entry \<or> seek_at_ok (d_place t)"
    using at_step_ok [OF st] by simp_all
  have inv: "holds_buff (d_place t) \<Longrightarrow> \<not> flushing (d_place t) \<Longrightarrow> dev_inv env ?k"
    using st by (auto simp: at_step_def)
  show ?thesis
  proof (cases "d_place t")
    case Entry
    with r pd show ?thesis
      by (intro lock_buff_step [OF st, of SeekSet])
         (auto simp: llseek_step_def seek_at_ok_def place_weight_def Let_def)
  next
    case SeekSet
    with r pd inv show ?thesis
      by (auto simp: llseek_step_def Let_def seek_at_ok_def place_weight_def intro!: step_goodI [OF st] guar_same)
  next
    case SeekGet
    with r pd inv show ?thesis
      by (auto simp: llseek_step_def Let_def seek_at_ok_def place_weight_def intro!: step_goodI [OF st] guar_same)
  next
    case (UnlockBuff q bs)
    with r show ?thesis by (intro unlock_buff_step [OF st]) (auto simp: llseek_step_def Let_def)
  qed (use r in \<open>simp_all add: llseek_step_def Let_def\<close>)
qed

lemma ioctl_step_good:
  assumes st: "at_step env (SysIoctl cmd arg) t (kern s)" and r: "ioctl_step env cmd arg t s = Some r"
  shows "\<exists>t' s'. r = Inr (t', s') \<and> step_good env t (kern s) t' (kern s')"
proof -
  let ?k = "kern s"
  have pd: "private_data (d_file t) \<noteq> None" and ok: "d_place t = Entry \<or> ioctl_at_ok (d_place t)"
    using at_step_ok [OF st] by simp_all
  have inv: "holds_buff (d_place t) \<Longrightarrow> \<not> flushing (d_place t) \<Longrightarrow> dev_inv env ?k"
    using st by (auto simp: at_step_def)
  have ends: "step_good env t ?k (reply q [] t) k'" if "d_place t = Entry" "k' = ?k \<or> k' = tick ?k" for q k'
    using that pd by (intro step_good_answer [OF st]) (auto intro: guar_same)
  show ?thesis
  proof (cases "d_place t")
    case Entry
    show ?thesis
    proof (cases "user_seekto env (clock ?k) arg")
      case None
      with r Entry show ?thesis
        by (auto simp: ioctl_step_def Let_def intro: ends split: if_splits)
    next
      case (Some w)
      have "step_good env t ?k (t\<lparr>d_place := IoctlLock w\<rparr>) (tick ?k)"
        using Entry pd by (intro step_goodI [OF st])
          (auto simp: ioctl_at_ok_def place_weight_def intro!: guar_same)
      with r Entry Some show ?thesis
        by (auto simp: ioctl_step_def Let_def intro: ends split: if_splits)
    qed
  next
    case (IoctlLock w)
    with r pd show ?thesis
      by (intro lock_buff_step [OF st, of "IoctlSeek w"])
         (auto simp: ioctl_step_def ioctl_at_ok_def place_weight_def Let_def)
  next
    case (IoctlSeek w)
    have good: "step_good env t ?k (t\<lparr>d_place := UnlockBuff q []\<rparr>) k'"
      if "k' = ?k \<or> (\<exists>p. k' = ?k\<lparr>lseekPos := p\<rparr>)" for q k'
      using that IoctlSeek pd inv by (intro step_goodI [OF st])
        (auto simp: ioctl_at_ok_def place_weight_def intro!: guar_same)
    have "step_good env t ?k (t\<lparr>d_place := UnlockBuff q []\<rparr>) ?k"
      "step_good env t ?k (t\<lparr>d_place := UnlockBuff q []\<rparr>) (?k\<lparr>lseekPos := p\<rparr>)" for q p
      by (rule good; blast)+
    with r IoctlSeek show ?thesis
      by (auto simp: ioctl_step_def Let_def split: if_splits)
  next
    case (UnlockBuff q bs)
    with r show ?thesis by (intro unlock_buff_step [OF st]) (auto simp: ioctl_step_def Let_def)
  qed (use r in \<open>simp_all add: ioctl_step_def Let_def\<close>)
qed

text \<open>The steps of a write that leave the device to the others, and those in a flush.\<close>

lemma write_goodI:
  assumes "at_step env (SysWrite buf count) t k" "holds_entry (d_place t)" "holds_entry p"
    and "write_at_ok env k' count p" "place_weight (SysWrite buf count) p < place_weight (SysWrite buf count) (d_place t)"
    and "entryMutex k' = entryMutex k" "lock_moves (holds_buff (d_place t)) (holds_buff p) (buffMutex k) (buffMutex k')"
    and "holds_buff (d_place t) \<or> buff k' = buff k"
    and "dev_inv env (settle p k')"
  shows "step_good env t k (t\<lparr>d_place := p\<rparr>) k'"
proof -
  have "private_data (d_file t) \<noteq> None" using at_step_ok [OF assms(1)] by blast
  with assms show ?thesis
    by (intro step_goodI [OF assms(1)]) (auto simp: guar_def write_at_ok_def lock_moves_def)
qed

lemma write_at_step:
  assumes "at_step env (SysWrite buf count) t k"
  shows "private_data (d_file t) \<noteq> None" "length buf = unat count" "env_ok env"
    "d_place t = Entry \<or> write_at_ok env k count (d_place t)"
    "holds_entry (d_place t) \<Longrightarrow> entryMutex k \<and> dev_inv env (settle (d_place t) k)"
    "holds_buff (d_place t) \<Longrightarrow> buffMutex k"
  using at_step_ok [OF assms] assms by (auto simp: at_step_def)

lemma flush_step_good:
  assumes st: "at_step env (SysWrite buf count) t (kern s)" and r: "flush_step env t s = Some r"
  shows "\<exists>t' s'. r = Inr (t', s') \<and> step_good env t (kern s) t' (kern s')"
proof -
  let ?k = "kern s"
  note ws = write_at_step [OF st]
  have unlocked: "dev_inv env (unlock_buff k) = dev_inv env k" "stage (unlock_buff k) = stage k"
    "buff (unlock_buff k) = buff k" "entryMutex (unlock_buff k) = entryMutex k" for k
    by (simp_all add: unlock_buff_def)
  show ?thesis
  proof (cases "d_place t")
    case (FlushLock b)
    have ok: "room env ?k count b" "staged_line ?k" "stage_size (stage ?k) = KMALLOC_MAX_SIZE env" "dev_inv env ?k"
      using ws(4,5) FlushLock by (simp_all add: write_at_ok_def)
    have good: "step_good env t ?k (t\<lparr>d_place := Scan 0 b\<rparr>) (tick ?k)"
      "\<not> buffMutex ?k \<Longrightarrow> step_good env t ?k (t\<lparr>d_place := FlushAdd b\<rparr>) ((tick ?k)\<lparr>buffMutex := True\<rparr>)"
      using ok FlushLock room_le [OF ok(1)]
      by (intro write_goodI [OF st]; simp add: write_at_ok_def place_weight_def lock_moves_def)+
    from r FlushLock good show ?thesis
      by (auto simp: flush_step_def take_buff_def Let_def split: if_splits)
  next
    case (FlushAdd b)
    have ok: "room env ?k count b" "staged_line ?k" "stage_size (stage ?k) = KMALLOC_MAX_SIZE env" "dev_inv env ?k"
      using ws(4,5) FlushAdd by (simp_all add: write_at_ok_def)
    obtain rb p where rb: "aesd_circular_buffer_add_entry (buff ?k)
        \<lparr>buffptr = buffPtr (stage ?k), esize = endIdx (stage ?k)\<rparr> = Inr (rb, p)"
      "\<forall>a. p = Some a \<longrightarrow> kheap ?k a \<noteq> None" "dev_inv env (settle (FlushFree b p) (?k\<lparr>buff := rb\<rparr>))"
      using flush_add [OF ok(4,2), of b] by blast
    have "step_good env t ?k (t\<lparr>d_place := FlushFree b p\<rparr>) (?k\<lparr>buff := rb\<rparr>)"
      using ok rb(2,3) FlushAdd
      by (intro write_goodI [OF st]) (simp_all add: write_at_ok_def place_weight_def lock_moves_def)
    with r FlushAdd ok(2) rb(1) show ?thesis
      by (auto simp: flush_step_def Let_def staged_line_def)
  next
    case (FlushFree b p)
    have ok: "room env ?k count b" "\<forall>a. p = Some a \<longrightarrow> kheap ?k a \<noteq> None"
      "stage_size (stage ?k) = KMALLOC_MAX_SIZE env"
      "dev_inv env (reset_stage (?k\<lparr>kheap := drop_block (kheap ?k) p\<rparr>))"
      using ws(4,5) FlushFree by (simp_all add: write_at_ok_def)
    have "step_good env t ?k (t\<lparr>d_place := FlushReset b\<rparr>) (?k\<lparr>kheap := drop_block (kheap ?k) p\<rparr>)"
      using ok FlushFree
      by (intro write_goodI [OF st]) (simp_all add: write_at_ok_def place_weight_def lock_moves_def)
    moreover have "kfree (kheap ?k) p = Inr (drop_block (kheap ?k) p)" using ok(2) by (simp add: kfree_drop)
    ultimately show ?thesis using r FlushFree by (auto simp: flush_step_def Let_def)
  next
    case (FlushReset b)
    have ok: "room env ?k count b" "stage_size (stage ?k) = KMALLOC_MAX_SIZE env" "dev_inv env (reset_stage ?k)"
      using ws(4,5) FlushReset by (simp_all add: write_at_ok_def)
    have "step_good env t ?k (t\<lparr>d_place := FlushUnlock b\<rparr>) (reset_stage ?k)"
      using ok FlushReset
      by (intro write_goodI [OF st])
        (simp_all add: write_at_ok_def place_weight_def lock_moves_def room_reset, simp_all add: reset_stage_def)
    with r FlushReset show ?thesis by (auto simp: flush_step_def Let_def reset_stage_def)
  next
    case (FlushUnlock b)
    have ok: "room env ?k count b" "stage_size (stage ?k) = KMALLOC_MAX_SIZE env" "dev_inv env ?k" "buffMutex ?k"
      using ws(4,5,6) FlushUnlock by (simp_all add: write_at_ok_def)
    have "step_good env t ?k (t\<lparr>d_place := Scan 0 b\<rparr>) (unlock_buff ?k)"
      using ok FlushUnlock room_le [OF ok(1)]
      by (intro write_goodI [OF st])
        (simp_all add: write_at_ok_def place_weight_def lock_moves_def unlocked, simp_all add: unlock_buff_def)
    with r FlushUnlock show ?thesis by (auto simp: flush_step_def Let_def)
  qed (use r in \<open>simp_all add: flush_step_def Let_def\<close>)
qed

lemma write_entry_good:
  assumes st: "at_step env (SysWrite buf count) t k" and pl: "d_place t = Entry"
  shows "step_good env t k (t\<lparr>d_place := WriteLock\<rparr>)
    (k\<lparr>stage := (stage k)\<lparr>stage_size := KMALLOC_MAX_SIZE env\<rparr>\<rparr>)"
  using write_at_step(1) [OF st] pl
  by (intro step_goodI [OF st]) (simp_all add: guar_def lock_moves_def write_at_ok_def place_weight_def)

lemma write_lock_good:
  assumes st: "at_step env (SysWrite buf count) t (kern s)" and pl: "d_place t = WriteLock"
    and r: "lock_step (take_entry env (kern s)) WriteCheck t s = Some r"
  shows "\<exists>t' s'. r = Inr (t', s') \<and> step_good env t (kern s) t' (kern s')"
proof -
  let ?k = "kern s"
  have size: "stage_size (stage ?k) = KMALLOC_MAX_SIZE env"
    using write_at_step(4) [OF st] pl by (simp add: write_at_ok_def)
  have "step_good env t ?k (reply (- ERESTARTSYS) [] t) (tick ?k)"
    using write_at_step(1) [OF st] pl by (intro step_good_answer [OF st]) (auto intro: guar_same)
  moreover have "step_good env t ?k (t\<lparr>d_place := WriteCheck\<rparr>) ((tick ?k)\<lparr>entryMutex := True\<rparr>)"
    if "\<not> entryMutex ?k"
    using write_at_step(1) [OF st] pl that size
    by (intro step_goodI [OF st]) (simp_all add: guar_def lock_moves_def write_at_ok_def place_weight_def)
  ultimately show ?thesis using r by (auto simp: lock_step_def take_entry_def split: if_splits)
qed

lemma write_check_room:
  assumes "\<not> (count > stage_size (stage k) \<or> endIdx (stage k) + count > stage_size (stage k))"
    and "stage_size (stage k) = KMALLOC_MAX_SIZE env" "dev_inv env k" "env_ok env"
  shows "room env k count 0"
proof -
  have "unat (KMALLOC_MAX_SIZE env) < 2 ^ 31" "unat (endIdx (stage k)) \<le> unat (KMALLOC_MAX_SIZE env)"
    using assms(3,4) by (auto simp: env_ok_def dev_inv_def split: if_splits)
  moreover have "unat count \<le> unat (KMALLOC_MAX_SIZE env)"
    using assms(1,2) by (simp add: word_less_nat_alt)
  ultimately have "unat (endIdx (stage k) + count) = unat (endIdx (stage k)) + unat count"
    by (intro unat_add_64) simp
  then show ?thesis using assms(1,2) by (simp add: room_def word_less_nat_alt)
qed

text \<open>A copy of \<open>m\<close> bytes from position \<open>b\<close> into the staging buffer.\<close>

lemma store_good:
  assumes inv: "dev_inv env k" "stage_size (stage k) = KMALLOC_MAX_SIZE env" "room env k count b"
    and c: "unat m = n" "0 < n" "b + n \<le> unat count" "length buf = unat count"
  shows "\<exists>r k'. StorePartial env (drop b buf) m k = Inr (r, k') \<and> dev_inv env k' \<and> frame k k' \<and>
    buff k' = buff k \<and> dev_lines k' = dev_lines k \<and>
    (r \<noteq> 0 \<and> kmalloc_fails env (clock k) \<and> buffPtr (stage k) = None \<and> dev_partial k' = dev_partial k \<or>
     r = 0 \<and> staged_line k' \<and> room env k' count (b + n) \<and>
     dev_partial k' = dev_partial k @ take n (drop b buf))"
proof -
  have pre: "0 < unat m" "unat m \<le> length (drop b buf)"
    "unat (endIdx (stage k)) + unat m \<le> unat (KMALLOC_MAX_SIZE env)"
    using c inv(3) by (auto simp: room_def)
  show ?thesis
  proof (rule StorePartial_cases [OF inv(1,2) pre])
    assume "StorePartial env (drop b buf) m k = Inr (- ENOMEM, tick k)"
      "buffPtr (stage k) = None" "kmalloc_fails env (clock k)"
    with inv(1) show ?thesis by (intro exI [of _ "- ENOMEM"] exI [of _ "tick k"]) (simp add: ENOMEM_def)
  next
    fix k'
    assume st: "StorePartial env (drop b buf) m k = Inr (0, k')" "dev_inv env k'" "frame k k'"
      "dev_lines k' = dev_lines k" "dev_partial k' = dev_partial k @ take (unat m) (drop b buf)"
      "buffPtr (stage k') \<noteq> None" "unat (endIdx (stage k')) = unat (endIdx (stage k)) + unat m"
      "buff k' = buff k"
    then have "staged_line k' \<and> room env k' count (b + n)"
      using c inv(3) by (auto simp: staged_line_def room_def)
    with st c(1) show ?thesis by blast
  qed
qed

lemma write_store_good:
  assumes st: "at_step env (SysWrite buf count) t (kern s)" and pl: "d_place t = Store n b"
    and r: "write_step env i buf count t s = Some r"
  shows "\<exists>t' s'. r = Inr (t', s') \<and> step_good env t (kern s) t' (kern s')"
proof -
  let ?k = "kern s"
  note ws = write_at_step [OF st]
  have ok: "0 < n" "b + n \<le> unat count" "room env ?k count b" "stage_size (stage ?k) = KMALLOC_MAX_SIZE env"
    "dev_inv env ?k"
    using ws(4,5) pl by (simp_all add: write_at_ok_def)
  have n: "unat (of_nat n :: size_t) = n"
    using ok(2) unat_less_64 [of count] by (intro unat_of_nat_64) linarith
  obtain q k' where sp: "StorePartial env (drop b buf) (of_nat n) ?k = Inr (q, k')" "dev_inv env k'" "frame ?k k'"
    "buff k' = buff ?k" "q \<noteq> 0 \<or> staged_line k' \<and> room env k' count (b + n)"
    using store_good [OF ok(5,4,3) n ok(1,2) ws(2)] by metis
  have fr: "stage_size (stage k') = KMALLOC_MAX_SIZE env" "entryMutex k' = entryMutex ?k" "buffMutex k' = buffMutex ?k"
    using sp(3) ok(4) by (simp_all add: frame_def)
  have "step_good env t ?k (t\<lparr>d_place := UnlockEntry e\<rparr>) k'" for e
    using pl fr sp(2,4) by (intro write_goodI [OF st])
      (simp_all add: write_at_ok_def place_weight_def Let_def lock_moves_def)
  moreover have "step_good env t ?k (t\<lparr>d_place := FlushLock (b + n)\<rparr>) k'" if "q = 0"
    using pl fr sp(2,4,5) ok(1,2) that by (intro write_goodI [OF st])
      (simp_all add: write_at_ok_def place_weight_def Let_def lock_moves_def)
  ultimately show ?thesis using r pl sp(1) by (auto simp: write_step_def Let_def)
qed

lemma write_tail_good:
  assumes st: "at_step env (SysWrite buf count) t (kern s)" and pl: "d_place t = Tail b"
    and r: "write_step env i buf count t s = Some r"
  shows "\<exists>t' s'. r = Inr (t', s') \<and> step_good env t (kern s) t' (kern s')"
proof -
  let ?k = "kern s"
  note ws = write_at_step [OF st]
  have ok: "b < unat count" "room env ?k count b" "stage_size (stage ?k) = KMALLOC_MAX_SIZE env" "dev_inv env ?k"
    using ws(4,5) pl by (simp_all add: write_at_ok_def)
  have "unat (of_nat b :: size_t) = b"
    using ok(1) unat_less_64 [of count] by (intro unat_of_nat_64) linarith
  then have n: "unat (count - of_nat b) = unat count - b"
    using ok(1) by (simp add: unat_sub word_le_nat_alt)
  have le: "0 < unat count - b" "b + (unat count - b) \<le> unat count" using ok(1) by simp_all
  obtain q k' where sp: "StorePartial env (drop b buf) (count - of_nat b) ?k = Inr (q, k')" "dev_inv env k'"
    "frame ?k k'" "buff k' = buff ?k"
    using store_good [OF ok(4,3,2) n le ws(2)] by metis
  have fr: "stage_size (stage k') = KMALLOC_MAX_SIZE env" "entryMutex k' = entryMutex ?k" "buffMutex k' = buffMutex ?k"
    using sp(3) ok(3) by (simp_all add: frame_def)
  have "step_good env t ?k (t\<lparr>d_place := UnlockEntry count\<rparr>) k'"
    using pl fr sp(2,4) by (intro write_goodI [OF st])
      (simp_all add: write_at_ok_def place_weight_def Let_def lock_moves_def)
  then show ?thesis using r pl sp(1) by (auto simp: write_step_def Let_def)
qed

lemma write_step_good:
  assumes st: "at_step env (SysWrite buf count) t (kern s)" and r: "write_step env i buf count t s = Some r"
  shows "\<exists>t' s'. r = Inr (t', s') \<and> step_good env t (kern s) t' (kern s')"
proof -
  let ?k = "kern s"
  note ws = write_at_step [OF st]
  have flush: "write_step env i buf count t s = flush_step env t s \<Longrightarrow> ?thesis"
    using flush_step_good [OF st] r by simp
  show ?thesis
  proof (cases "d_place t")
    case Entry
    with r ws(1) write_entry_good [OF st] show ?thesis by (auto simp: write_step_def Let_def)
  next
    case WriteLock
    with r show ?thesis by (intro write_lock_good [OF st]) (simp_all add: write_step_def Let_def)
  next
    case WriteCheck
    have ok: "stage_size (stage ?k) = KMALLOC_MAX_SIZE env" "dev_inv env ?k"
      using ws(4,5) WriteCheck by (simp_all add: write_at_ok_def)
    have "step_good env t ?k (t\<lparr>d_place := UnlockEntry (- ENOMEM)\<rparr>) ?k"
      using ok WriteCheck by (intro write_goodI [OF st])
        (simp_all add: write_at_ok_def place_weight_def lock_moves_def)
    moreover have "step_good env t ?k (t\<lparr>d_place := Scan 0 0\<rparr>) ?k" if "room env ?k count 0"
      using ok WriteCheck that by (intro write_goodI [OF st])
        (simp_all add: write_at_ok_def place_weight_def lock_moves_def)
    ultimately show ?thesis
      using r WriteCheck write_check_room [OF _ ok ws(3), of count]
      by (auto simp: write_step_def Let_def split: if_splits)
  next
    case (Scan j b)
    have ok: "b + j \<le> unat count" "room env ?k count b" "stage_size (stage ?k) = KMALLOC_MAX_SIZE env"
      "dev_inv env ?k"
      using ws(4,5) Scan by (simp_all add: write_at_ok_def)
    have "step_good env t ?k (t\<lparr>d_place := UnlockEntry count\<rparr>) ?k"
      using ok Scan by (intro write_goodI [OF st])
        (simp_all add: write_at_ok_def place_weight_def Let_def lock_moves_def)
    moreover have "step_good env t ?k (t\<lparr>d_place := Tail b\<rparr>) ?k" if "b < unat count"
      using ok Scan that by (intro write_goodI [OF st])
        (simp_all add: write_at_ok_def place_weight_def Let_def lock_moves_def)
    moreover have "step_good env t ?k (t\<lparr>d_place := Store (Suc j) b\<rparr>) ?k"
      "step_good env t ?k (t\<lparr>d_place := Scan (Suc j) b\<rparr>) ?k" if "b + j < unat count"
      using ok Scan that by (intro write_goodI [OF st];
        simp add: write_at_ok_def place_weight_def Let_def lock_moves_def)+
    ultimately show ?thesis
      using r Scan ws(2) by (auto simp: write_step_def Let_def split: if_splits)
  next
    case (UnlockEntry q)
    have inv: "dev_inv env ?k" "entryMutex ?k" using ws(5) UnlockEntry by simp_all
    have "step_good env t ?k (reply q [] t) (unlock_entry ?k)"
      using ws(1) inv UnlockEntry by (intro step_good_answer [OF st])
        (simp_all, simp add: guar_def lock_moves_def unlock_entry_def)
    with r UnlockEntry show ?thesis by (auto simp: write_step_def Let_def)
  qed (use flush r write_store_good [OF st _ r] write_tail_good [OF st _ r] in
      \<open>simp_all add: write_step_def Let_def\<close>)
qed

lemma open_step_good:
  assumes st: "at_step env SysOpen t (kern s)" and r: "open_step t s = Some r"
  shows "\<exists>t' s'. r = Inr (t', s') \<and> step_good env t (kern s) t' (kern s')"
proof -
  have "d_place t = Entry" using at_step_ok [OF st] by simp
  then have "step_good env t (kern s) (reply 0 [] (t\<lparr>d_file := (d_file t)\<lparr>private_data := Some TheDevice\<rparr>\<rparr>)) (kern s)"
    by (intro step_good_answer [OF st]) (auto intro: guar_same)
  with r show ?thesis by (auto simp: open_step_def aesd_open_def)
qed

lemma release_step_good:
  assumes st: "at_step env SysRelease t (kern s)" and r: "release_step t s = Some r"
  shows "\<exists>t' s'. r = Inr (t', s') \<and> step_good env t (kern s) t' (kern s')"
proof -
  have "d_place t = Entry" using at_step_ok [OF st] by simp
  then have "step_good env t (kern s) (reply 0 [] (t\<lparr>d_file := (d_file t)\<lparr>private_data := Some TheDevice\<rparr>\<rparr>))
      ((kern s)\<lparr>lseekPos := 0\<rparr>)"
    by (intro step_good_answer [OF st]) (auto intro: guar_same)
  with r show ?thesis by (auto simp: release_step_def aesd_release_def)
qed

lemma call_step_good:
  assumes "at_step env c t (kern s)" "call_step env i c t s = Some r"
  shows "\<exists>t' s'. r = Inr (t', s') \<and> step_good env t (kern s) t' (kern s')"
  using assms read_step_good llseek_step_good ioctl_step_good write_step_good open_step_good release_step_good
  by (cases c) (simp; blast)+

section \<open>All the tasks\<close>

lemma at_ok_rely:
  assumes "at_ok env k c p"
    and "stage_size (stage k') = stage_size (stage k) \<or> stage_size (stage k') = KMALLOC_MAX_SIZE env"
    and "holds_entry p \<Longrightarrow> buffPtr (stage k') = buffPtr (stage k) \<and> endIdx (stage k') = endIdx (stage k) \<and>
      kheap k' = kheap k"
    and "holds_buff p \<Longrightarrow> buff k' = buff k"
  shows "at_ok env k' c p"
  using assms
  by (cases c; cases p) (auto simp: at_ok_defs room_def staged_line_def)

lemma task_ok_rely:
  assumes "task_ok env k u" "guar env p p' k k'"
    and "holds_entry p \<Longrightarrow> \<not> holds_entry (d_place u)" "holds_buff p \<Longrightarrow> \<not> holds_buff (d_place u)"
  shows "task_ok env k' u"
proof (cases "d_todo u")
  case Nil
  with assms(1) show ?thesis by (simp add: task_ok_def)
next
  case (Cons c cs)
  then have "at_ok env k c (d_place u)" using assms(1) by (simp add: task_ok_def)
  then have "at_ok env k' c (d_place u)"
    using assms(2-4) by (intro at_ok_rely [of env k c "d_place u" k']) (auto simp: guar_def)
  with Cons assms(1) show ?thesis by (simp add: task_ok_def)
qed

lemma holders_pos: "i < length ts \<Longrightarrow> P (d_place (ts ! i)) \<Longrightarrow> 0 < holders P ts"
  using nth_mem [of i ts] by (auto simp: holders_def filter_empty_conv)

lemma of_bool_eq_pos: "(n :: nat) = of_bool b \<Longrightarrow> 0 < n \<Longrightarrow> b"
  by (cases b) simp_all

lemma lock_moves_holders:
  assumes "n = of_bool m" "lock_moves h h' m m'" "(n' :: nat) + of_bool h = n + of_bool h'"
  shows "n' = of_bool m'"
  using assms by (cases h; cases h'; cases m; cases m') (simp_all add: lock_moves_def)

text \<open>At most one task is at work in the device, so that nobody else is in the middle of a flush.\<close>

lemma tasks_unique:
  assumes "tasks_inv env ts s" "i < length ts" "j < length ts" "j \<noteq> i"
  shows "holds_buff (d_place (ts ! i)) \<Longrightarrow> \<not> holds_buff (d_place (ts ! j))"
    and "holds_entry (d_place (ts ! i)) \<Longrightarrow> \<not> holds_entry (d_place (ts ! j))"
  using assms holders_unique [of i ts holds_buff j] holders_unique [of i ts holds_entry j]
  by (auto simp: tasks_inv_def)

lemma tasks_at_step:
  assumes inv: "tasks_inv env ts s" and env: "env_ok env" and i: "i < length ts" "d_todo (ts ! i) = c # cs"
  shows "at_step env c (ts ! i) (kern s)"
proof -
  let ?p = "d_place (ts ! i)"
  have "dev_inv env (settle ?p (kern s))" if h: "holds_buff ?p \<or> holds_entry ?p"
  proof -
    have other: "\<not> flushing (d_place (ts ! j))" if "j < length ts" "j \<noteq> i" for j
      using tasks_unique [OF inv i(1) that] flushing_holds h by blast
    show ?thesis using inv settled_at [OF i(1) other] by (simp add: tasks_inv_def)
  qed
  moreover have "holds_buff ?p \<Longrightarrow> buffMutex (kern s)" "holds_entry ?p \<Longrightarrow> entryMutex (kern s)"
    using inv holders_pos [OF i(1)] by (auto simp: tasks_inv_def intro: of_bool_eq_pos)
  ultimately show ?thesis
    using inv env i by (auto simp: at_step_def tasks_inv_def)
qed

lemma tasks_inv_step:
  assumes inv: "tasks_inv env ts s" and env: "env_ok env" and i: "i < length ts"
    and r: "driver_step env i (ts ! i) s = Some r"
  shows "\<exists>t' s'. r = Inr (t', s') \<and> tasks_inv env (ts[i := t']) s' \<and> task_weight t' < task_weight (ts ! i)"
proof -
  let ?t = "ts ! i" and ?k = "kern s"
  obtain c cs where c: "d_todo ?t = c # cs" "call_step env i c ?t s = Some r"
    using r by (auto simp: driver_step_def split: list.splits)
  obtain t' s' where st: "r = Inr (t', s')" "step_good env ?t ?k t' (kern s')"
    using call_step_good [OF tasks_at_step [OF inv env i c(1)] c(2)] by blast
  have g: "guar env (d_place ?t) (d_place t') ?k (kern s')" and ok: "task_ok env (kern s') t'"
    using st(2) by (simp_all add: step_good_def)
  have held: "holders holds_buff ts = of_bool (buffMutex ?k)" "holders holds_entry ts = of_bool (entryMutex ?k)"
    using inv by (simp_all add: tasks_inv_def)
  have moves: "lock_moves (holds_buff (d_place ?t)) (holds_buff (d_place t')) (buffMutex ?k) (buffMutex (kern s'))"
    "lock_moves (holds_entry (d_place ?t)) (holds_entry (d_place t')) (entryMutex ?k) (entryMutex (kern s'))"
    using g by (simp_all add: guar_def)
  have others: "task_ok env (kern s') (ts ! j)" if "j < length ts" "j \<noteq> i" for j
    using inv that task_ok_rely [OF _ g, of "ts ! j"] tasks_unique [OF inv i that]
    by (simp add: tasks_inv_def)
  have "\<forall>u \<in> set (ts[i := t']). task_ok env (kern s') u"
    unfolding all_set_conv_all_nth using others ok i by (simp add: nth_list_update)
  moreover have "holders holds_buff (ts[i := t']) = of_bool (buffMutex (kern s'))"
    by (rule lock_moves_holders [OF held(1) moves(1) holders_update [OF i]])
  moreover have "holders holds_entry (ts[i := t']) = of_bool (entryMutex (kern s'))"
    by (rule lock_moves_holders [OF held(2) moves(2) holders_update [OF i]])
  moreover have "dev_inv env (settled (ts[i := t']) (kern s'))"
  proof (cases "holds_buff (d_place ?t) \<or> holds_entry (d_place ?t)")
    case True
    have other: "\<not> flushing (d_place (ts[i := t'] ! j))" if "j < length (ts[i := t'])" "j \<noteq> i" for j
      using tasks_unique [OF inv i _ that(2)] that True flushing_holds by fastforce
    have "settled (ts[i := t']) (kern s') = settle (d_place (ts[i := t'] ! i)) (kern s')"
      using i other by (intro settled_at) simp_all
    with st(2) True i show ?thesis by (simp add: step_good_def)
  next
    case out: False
    then have same: "buff (kern s') = buff ?k" "kheap (kern s') = kheap ?k" "next_block (kern s') = next_block ?k"
      "buffPtr (stage (kern s')) = buffPtr (stage ?k)" "endIdx (stage (kern s')) = endIdx (stage ?k)"
      and nf: "\<not> flushing (d_place t')"
      using g by (auto simp: guar_def)
    have i': "\<not> flushing (d_place ?t)" using out flushing_holds by blast
    show ?thesis
    proof (cases "\<exists>m < length ts. flushing (d_place (ts ! m))")
      case True
      then obtain m where m: "m < length ts" "flushing (d_place (ts ! m))" "m \<noteq> i" using i' by blast
      have other: "\<not> flushing (d_place (ts ! j))" if "j < length ts" "j \<noteq> m" for j
        using tasks_unique(1) [OF inv m(1) that] m(2) flushing_holds by blast
      then have "\<not> flushing (d_place (ts[i := t'] ! j))" if "j < length (ts[i := t'])" "j \<noteq> m" for j
        using nf that by (cases "j = i") simp_all
      then have "settled (ts[i := t']) (kern s') = settle (d_place (ts[i := t'] ! m)) (kern s')"
        using m(1) by (intro settled_at) simp_all
      then have "settled (ts[i := t']) (kern s') = settle (d_place (ts ! m)) (kern s')" using m(3) by simp
      moreover have "settled ts ?k = settle (d_place (ts ! m)) ?k" by (rule settled_at [OF m(1) other])
      ultimately show ?thesis
        using inv dev_inv_settle_cong [OF same] by (simp add: tasks_inv_def)
    next
      case False
      then have "settled ts ?k = ?k" "settled (ts[i := t']) (kern s') = kern s'"
        using nf i by (auto intro!: settled_none simp: in_set_conv_nth nth_list_update split: if_splits)
      then show ?thesis
        using inv dev_inv_cong [OF same] by (simp add: tasks_inv_def)
    qed
  qed
  ultimately show ?thesis using st by (simp add: tasks_inv_def step_good_def)
qed

section \<open>Nobody waits for ever\<close>

text \<open>A task waits only at a mutex that another one holds.\<close>

lemma lock_waits [simp]:
  "lock_step m p t s = None \<longleftrightarrow> m = None"
  "take_buff env k = None \<longleftrightarrow> \<not> lock_interrupted env (clock k) \<and> buffMutex k"
  "take_entry env k = None \<longleftrightarrow> \<not> lock_interrupted env (clock k) \<and> entryMutex k"
  "unlock_step q bs t s \<noteq> None"
  by (simp_all add: lock_step_def take_buff_def take_entry_def unlock_step_def)

lemma waiting:
  assumes "task_ok env (kern s) t" "d_todo t = c # cs" "driver_step env i t s = None"
  shows "(d_place t = WriteLock \<and> entryMutex (kern s)) \<or>
    (buffMutex (kern s) \<and> \<not> holds_buff (d_place t))"
proof -
  let ?k = "kern s"
  have ok: "at_ok env ?k c (d_place t)" and st: "call_step env i c t s = None"
    using assms by (simp_all add: task_ok_def driver_step_def)
  have pd: "private_data (d_file t) \<noteq> None" using assms(1) by (simp add: task_ok_def)
  show ?thesis
  proof (cases c)
    case (SysWrite buf count)
    with ok st pd show ?thesis
      by (cases "d_place t") (auto simp: write_step_def flush_step_def write_at_ok_def Let_def staged_line_def split: if_splits)
  next
    case (SysRead n)
    with ok st pd show ?thesis
      by (cases "d_place t") (auto simp: read_step_def read_at_ok_def Let_def split: if_splits option.splits)
  next
    case (SysLlseek off w)
    with ok st pd show ?thesis
      by (cases "d_place t") (auto simp: llseek_step_def seek_at_ok_def Let_def split: if_splits)
  next
    case (SysIoctl cmd arg)
    with ok st pd show ?thesis
      by (cases "d_place t") (simp_all add: ioctl_step_def ioctl_at_ok_def Let_def split: if_splits option.splits)
  qed (use st in \<open>simp_all add: open_step_def release_step_def\<close>)
qed

lemma holder_exists: "holders P ts = of_bool True \<Longrightarrow> \<exists>i < length ts. P (d_place (ts ! i))"
proof -
  assume "holders P ts = of_bool True"
  then have "filter (\<lambda>t. P (d_place t)) ts \<noteq> []" by (auto simp: holders_def)
  then obtain t where "t \<in> set ts" "P (d_place t)" by (auto simp: filter_empty_conv)
  then show ?thesis by (metis in_set_conv_nth)
qed

lemma busy_todo: "task_ok env k t \<Longrightarrow> d_place t \<noteq> Entry \<Longrightarrow> \<exists>c cs. d_todo t = c # cs"
  by (cases "d_todo t") (auto simp: task_ok_def)

text \<open>
  The order of the mutexes: the holder of \<open>buffMutex\<close> never waits, the holder of
  \<open>entryMutex\<close> waits only for \<open>buffMutex\<close>.
\<close>

lemma tasks_progress:
  assumes inv: "tasks_inv env ts s" and t: "t \<in> set ts" "d_todo t \<noteq> []"
  shows "\<exists>i < length ts. driver_step env i (ts ! i) s \<noteq> None"
proof -
  have ok: "task_ok env (kern s) (ts ! i)" if "i < length ts" for i
    using inv that by (simp add: tasks_inv_def)
  have held: "holders holds_buff ts = of_bool (buffMutex (kern s))"
    "holders holds_entry ts = of_bool (entryMutex (kern s))"
    using inv by (simp_all add: tasks_inv_def)
  show ?thesis
  proof (cases "buffMutex (kern s)")
    case True
    then obtain i where i: "i < length ts" "holds_buff (d_place (ts ! i))"
      using holder_exists [of holds_buff ts] held(1) by auto
    then have "d_place (ts ! i) \<noteq> Entry \<and> d_place (ts ! i) \<noteq> WriteLock" by auto
    with i busy_todo [OF ok [OF i(1)]] waiting [OF ok [OF i(1)]] show ?thesis by blast
  next
    case nob: False
    show ?thesis
    proof (cases "entryMutex (kern s)")
      case True
      then obtain i where i: "i < length ts" "holds_entry (d_place (ts ! i))"
        using holder_exists [of holds_entry ts] held(2) by auto
      then have "d_place (ts ! i) \<noteq> Entry \<and> d_place (ts ! i) \<noteq> WriteLock" by auto
      with i nob busy_todo [OF ok [OF i(1)]] waiting [OF ok [OF i(1)]] show ?thesis by blast
    next
      case False
      obtain i where i: "i < length ts" "ts ! i = t" using t(1) by (auto simp: in_set_conv_nth)
      then obtain c cs where "d_todo (ts ! i) = c # cs" using t(2) by (cases "d_todo t") auto
      with i False nob waiting [OF ok [OF i(1)]] show ?thesis by blast
    qed
  qed
qed

definition all_answered :: "dtask \<Rightarrow> bool" where
  "all_answered t \<longleftrightarrow> d_todo t = []"

text \<open>The tasks of the driver meet the interface, for every kernel that keeps its word.\<close>

definition safe_tasks :: "kernel_env \<Rightarrow> dtask list \<Rightarrow> shared \<Rightarrow> bool" where
  "safe_tasks env ts s \<longleftrightarrow> env_ok env \<and> tasks_inv env ts s"

interpretation tasks: interleaved_tasks "driver_step env" "safe_tasks env" task_weight all_answered for env
proof unfold_locales
  show "\<exists>t' s'. r = Inr (t', s') \<and> safe_tasks env (ts[i := t']) s' \<and> task_weight t' < task_weight (ts ! i)"
    if "safe_tasks env ts s" "i < length ts" "driver_step env i (ts ! i) s = Some r" for ts s i r
    using tasks_inv_step [OF _ _ that(2,3)] that(1) unfolding safe_tasks_def by blast
  show "\<exists>i < length ts. driver_step env i (ts ! i) s \<noteq> None"
    if "safe_tasks env ts s" "t \<in> set ts" "\<not> all_answered t" for ts s t
    using that tasks_progress unfolding safe_tasks_def all_answered_def by blast
  show "driver_step env i t s = None" if "all_answered t" for t i s
    using that by (simp add: all_answered_def driver_step_def)
qed

end
