(* ===== verification/Driver_Calls.thy ===== *)
theory Driver_Calls
  imports Driver_Safety
begin

text \<open>
  What is promised to the tasks in the driver: no schedule meets a fault or breaks a
  mutex, every fair schedule answers every call, and a call that runs alone does what the
  function of \<open>Char_Device\<close> with its name does.
\<close>

section \<open>Safety\<close>

text \<open>The start: a sound device, the mutexes free, every task before its first call on an open file.\<close>

definition tasks_start :: "kernel_env \<Rightarrow> dtask list \<Rightarrow> shared \<Rightarrow> bool" where
  "tasks_start env ts s \<longleftrightarrow> env_ok env \<and> dev_inv env (kern s) \<and> idle (kern s) \<and>
     (\<forall>t \<in> set ts. d_place t = Entry \<and> private_data (d_file t) \<noteq> None \<and> (\<forall>c \<in> set (d_todo t). call_ok c))"

lemma at_ok_Entry: "at_ok env k c Entry"
  by (cases c) simp_all

lemma start_safe: "tasks_start env ts s \<Longrightarrow> safe_tasks env ts s"
  by (auto simp: tasks_start_def safe_tasks_def tasks_inv_def task_ok_def holders_def idle_def filter_empty_conv
      at_ok_Entry settled_none split: list.split)

text \<open>What a safe state guarantees.\<close>

lemma safe_state:
  assumes "safe_tasks env ts s"
  shows "holders holds_buff ts = of_bool (buffMutex (kern s))"
    "holders holds_entry ts = of_bool (entryMutex (kern s))"
    "(\<forall>t \<in> set ts. \<not> flushing (d_place t)) \<Longrightarrow> dev_inv env (kern s)"
  using assms settled_none [of ts "kern s"] by (auto simp: safe_tasks_def tasks_inv_def)

text \<open>
  C6. Any number of tasks run any system calls on the device at the same time, under any
  schedule, and the kernel may deliver signals at every mutex, fail any allocation and copy
  only a part. No step ever faults: no NULL or freed block is accessed, no block is freed
  twice, nothing is read or stored outside a block. In every state that is reached each
  mutex is held by exactly one task if it is locked and by none if it is free, and unless a
  task is in the middle of a flush the device is sound: its entries and the staging buffer
  are distinct live blocks, and no other block is allocated.
\<close>

theorem driver_tasks_never_fault:
  assumes "tasks_start env ts s"
  shows "\<exists>ts' s'. run_schedule (driver_step env) sched ts s = Inr (ts', s') \<and>
    holders holds_buff ts' = of_bool (buffMutex (kern s')) \<and>
    holders holds_entry ts' = of_bool (entryMutex (kern s')) \<and>
    ((\<forall>t \<in> set ts'. \<not> flushing (d_place t)) \<longrightarrow> dev_inv env (kern s'))"
  using tasks.run_ok [OF start_safe [OF assms], of sched] safe_state by blast

text \<open>A writer of two lines, a reader and a task that seeks and closes, on the new device.\<close>

definition demo_task :: "syscall list \<Rightarrow> dtask" where
  "demo_task cs = \<lparr>d_file = demo_file, d_todo = cs, d_place = Entry, d_answers = []\<rparr>"

definition demo_tasks :: "dtask list" where
  "demo_tasks = [demo_task [SysWrite demo_input 7], demo_task [SysRead 10, SysRead 10],
     demo_task [SysIoctl AESDCHAR_IOCSEEKTO 4096, SysLlseek 1 SEEK_CUR, SysRelease]]"

definition demo_shared :: shared where
  "demo_shared = \<lparr>kern = start_state, history = []\<rparr>"

lemma demo_tasks_start: "env_ok env \<Longrightarrow> tasks_start env demo_tasks demo_shared"
  by (simp add: tasks_start_def demo_tasks_def demo_task_def demo_shared_def demo_file_def start_state_inv
      start_state_facts)

theorem driver_tasks_never_fault_witness:
  "\<exists>ts' s'. run_schedule (driver_step failing_env) [0, 1, 0, 0, 2, 1, 0] demo_tasks demo_shared = Inr (ts', s') \<and>
     holders holds_entry ts' = of_bool (entryMutex (kern s'))"
  using driver_tasks_never_fault [OF demo_tasks_start [OF failing_env_ok], of "[0, 1, 0, 0, 2, 1, 0]"] by blast

section \<open>Termination\<close>

text \<open>A call is over when it is answered, so that a task has as many answers as it has made calls.\<close>

lemma reply_counts:
  "d_todo t \<noteq> [] \<Longrightarrow> length (d_answers (reply r bs t)) + length (d_todo (reply r bs t))
     = length (d_answers t) + length (d_todo t)"
  by (cases "d_todo t") (simp_all add: reply_def)

lemma step_counts:
  assumes "driver_step env i t s = Some (Inr (t', s'))"
  shows "length (d_answers t') + length (d_todo t') = length (d_answers t) + length (d_todo t)"
proof -
  obtain c cs where c: "d_todo t = c # cs" "call_step env i c t s = Some (Inr (t', s'))"
    using assms by (auto simp: driver_step_def split: list.splits)
  note ans = reply_counts [of t]
  show ?thesis
  proof (cases c)
    case (SysWrite buf count)
    with c show ?thesis
      by (cases "d_place t") (auto simp: write_step_def flush_step_def lock_step_def reply_def Let_def
          bindR_Inr_iff split: if_splits)
  next
    case (SysRead n)
    with c show ?thesis
      by (cases "d_place t") (auto simp: read_step_def lock_step_def unlock_step_def reply_def Let_def
          bindR_Inr_iff split: if_splits option.splits)
  next
    case (SysLlseek off w)
    with c show ?thesis
      by (cases "d_place t") (auto simp: llseek_step_def lock_step_def unlock_step_def reply_def Let_def
          split: if_splits)
  next
    case (SysIoctl cmd arg)
    with c show ?thesis
      by (cases "d_place t") (auto simp: ioctl_step_def lock_step_def unlock_step_def reply_def Let_def
          split: if_splits option.splits)
  qed (use c in \<open>auto simp: open_step_def release_step_def aesd_open_def aesd_release_def reply_def\<close>)
qed

text \<open>Task by task: as many calls answered and open as in \<open>ts0\<close>.\<close>

definition call_counts :: "dtask list \<Rightarrow> nat list" where
  "call_counts ts = map (\<lambda>t. length (d_answers t) + length (d_todo t)) ts"

lemma run_counts:
  assumes "run_schedule (driver_step env) sched ts s = Inr (ts', s')"
  shows "call_counts ts' = call_counts ts"
proof -
  have "call_counts (us[i := t']) = call_counts us" if "i < length us"
    "driver_step env i (us ! i) r = Some (Inr (t', r'))" for us i t' r r'
    using step_counts [OF that(2)] that(1)
    by (metis (no_types, lifting) call_counts_def length_map list_update_id map_update nth_map)
  then show ?thesis
    using run_schedule_keeps [of "\<lambda>us r. call_counts us = call_counts ts" "driver_step env"] assms
    by metis
qed

text \<open>The steps that the calls of a task take at most.\<close>

fun call_cost :: "syscall \<Rightarrow> nat" where
  "call_cost (SysWrite buf count) = 11 * length buf + 6"
| "call_cost c = 6"

definition todo_cost :: "dtask \<Rightarrow> nat" where
  "todo_cost t = sum_list (map call_cost (d_todo t))"

lemma start_weight:
  assumes "tasks_start env ts s" "t \<in> set ts"
  shows "task_weight t = todo_cost t"
proof -
  have ok: "d_place t = Entry" "\<forall>c \<in> set (d_todo t). call_ok c" using assms by (auto simp: tasks_start_def)
  have cost: "place_weight c Entry = call_cost c" if "call_ok c" for c
    using that by (cases c) (simp_all add: place_weight_def)
  then have eq: "map (\<lambda>c. place_weight c Entry) (d_todo t) = map call_cost (d_todo t)" using ok(2) by simp
  have "task_weight t = sum_list (map (\<lambda>c. place_weight c Entry) (d_todo t))"
    using ok(1) by (cases "d_todo t") (simp_all add: task_weight_def)
  then show ?thesis by (simp only: eq todo_cost_def)
qed

lemma driver_calls_end:
  assumes "tasks_start env ts s" and "fair_rounds (length ts) rounds"
    and "sum_list (map todo_cost ts) \<le> length rounds"
  shows "\<exists>ts' s'. run_schedule (driver_step env) (concat rounds) ts s = Inr (ts', s') \<and>
    (\<forall>t \<in> set ts'. d_todo t = []) \<and>
    map (length \<circ> d_answers) ts' = map (\<lambda>t. length (d_answers t) + length (d_todo t)) ts \<and>
    idle (kern s') \<and> dev_inv env (kern s')"
proof -
  have "map task_weight ts = map todo_cost ts"
    using start_weight [OF assms(1)] by simp
  then obtain ts' s' where run: "run_schedule (driver_step env) (concat rounds) ts s = Inr (ts', s')"
    "safe_tasks env ts' s'" "\<forall>t \<in> set ts'. all_answered t"
    using tasks.fair_finishes [OF start_safe [OF assms(1)] assms(2)] assms(3) by metis
  have over: "\<forall>t \<in> set ts'. d_todo t = [] \<and> d_place t = Entry"
    using run(2,3) by (auto simp: all_answered_def safe_tasks_def tasks_inv_def task_ok_def)
  then have "holders holds_buff ts' = 0" "holders holds_entry ts' = 0" "\<forall>t \<in> set ts'. \<not> flushing (d_place t)"
    by (auto simp: holders_def filter_empty_conv)
  then have "idle (kern s') \<and> dev_inv env (kern s')"
    using safe_state [OF run(2)] by (simp add: idle_def)
  moreover have "call_counts ts' = map (length \<circ> d_answers) ts'"
    using over by (simp add: call_counts_def)
  then have "map (length \<circ> d_answers) ts' = map (\<lambda>t. length (d_answers t) + length (d_todo t)) ts"
    using run_counts [OF run(1)] by (simp add: call_counts_def [of ts])
  ultimately show ?thesis using run(1) over by blast
qed

text \<open>
  C7. Nobody waits for ever: the two mutexes are always taken in the same order, the loops
  end, and every mutex is given back. Under every schedule that goes round all the tasks,
  in any order, as often as there are steps in their calls (at most 11 for each byte of a
  write and 6 for a call), every call of every task returns; the mutexes are free at the end
  and the device is sound. Each task has one answer for each of its calls.
\<close>

theorem driver_calls_all_return:
  assumes "tasks_start env ts s" and "fair_rounds (length ts) rounds"
    and "sum_list (map todo_cost ts) \<le> length rounds"
  shows "\<exists>ts' s'. run_schedule (driver_step env) (concat rounds) ts s = Inr (ts', s') \<and>
    (\<forall>t \<in> set ts'. d_todo t = []) \<and>
    map (length \<circ> d_answers) ts' = map (\<lambda>t. length (d_answers t) + length (d_todo t)) ts \<and>
    idle (kern s') \<and> dev_inv env (kern s')"
  by (rule driver_calls_end [OF assms])

theorem driver_calls_all_return_witness:
  "\<exists>ts' s'. run_schedule (driver_step failing_env) (concat (replicate 120 [0..<3])) demo_tasks demo_shared
       = Inr (ts', s') \<and> map (length \<circ> d_answers) ts' = [1, 2, 3] \<and> idle (kern s')"
proof -
  have n: "length demo_tasks = 3" "sum_list (map todo_cost demo_tasks) \<le> length (replicate 120 [0..<(3::nat)])"
    by (simp_all add: demo_tasks_def demo_task_def todo_cost_def)
  have fair: "fair_rounds (length demo_tasks) (replicate 120 [0..<3])"
    unfolding n(1) by (rule fair_rounds_robin)
  have counts: "map (\<lambda>t. length (d_answers t) + length (d_todo t)) demo_tasks = [1, 2, 3]"
    by (simp add: demo_tasks_def demo_task_def)
  show ?thesis
    using driver_calls_all_return [OF demo_tasks_start [OF failing_env_ok] fair n(2)] unfolding counts by metis
qed

end
