(* ===== verification/Driver_Order.thy ===== *)
theory Driver_Order
  imports Driver_Calls
begin

text \<open>
  What the tasks in the driver write and read. Concurrent writes have the effect of writes
  made one after the other, in the order in which they took \<open>entryMutex\<close>; the lines become
  entries one by one, and a read delivers from the lines that were there at its moment.
  The histories of the steps are related to the state by an invariant (\<open>journal\<close>), which
  says what holds at each place of the task that is writing.
\<close>

section \<open>Reading the history\<close>

fun accepted :: "event list \<Rightarrow> (nat \<times> byte list) list" where
  "accepted [] = []"
| "accepted (Accepted i buf # h) = (i, buf) # accepted h"
| "accepted (Published l # h) = accepted h"
| "accepted (Delivered i pos n bs # h) = accepted h"

fun published :: "event list \<Rightarrow> byte list list" where
  "published [] = []"
| "published (Accepted i buf # h) = published h"
| "published (Published l # h) = l # published h"
| "published (Delivered i pos n bs # h) = published h"

lemma accepted_append [simp]: "accepted (h @ h') = accepted h @ accepted h'"
  by (induction h rule: accepted.induct) simp_all

lemma published_append [simp]: "published (h @ h') = published h @ published h'"
  by (induction h rule: published.induct) simp_all

definition accepted_bytes :: "event list \<Rightarrow> byte list" where
  "accepted_bytes h = concat (map snd (accepted h))"

text \<open>
  A read of \<open>n\<close> bytes at a position, with the lines \<open>ls\<close> stored: consecutive bytes from the
  position on; if the kernel copies everything, none only at the end or for a zero count.
\<close>

definition read_fits :: "kernel_env \<Rightarrow> byte list list \<Rightarrow> size_t \<Rightarrow> size_t \<Rightarrow> byte list \<Rightarrow> bool" where
  "read_fits env ls pos n bs \<longleftrightarrow>
     bs = take (length bs) (drop (unat pos) (concat ls)) \<and> length bs \<le> unat n \<and>
     ((\<forall>m k. not_copied env m k = 0) \<and> bs = [] \<longrightarrow> n = 0 \<or> length (concat ls) \<le> unat pos)"

text \<open>Every read of the history fits the lines stored at its moment, from the lines \<open>ls\<close> on.\<close>

fun reads_fit :: "kernel_env \<Rightarrow> byte list list \<Rightarrow> event list \<Rightarrow> bool" where
  "reads_fit env ls [] = True"
| "reads_fit env ls (Accepted i buf # h) = reads_fit env ls h"
| "reads_fit env ls (Published l # h) = reads_fit env (keep_last 10 (ls @ [l])) h"
| "reads_fit env ls (Delivered i pos n bs # h) = (read_fits env ls pos n bs \<and> reads_fit env ls h)"

definition content :: "byte list list \<Rightarrow> event list \<Rightarrow> byte list list" where
  "content ls h = keep_last 10 (ls @ published h)"

lemma content_small: "length ls \<le> 10 \<Longrightarrow> content ls [] = ls"
  by (simp add: content_def keep_last_small)

lemma content_cons [simp]:
  "content ls (Published l # h) = content (keep_last 10 (ls @ [l])) h"
  "content ls (Accepted i buf # h) = content ls h"
  "content ls (Delivered i pos n bs # h) = content ls h"
  by (simp_all add: content_def keep_last_append)

lemma reads_fit_snoc:
  "length ls \<le> 10 \<Longrightarrow> reads_fit env ls (h @ [e]) \<longleftrightarrow> reads_fit env ls h \<and>
     (case e of Delivered i pos n bs \<Rightarrow> read_fits env (content ls h) pos n bs | _ \<Rightarrow> True)"
proof (induction env ls h rule: reads_fit.induct)
  case (1 env ls)
  then show ?case by (cases e) (simp_all add: content_small)
qed (cases e; simp)+

section \<open>What is true while a write is on its way\<close>

definition proper :: "byte list \<Rightarrow> bool" where
  "proper l \<longleftrightarrow> (\<exists>x. l = x @ [NL] \<and> NL \<notin> set x)"

text \<open>The part of the accepted input that is not yet stored.\<close>

definition rest_at :: "byte list \<Rightarrow> dplace \<Rightarrow> byte list" where
  "rest_at buf p = (case p of
     Scan j b \<Rightarrow> drop b buf | Store n b \<Rightarrow> drop b buf
   | FlushLock b \<Rightarrow> drop b buf | FlushAdd b \<Rightarrow> drop b buf | FlushFree b q \<Rightarrow> drop b buf
   | FlushReset b \<Rightarrow> drop b buf | FlushUnlock b \<Rightarrow> drop b buf
   | Tail b \<Rightarrow> drop b buf | _ \<Rightarrow> [])"

text \<open>Without failing allocations every byte is stored, in order; \<open>p0\<close> is the unfinished line at the start.\<close>

definition bytes_at :: "byte list \<Rightarrow> event list \<Rightarrow> kstate \<Rightarrow> byte list \<Rightarrow> dplace \<Rightarrow> bool" where
  "bytes_at p0 h k buf p \<longleftrightarrow>
     p0 @ accepted_bytes h = concat (published h) @ dev_partial (settle p k) @ rest_at buf p"

text \<open>Without signals either, an entry is one line.\<close>

definition proper_at :: "event list \<Rightarrow> kstate \<Rightarrow> byte list \<Rightarrow> dplace \<Rightarrow> bool" where
  "proper_at h k buf p \<longleftrightarrow> (\<forall>l \<in> set (published h). proper l) \<and>
     (case p of
        Scan j b \<Rightarrow> NL \<notin> set (dev_partial k @ take j (drop b buf))
      | Store n b \<Rightarrow> proper (dev_partial k @ take n (drop b buf))
      | FlushLock b \<Rightarrow> proper (dev_partial k)
      | FlushAdd b \<Rightarrow> proper (dev_partial k)
      | FlushFree b q \<Rightarrow> True
      | FlushReset b \<Rightarrow> True
      | Tail b \<Rightarrow> NL \<notin> set (dev_partial k @ drop b buf)
      | _ \<Rightarrow> NL \<notin> set (dev_partial k))"

definition journal ::
    "kernel_env \<Rightarrow> byte list list \<Rightarrow> byte list \<Rightarrow> event list \<Rightarrow> kstate \<Rightarrow> byte list \<Rightarrow> dplace \<Rightarrow> bool" where
  "journal env ls p0 h k buf p \<longleftrightarrow>
     dev_lines (settle p k) = content ls h \<and>
     ((\<forall>n. \<not> kmalloc_fails env n) \<longrightarrow> bytes_at p0 h k buf p) \<and>
     (quiet env \<longrightarrow> proper_at h k buf p)"

lemmas journal_defs = journal_def bytes_at_def proper_at_def rest_at_def

text \<open>The input of the call a task is in.\<close>

definition input_of :: "dtask \<Rightarrow> byte list" where
  "input_of t = (case d_todo t of SysWrite buf count # _ \<Rightarrow> buf | _ \<Rightarrow> [])"

definition order_inv ::
    "kernel_env \<Rightarrow> byte list list \<Rightarrow> byte list \<Rightarrow> dtask list \<Rightarrow> shared \<Rightarrow> bool" where
  "order_inv env ls p0 ts s \<longleftrightarrow> length ls \<le> 10 \<and> reads_fit env ls (history s) \<and>
     (case find (\<lambda>t. holds_entry (d_place t)) ts of
        None \<Rightarrow> journal env ls p0 (history s) (kern s) [] Entry
      | Some t \<Rightarrow> journal env ls p0 (history s) (kern s) (input_of t) (d_place t))"

section \<open>The steps of the writer\<close>

lemma journal_cong:
  assumes "journal env ls p0 h k buf p" "accepted h' = accepted h" "published h' = published h"
    and "kheap k' = kheap k" "buff k' = buff k" "buffPtr (stage k') = buffPtr (stage k)"
    and "endIdx (stage k') = endIdx (stage k)"
  shows "journal env ls p0 h' k' buf p"
proof -
  have "dev_partial k' = dev_partial k" using assms(4,6,7) by (simp add: dev_partial_def)
  moreover have "dev_partial (settle p k') = dev_partial (settle p k)"
    using assms(4,6,7) by (cases p) (simp_all add: dev_partial_def reset_stage_def)
  moreover have "dev_lines (settle p k') = dev_lines (settle p k)"
    using assms(4,5) by (cases p) (simp_all add: dev_lines_def reset_stage_def)
  moreover have "content ls h' = content ls h" "accepted_bytes h' = accepted_bytes h"
    using assms(2,3) by (simp_all add: content_def accepted_bytes_def)
  ultimately show ?thesis using assms(1,3) unfolding journal_defs by (simp cong: dplace.case_cong)
qed

lemma dev_partial_reset [simp]: "dev_partial (reset_stage k) = []"
  by (simp add: dev_partial_def reset_stage_def)

lemma proper_scan: "n < length xs \<Longrightarrow> xs ! n = NL \<Longrightarrow> NL \<notin> set (y @ take n xs) \<Longrightarrow> proper (y @ take (Suc n) xs)"
  by (auto simp: proper_def take_Suc_conv_app_nth)

lemma flush_journal:
  assumes st: "at_step env (SysWrite buf count) t (kern s)"
    and r: "flush_step env t s = Some (Inr (t', s'))"
    and j: "journal env ls p0 (history s) (kern s) buf (d_place t)"
  shows "journal env ls p0 (history s') (kern s') buf (d_place t') \<and> holds_entry (d_place t')"
proof -
  let ?k = "kern s"
  note ws = write_at_step [OF st]
  show ?thesis
  proof (cases "d_place t")
    case (FlushLock b)
    with r j show ?thesis
      by (auto simp: flush_step_def take_buff_def Let_def journal_defs quiet_def split: if_splits)
  next
    case (FlushAdd b)
    have ok: "staged_line ?k" "dev_inv env ?k" using ws(4,5) FlushAdd by (simp_all add: write_at_ok_def)
    obtain rb p where rb: "aesd_circular_buffer_add_entry (buff ?k)
        \<lparr>buffptr = buffPtr (stage ?k), esize = endIdx (stage ?k)\<rparr> = Inr (rb, p)"
      "dev_lines (settle (FlushFree b p) (?k\<lparr>buff := rb\<rparr>)) = keep_last 10 (dev_lines ?k @ [dev_partial ?k])"
      using flush_add [OF ok(2,1), of b] by blast
    have res: "t' = t\<lparr>d_place := FlushFree b p\<rparr>" "kern s' = ?k\<lparr>buff := rb\<rparr>"
      "history s' = history s @ [Published (dev_partial ?k)]"
      using r FlushAdd ok(1) rb(1) by (auto simp: flush_step_def Let_def staged_line_def)
    have "dev_lines (settle (FlushFree b p) (kern s')) = content ls (history s')"
      using rb(2) j FlushAdd res(2,3) by (simp add: journal_def content_def keep_last_append)
    then show ?thesis
      using j FlushAdd res by (simp add: journal_defs accepted_bytes_def)
  next
    case (FlushFree b p)
    with r j show ?thesis
      by (auto simp: flush_step_def Let_def journal_defs bindR_Inr_iff kfree_drop)
  next
    case (FlushReset b)
    with r j show ?thesis
      by (auto simp: flush_step_def Let_def journal_defs reset_stage_def [symmetric])
  next
    case (FlushUnlock b)
    with r j show ?thesis
      by (auto simp: flush_step_def Let_def journal_defs)
  qed (use r in \<open>simp_all add: flush_step_def Let_def\<close>)
qed

lemma write_journal:
  assumes st: "at_step env (SysWrite buf count) t (kern s)" and hold: "holds_entry (d_place t)"
    and r: "write_step env i buf count t s = Some (Inr (t', s'))"
    and j: "journal env ls p0 (history s) (kern s) buf (d_place t)"
  shows "journal env ls p0 (history s') (kern s') (if holds_entry (d_place t') then buf else []) (d_place t') \<and>
    (holds_entry (d_place t') \<or> d_place t' = Entry)"
proof -
  let ?k = "kern s"
  note ws = write_at_step [OF st]
  have flush: "write_step env i buf count t s = flush_step env t s \<Longrightarrow> ?thesis"
    using flush_journal [OF st _ j, of t' s'] r by auto
  show ?thesis
  proof (cases "d_place t")
    case WriteCheck
    with r j show ?thesis
      by (auto simp: write_step_def Let_def journal_defs accepted_bytes_def content_def split: if_splits)
  next
    case (Scan n b)
    have "b + n < unat count \<Longrightarrow> proper (dev_partial ?k @ take (Suc n) (drop b buf))"
      if "buf ! (b + n) = NL" "NL \<notin> set (dev_partial ?k @ take n (drop b buf))"
      using that ws(2) by (intro proper_scan) simp_all
    moreover have "b + n < unat count \<Longrightarrow> take (Suc n) (drop b buf) = take n (drop b buf) @ [buf ! (b + n)]"
      using ws(2) by (simp add: take_Suc_conv_app_nth)
    moreover have "\<not> b + n < unat count \<Longrightarrow> take n (drop b buf) = drop b buf"
      using ws(2) by simp
    moreover have "\<not> b < unat count \<Longrightarrow> drop b buf = []" using ws(2) by simp
    ultimately show ?thesis
      using r j Scan ws(2)
      by (auto simp: write_step_def Let_def journal_defs split: if_splits)
  next
    case (Store n b)
    have ok: "0 < n" "b + n \<le> unat count" "room env ?k count b" "stage_size (stage ?k) = KMALLOC_MAX_SIZE env"
      "dev_inv env ?k"
      using ws(4,5) Store by (simp_all add: write_at_ok_def)
    have n: "unat (of_nat n :: size_t) = n"
      using ok(2) unat_less_64 [of count] by (intro unat_of_nat_64) linarith
    obtain q k' where sp: "StorePartial env (drop b buf) (of_nat n) ?k = Inr (q, k')"
      "dev_lines k' = dev_lines ?k"
      "q \<noteq> 0 \<and> kmalloc_fails env (clock ?k) \<and> dev_partial k' = dev_partial ?k \<or>
       q = 0 \<and> dev_partial k' = dev_partial ?k @ take n (drop b buf)"
      using store_good [OF ok(5,4,3) n ok(1,2) ws(2)] by metis
    have res: "t' = t\<lparr>d_place := (if q \<noteq> 0 then UnlockEntry (- ENOMEM) else FlushLock (b + n))\<rparr>"
      "kern s' = k'" "history s' = history s"
      using r Store sp(1) by (auto simp: write_step_def Let_def)
    have "drop b buf = take n (drop b buf) @ drop (b + n) buf"
      by (metis add.commute append_take_drop_id drop_drop)
    then show ?thesis
      using j Store res sp(2,3) by (auto simp: journal_defs quiet_def)
  next
    case (Tail b)
    have ok: "b < unat count" "room env ?k count b" "stage_size (stage ?k) = KMALLOC_MAX_SIZE env" "dev_inv env ?k"
      using ws(4,5) Tail by (simp_all add: write_at_ok_def)
    have "unat (of_nat b :: size_t) = b"
      using ok(1) unat_less_64 [of count] by (intro unat_of_nat_64) linarith
    then have n: "unat (count - of_nat b) = unat count - b"
      using ok(1) by (simp add: unat_sub word_le_nat_alt)
    have le: "0 < unat count - b" "b + (unat count - b) \<le> unat count" using ok(1) by simp_all
    obtain q k' where sp: "StorePartial env (drop b buf) (count - of_nat b) ?k = Inr (q, k')"
      "dev_lines k' = dev_lines ?k"
      "kmalloc_fails env (clock ?k) \<and> dev_partial k' = dev_partial ?k \<or>
       dev_partial k' = dev_partial ?k @ take (unat count - b) (drop b buf)"
      using store_good [OF ok(4,3,2) n le ws(2)] by metis
    have "take (unat count - b) (drop b buf) = drop b buf" using ws(2) by simp
    with r j Tail sp show ?thesis
      by (auto simp: write_step_def Let_def journal_defs quiet_def)
  next
    case (UnlockEntry q)
    with r j show ?thesis
      by (auto simp: write_step_def Let_def journal_defs reply_def)
  qed (use flush hold r in \<open>simp_all add: write_step_def Let_def\<close>)
qed

text \<open>A step that does not end its call keeps it.\<close>

lemma write_keeps:
  assumes "write_step env i buf count t s = Some (Inr (t', s'))"
  shows "d_place t' \<noteq> Entry \<Longrightarrow> d_todo t' = d_todo t"
    and "\<not> holds_entry (d_place t) \<Longrightarrow> history s' = history s"
    and "history s' = history s \<or> (\<exists>e. history s' = history s @ [e] \<and> (\<forall>j pos n bs. e \<noteq> Delivered j pos n bs))"
  using assms
  by (cases "d_place t"; auto simp: write_step_def flush_step_def lock_step_def reply_def Let_def
      bindR_Inr_iff split: if_splits)+

lemma write_reads:
  assumes "length ls \<le> 10" "reads_fit env ls (history s)" "write_step env i buf count t s = Some (Inr (t', s'))"
  shows "reads_fit env ls (history s')"
  using assms(2) write_keeps(3) [OF assms(3)] reads_fit_snoc [OF assms(1), of env "history s"]
  by (auto split: event.splits)

section \<open>The steps of the readers\<close>

lemma kread_length: "kread h p off n = Inr bs \<Longrightarrow> length bs = n"
  by (auto simp: kread_def split: option.splits if_splits)

lemma read_fits_found:
  assumes inv: "dev_inv env k" "env_ok env" and loc: "located (buff k) slot off pos"
    and m: "m = (if esize (entry (buff k) ! slot) - off < n then esize (entry (buff k) ! slot) - off else n)"
    and r: "r = m - not_copied env c m"
    and bytes: "kread (kheap k) (buffptr (entry (buff k) ! slot)) (unat off) (unat m) = Inr bytes"
  shows "read_fits env (dev_lines k) pos n (take (unat r) bytes)"
proof -
  let ?e = "entry (buff k) ! slot"
  have off: "unat off < unat (esize ?e)" using loc by (auto simp: located_def)
  then have rest: "unat (esize ?e - off) = unat (esize ?e) - unat off"
    by (simp add: unat_sub word_le_nat_alt)
  have m': "unat m = min (unat n) (unat (esize ?e) - unat off)"
    by (auto simp: m rest word_less_nat_alt)
  then have le: "unat m \<le> unat (esize ?e) - unat off" by simp
  have b: "bytes = take (unat m) (drop (unat pos) (concat (dev_lines k)))"
    using located_copy [OF inv(1) loc le] bytes by simp
  let ?data = "drop (unat pos) (concat (dev_lines k))" and ?most = "unat (esize ?e) - unat off"
  have "length (take ?most ?data) = ?most"
    by (rule kread_length [OF located_copy [OF inv(1) loc order_refl]])
  then have "?most \<le> length ?data" by (metis length_take min.cobounded1)
  with le have len: "unat m \<le> length ?data" by (rule order_trans)
  have r': "unat r \<le> unat m" using inv(2) by (simp add: r env_ok_def unat_sub word_le_nat_alt)
  have "take (unat r) bytes = take (unat r) (drop (unat pos) (concat (dev_lines k)))"
    using r' by (simp add: b min_absorb1)
  moreover have "length (take (unat r) bytes) = unat r" using r' len by (simp add: b)
  moreover have "(\<forall>m k. not_copied env m k = 0) \<Longrightarrow> unat r = 0 \<Longrightarrow> n = 0"
    using m' off by (auto simp: r min_def unat_eq_zero split: if_splits)
  ultimately show ?thesis
    using r' m' by (auto simp: read_fits_def)
qed

lemma read_reads:
  assumes st: "at_step env (SysRead n) t (kern s)" and r: "read_step env i n t s = Some (Inr (t', s'))"
    and ls: "length ls \<le> 10" "reads_fit env ls (history s)"
    and cont: "holds_buff (d_place t) \<Longrightarrow> dev_lines (kern s) = content ls (history s)"
  shows "reads_fit env ls (history s') \<and> accepted (history s') = accepted (history s) \<and>
    published (history s') = published (history s)"
proof -
  let ?k = "kern s"
  have ok: "d_place t = Entry \<or> read_at_ok ?k (d_place t)" using at_step_ok [OF st] by simp
  have inv: "holds_buff (d_place t) \<Longrightarrow> \<not> flushing (d_place t) \<Longrightarrow> dev_inv env ?k" and eo: "env_ok env"
    using st by (auto simp: at_step_def)
  show ?thesis
  proof (cases "d_place t")
    case ReadFind
    then have inv: "dev_inv env ?k" and cont: "dev_lines ?k = content ls (history s)"
      using inv cont by simp_all
    let ?pos = "f_pos (d_file t) + lseekPos ?k"
    show ?thesis
    proof (cases "aesd_circular_buffer_find_entry_offset_for_fpos (buff ?k) ?pos")
      case None
      have "read_fits env (content ls (history s)) ?pos n []"
        using find_none [OF inv eo None] by (simp add: read_fits_def cont)
      with r ReadFind None ls show ?thesis by (auto simp: read_step_def Let_def reads_fit_snoc)
    next
      case (Some so)
      with r ReadFind ls show ?thesis by (cases so) (auto simp: read_step_def Let_def)
    qed
  next
    case (ReadCopy slot off pos)
    then have inv: "dev_inv env ?k" and cont: "dev_lines ?k = content ls (history s)"
      and loc: "located (buff ?k) slot off pos"
      using inv cont ok by (simp_all add: read_at_ok_def)
    define m where "m = (if esize (entry (buff ?k) ! slot) - off < n then esize (entry (buff ?k) ! slot) - off else n)"
    define q where "q = m - not_copied env (clock ?k) m"
    obtain bytes where rd: "kread (kheap ?k) (buffptr (entry (buff ?k) ! slot)) (unat off) (unat m) = Inr bytes"
      "history s' = history s @ [Delivered i pos n (take (unat q) bytes)]"
      using r ReadCopy unfolding m_def q_def by (auto simp: read_step_def Let_def bindR_Inr_iff)
    have "read_fits env (content ls (history s)) pos n (take (unat q) bytes)"
      using read_fits_found [OF inv eo loc m_def q_def rd(1)] by (simp add: cont)
    with rd(2) ls show ?thesis by (simp add: reads_fit_snoc)
  qed (use r ls in \<open>auto simp: read_step_def lock_step_def unlock_step_def Let_def split: if_splits\<close>)
qed

text \<open>A step of a task that does not hold \<open>entryMutex\<close>.\<close>

lemma other_journal:
  assumes st: "at_step env c t (kern s)" and r: "call_step env i c t s = Some (Inr (t', s'))"
    and out: "\<not> holds_entry (d_place t)"
    and ls: "length ls \<le> 10" "reads_fit env ls (history s)"
    and cont: "holds_buff (d_place t) \<Longrightarrow> dev_lines (kern s) = content ls (history s)"
  shows "reads_fit env ls (history s') \<and> accepted (history s') = accepted (history s) \<and>
    published (history s') = published (history s) \<and> (holds_entry (d_place t') \<longrightarrow> d_place t' = WriteCheck)"
proof (cases c)
  case (SysRead n)
  then have "reads_fit env ls (history s') \<and> accepted (history s') = accepted (history s) \<and>
      published (history s') = published (history s)"
    using st r by (intro read_reads [OF _ _ ls cont]) simp_all
  moreover have "\<not> holds_entry (d_place t')"
    using SysRead r by (cases "d_place t") (auto simp: read_step_def lock_step_def unlock_step_def reply_def
        Let_def bindR_Inr_iff split: option.splits if_splits)
  ultimately show ?thesis by blast
next
  case (SysWrite buf count)
  with r have w: "write_step env i buf count t s = Some (Inr (t', s'))" by simp
  have "d_place t = Entry \<or> d_place t = WriteLock"
    using at_step_ok [OF st] SysWrite out by (cases "d_place t") (auto simp: write_at_ok_def)
  then have "holds_entry (d_place t') \<longrightarrow> d_place t' = WriteCheck"
    using w by (auto simp: write_step_def lock_step_def reply_def Let_def split: if_splits)
  then show ?thesis using write_keeps(2) [OF w out] ls by simp
next
  case (SysLlseek off w)
  with r ls show ?thesis
    by (cases "d_place t") (auto simp: llseek_step_def lock_step_def unlock_step_def reply_def Let_def
        split: if_splits)
next
  case (SysIoctl cmd arg)
  with r ls show ?thesis
    by (cases "d_place t") (auto simp: ioctl_step_def lock_step_def unlock_step_def reply_def Let_def
        split: if_splits option.splits)
qed (use r ls in \<open>auto simp: open_step_def release_step_def aesd_open_def aesd_release_def reply_def\<close>)

section \<open>All the tasks\<close>

lemma find_update_other:
  "\<not> P (ts ! i) \<Longrightarrow> \<not> P t \<Longrightarrow> find P (ts[i := t]) = find P ts"
proof (induction ts arbitrary: i)
  case (Cons u ts)
  then show ?case by (cases i) auto
qed simp

lemma find_only:
  assumes "i < length ts" "P (ts ! i)" "\<And>j. j < length ts \<Longrightarrow> j \<noteq> i \<Longrightarrow> \<not> P (ts ! j)"
  shows "find P ts = Some (ts ! i)"
  unfolding find_Some_iff using assms by (metis less_trans nat_neq_iff)

lemma find_nobody: "(\<And>j. j < length ts \<Longrightarrow> \<not> P (ts ! j)) \<Longrightarrow> find P ts = None"
  by (auto simp: find_None_iff in_set_conv_nth)

lemma journal_rest: "journal env ls p0 h k buf WriteCheck = journal env ls p0 h k [] Entry"
  by (simp add: journal_defs)

text \<open>Who does not see an unfinished flush sees the lines of the history.\<close>

lemma order_content:
  assumes inv: "tasks_inv env ts s" and ord: "order_inv env ls p0 ts s"
    and i: "i < length ts" "holds_buff (d_place (ts ! i))" "\<not> holds_entry (d_place (ts ! i))"
  shows "dev_lines (kern s) = content ls (history s)"
proof (cases "find (\<lambda>t. holds_entry (d_place t)) ts")
  case None
  with ord show ?thesis by (simp add: order_inv_def journal_def)
next
  case (Some u)
  then obtain j where j: "j < length ts" "ts ! j = u" "holds_entry (d_place u)"
    by (auto simp: find_Some_iff)
  then have "j \<noteq> i" using i(3) by blast
  then have "\<not> flushing (d_place u)"
    using tasks_unique(1) [OF inv i(1) j(1)] i(2) j(2) flushing_holds by blast
  with ord Some show ?thesis by (simp add: order_inv_def journal_def)
qed

text \<open>A step of the writer that holds \<open>entryMutex\<close>.\<close>

lemma order_inv_inside:
  assumes inv: "tasks_inv env ts s" and env: "env_ok env" and ord: "order_inv env ls p0 ts s"
    and i: "i < length ts" and c: "d_todo (ts ! i) = c # cs" "call_step env i c (ts ! i) s = Some (Inr (t', s'))"
    and in_it: "holds_entry (d_place (ts ! i))"
  shows "order_inv env ls p0 (ts[i := t']) s'"
proof -
  let ?t = "ts ! i" and ?k = "kern s"
  let ?P = "\<lambda>t. holds_entry (d_place t)"
  have st: "at_step env c ?t ?k" by (rule tasks_at_step [OF inv env i c(1)])
  have ls: "length ls \<le> 10" "reads_fit env ls (history s)" using ord by (simp_all add: order_inv_def)
  have none: "\<not> ?P (ts[i := t'] ! j)" if "\<And>j. j < length ts \<Longrightarrow> j \<noteq> i \<Longrightarrow> \<not> ?P (ts ! j)" "\<not> ?P t'"
    "j < length (ts[i := t'])" for j
    using that by (cases "j = i") simp_all
  obtain buf count where w: "c = SysWrite buf count"
    using at_step_ok [OF st] in_it by (cases c) (auto simp: at_ok_defs split: dplace.splits)
  have other: "\<not> ?P (ts ! j)" if "j < length ts" "j \<noteq> i" for j
    using tasks_unique(2) [OF inv i that in_it] .
  have ws: "write_step env i buf count ?t s = Some (Inr (t', s'))" using c(2) w by simp
  have "find ?P ts = Some ?t" using i in_it other by (rule find_only)
  moreover have "input_of ?t = buf" using c(1) w by (simp add: input_of_def)
  ultimately have j: "journal env ls p0 (history s) ?k buf (d_place ?t)"
    using ord by (simp add: order_inv_def)
  note new = write_journal [OF st [unfolded w] in_it ws j]
  have rd: "reads_fit env ls (history s')" by (rule write_reads [OF ls ws])
  show ?thesis
  proof (cases "?P t'")
    case True
    then have "d_place t' \<noteq> Entry" by auto
    then have "input_of t' = buf" using write_keeps(1) [OF ws] c(1) w by (simp add: input_of_def)
    moreover have "find ?P (ts[i := t']) = Some (ts[i := t'] ! i)"
      using i True other by (intro find_only) simp_all
    ultimately show ?thesis using new True rd ls(1) i by (simp add: order_inv_def)
  next
    case False
    then have "find ?P (ts[i := t']) = None" by (intro find_nobody none [OF other])
    moreover have "d_place t' = Entry" using new False by blast
    moreover have "journal env ls p0 (history s') (kern s') [] (d_place t')"
      using new by (simp only: False if_False)
    ultimately show ?thesis using rd ls(1) by (simp add: order_inv_def)
  qed
qed

text \<open>A step of any other task.\<close>

lemma order_inv_outside:
  assumes inv: "tasks_inv env ts s" and env: "env_ok env" and ord: "order_inv env ls p0 ts s"
    and i: "i < length ts" and c: "d_todo (ts ! i) = c # cs" "call_step env i c (ts ! i) s = Some (Inr (t', s'))"
    and out: "\<not> holds_entry (d_place (ts ! i))"
  shows "order_inv env ls p0 (ts[i := t']) s'"
proof -
  let ?t = "ts ! i" and ?k = "kern s"
  let ?P = "\<lambda>t. holds_entry (d_place t)"
  have st: "at_step env c ?t ?k" by (rule tasks_at_step [OF inv env i c(1)])
  have ls: "length ls \<le> 10" "reads_fit env ls (history s)" using ord by (simp_all add: order_inv_def)
  have cont: "dev_lines ?k = content ls (history s)" if "holds_buff (d_place ?t)"
    by (rule order_content [OF inv ord i that out])
  note new = other_journal [OF st c(2) out ls cont]
  have g: "guar env (d_place ?t) (d_place t') ?k (kern s')"
    using call_step_good [OF st c(2)] by (auto simp: step_good_def)
  then have same: "kheap (kern s') = kheap ?k" "buff (kern s') = buff ?k"
    "buffPtr (stage (kern s')) = buffPtr (stage ?k)" "endIdx (stage (kern s')) = endIdx (stage ?k)"
    using out by (simp_all add: guar_def)
  have log: "accepted (history s') = accepted (history s)" "published (history s') = published (history s)"
    and rd: "reads_fit env ls (history s')" using new by blast+
  have keep: "journal env ls p0 (history s) ?k b p \<Longrightarrow> journal env ls p0 (history s') (kern s') b p" for b p
    by (rule journal_cong [OF _ log same])
  show ?thesis
  proof (cases "?P t'")
    case True
    have "\<not> entryMutex ?k" using g out True by (auto simp: guar_def lock_moves_def)
    then have other: "\<not> ?P (ts ! j)" if "j < length ts" for j
      using inv holders_pos [OF that, of holds_entry] by (auto simp: tasks_inv_def)
    have "find ?P ts = None" by (rule find_nobody) (rule other)
    then have "journal env ls p0 (history s) ?k [] Entry" using ord by (simp add: order_inv_def)
    then have "journal env ls p0 (history s') (kern s') [] Entry" by (rule keep)
    moreover have "find ?P (ts[i := t']) = Some (ts[i := t'] ! i)"
      using i True other by (intro find_only) simp_all
    moreover have "d_place t' = WriteCheck" using new True by blast
    ultimately show ?thesis using rd ls(1) i by (simp add: order_inv_def journal_rest)
  next
    case False
    then have "find ?P (ts[i := t']) = find ?P ts" using out by (intro find_update_other)
    then show ?thesis using ord keep rd ls(1) by (auto simp: order_inv_def split: option.splits)
  qed
qed

lemma order_inv_step:
  assumes inv: "tasks_inv env ts s" and env: "env_ok env" and ord: "order_inv env ls p0 ts s"
    and i: "i < length ts" and r: "driver_step env i (ts ! i) s = Some (Inr (t', s'))"
  shows "order_inv env ls p0 (ts[i := t']) s'"
proof -
  obtain c cs where "d_todo (ts ! i) = c # cs" "call_step env i c (ts ! i) s = Some (Inr (t', s'))"
    using r by (auto simp: driver_step_def split: list.splits)
  with order_inv_inside [OF inv env ord i] order_inv_outside [OF inv env ord i] show ?thesis by blast
qed

section \<open>The answers of the calls\<close>

text \<open>
  What a task itself has seen of the history: the writes that were accepted, the reads that
  were delivered. \<open>effects\<close> reads the same off its calls and answers: a write has an effect
  unless it was answered \<open>-ENOMEM\<close> or \<open>-ERESTARTSYS\<close>, a read unless \<open>-ERESTARTSYS\<close>.
\<close>

type_synonym effect = "byte list + size_t \<times> byte list"

fun seen :: "nat \<Rightarrow> event \<Rightarrow> effect list" where
  "seen i (Accepted j buf) = (if j = i then [Inl buf] else [])"
| "seen i (Delivered j pos n bs) = (if j = i then [Inr (n, bs)] else [])"
| "seen i (Published l) = []"

definition own :: "nat \<Rightarrow> event list \<Rightarrow> effect list" where
  "own i h = concat (map (seen i) h)"

fun effect_of :: "syscall \<Rightarrow> ssize_t \<Rightarrow> byte list \<Rightarrow> effect list" where
  "effect_of (SysWrite buf count) r bs = (if r = - ENOMEM \<or> r = - ERESTARTSYS then [] else [Inl buf])"
| "effect_of (SysRead n) r bs = (if r = - ERESTARTSYS then [] else [Inr (n, bs)])"
| "effect_of c r bs = []"

fun effects :: "syscall list \<Rightarrow> (ssize_t \<times> byte list) list \<Rightarrow> effect list" where
  "effects (c # cs) ((r, bs) # as) = effect_of c r bs @ effects cs as"
| "effects cs as = []"

lemma effects_snoc:
  "drop (length as) cs = c # cs' \<Longrightarrow> effects cs (as @ [(r, bs)]) = effects cs as @ effect_of c r bs"
  by (induction cs as rule: effects.induct) auto

text \<open>The effect of a call that has not returned yet.\<close>

fun in_write :: "dplace \<Rightarrow> bool" where
  "in_write WriteCheck = False"
| "in_write (UnlockEntry r) = False"
| "in_write p = holds_entry p"

definition pending :: "syscall \<Rightarrow> dplace \<Rightarrow> effect list" where
  "pending c p = (case c of
     SysWrite buf count \<Rightarrow> if in_write p \<or> p = UnlockEntry count \<and> unat count < 2 ^ 31 then [Inl buf] else []
   | SysRead n \<Rightarrow> (case p of UnlockBuff r bs \<Rightarrow> [Inr (n, bs)] | _ \<Rightarrow> [])
   | _ \<Rightarrow> [])"

text \<open>An accepted write fits an allocation; its result is its count. A read returns the number of its bytes.\<close>

fun mark_ok :: "syscall \<Rightarrow> dplace \<Rightarrow> bool" where
  "mark_ok (SysWrite buf count) p \<longleftrightarrow> (in_write p \<longrightarrow> unat count < 2 ^ 31) \<and>
     (\<forall>r. p = UnlockEntry r \<longrightarrow> r = - ENOMEM \<or> r = count \<and> unat count < 2 ^ 31)"
| "mark_ok (SysRead n) p \<longleftrightarrow> (\<forall>r bs. p = UnlockBuff r bs \<longrightarrow> unat r < 2 ^ 31)"
| "mark_ok c p \<longleftrightarrow> True"

definition log_ok :: "nat \<Rightarrow> syscall list \<Rightarrow> event list \<Rightarrow> dtask \<Rightarrow> bool" where
  "log_ok i cs h t \<longleftrightarrow> d_todo t = drop (length (d_answers t)) cs \<and>
     own i h = effects cs (d_answers t) @
       (case d_todo t of [] \<Rightarrow> [] | c # _ \<Rightarrow> pending c (d_place t)) \<and>
     (case d_todo t of [] \<Rightarrow> True | c # _ \<Rightarrow> mark_ok c (d_place t))"

lemma small_count: "unat (c :: size_t) < 2 ^ 31 \<Longrightarrow> c \<noteq> - ENOMEM \<and> c \<noteq> - ERESTARTSYS"
  by (auto simp: errno_defs)

lemma own_simps [simp]:
  "own i (h @ [e]) = own i h @ seen i e"
  by (simp add: own_def)

lemma log_ok_own: "own i h' = own i h \<Longrightarrow> log_ok i cs h' t = log_ok i cs h t"
  by (simp only: log_ok_def)

text \<open>A step inside the call, and the end of the call.\<close>

lemma log_stay:
  assumes "log_ok i cs h t" "d_todo t = c # cs'" "d_todo t' = d_todo t" "d_answers t' = d_answers t"
    and "own i h' @ pending c (d_place t) = own i h @ pending c (d_place t')"
    and "own i h' = own i h \<or> pending c (d_place t) = []"
    and "mark_ok c (d_place t')"
  shows "log_ok i cs h' t'"
proof -
  have "drop (length (d_answers t)) cs = c # cs'" "own i h = effects cs (d_answers t) @ pending c (d_place t)"
    using assms(1,2) by (simp_all add: log_ok_def)
  moreover from this have "own i h' = effects cs (d_answers t) @ pending c (d_place t')"
    using assms(5,6) by auto
  ultimately show ?thesis using assms(2-4,7) by (simp add: log_ok_def)
qed

lemma log_answer:
  assumes "log_ok i cs h t" "d_todo t = c # cs'" "d_todo t' = d_todo t" "d_answers t' = d_answers t"
    and "own i h' = own i h" "effect_of c r bs = pending c (d_place t)"
  shows "log_ok i cs h' (reply r bs t')"
proof -
  have td: "drop (length (d_answers t)) cs = c # cs'" using assms(1,2) by (simp add: log_ok_def)
  then have "drop (Suc (length (d_answers t))) cs = cs'" by (metis drop_Suc list.sel(3) tl_drop)
  moreover have "pending d Entry = []" "mark_ok d Entry" for d
    by (cases d; simp add: pending_def)+
  ultimately show ?thesis
    using assms td by (auto simp: log_ok_def reply_def effects_snoc split: list.split)
qed

lemma write_log:
  assumes st: "at_step env (SysWrite buf count) t (kern s)" and td: "d_todo t = SysWrite buf count # cs'"
    and r: "write_step env i buf count t s = Some (Inr (t', s'))"
    and log: "log_ok i cs (history s) t" and noalloc: "\<forall>n. \<not> kmalloc_fails env n"
  shows "log_ok i cs (history s') t'"
proof -
  let ?k = "kern s" and ?c = "SysWrite buf count"
  note ws = write_at_step [OF st]
  have mark: "mark_ok ?c (d_place t)" using log td by (simp add: log_ok_def)
  have stay: ?thesis if "d_todo t' = d_todo t" "d_answers t' = d_answers t" "own i (history s') = own i (history s)"
    "pending ?c (d_place t') = pending ?c (d_place t)" "mark_ok ?c (d_place t')"
    using that by (intro log_stay [OF log td]) simp_all
  have over: "log_ok i cs (history s') (reply q bs t)"
    if "own i (history s') = own i (history s)" "effect_of ?c q bs = pending ?c (d_place t)" for q bs
    using that by (intro log_answer [OF log td]) simp_all
  show ?thesis
  proof (cases "d_place t")
    case Entry
    with r stay show ?thesis by (auto simp: write_step_def Let_def pending_def split: if_splits)
  next
    case WriteLock
    have "effect_of ?c (- ERESTARTSYS) bs = pending ?c (d_place t)" for bs by (simp add: WriteLock pending_def)
    with r WriteLock stay over show ?thesis
      by (auto simp: write_step_def lock_step_def take_entry_def Let_def pending_def split: if_splits)
  next
    case WriteCheck
    have ok: "stage_size (stage ?k) = KMALLOC_MAX_SIZE env" "dev_inv env ?k"
      using ws(4,5) WriteCheck by (simp_all add: write_at_ok_def)
    show ?thesis
    proof (cases "count > stage_size (stage ?k) \<or> endIdx (stage ?k) + count > stage_size (stage ?k)")
      case True
      have none: "pending ?c (UnlockEntry (- ENOMEM)) = []" "pending ?c WriteCheck = []"
        using small_count [of count] by (auto simp: pending_def)
      have res: "t' = t\<lparr>d_place := UnlockEntry (- ENOMEM)\<rparr>" "s' = s"
        using True r WriteCheck by (auto simp: write_step_def Let_def)
      show ?thesis by (rule stay) (simp_all add: res WriteCheck none)
    next
      case False
      have "room env ?k count 0" using write_check_room [OF False ok ws(3)] .
      then have small: "unat count < 2 ^ 31" using ws(3) by (auto simp: room_def env_ok_def)
      have res: "t' = t\<lparr>d_place := Scan 0 0\<rparr>" "history s' = history s @ [Accepted i buf]"
        using False r WriteCheck by (auto simp: write_step_def Let_def)
      show ?thesis
        using WriteCheck small by (intro log_stay [OF log td]) (simp_all add: res pending_def)
    qed
  next
    case (Scan n b)
    with r mark stay show ?thesis by (auto simp: write_step_def Let_def pending_def split: if_splits)
  next
    case (Store n b)
    have ok: "0 < n" "b + n \<le> unat count" "room env ?k count b" "stage_size (stage ?k) = KMALLOC_MAX_SIZE env"
      "dev_inv env ?k"
      using ws(4,5) Store by (simp_all add: write_at_ok_def)
    have n: "unat (of_nat n :: size_t) = n"
      using ok(2) unat_less_64 [of count] by (intro unat_of_nat_64) linarith
    obtain k' where "StorePartial env (drop b buf) (of_nat n) ?k = Inr (0, k')"
      using store_good [OF ok(5,4,3) n ok(1,2) ws(2)] noalloc by metis
    with r Store mark stay show ?thesis by (auto simp: write_step_def Let_def pending_def)
  next
    case (Tail b)
    with r mark stay show ?thesis by (auto simp: write_step_def Let_def pending_def bindR_Inr_iff)
  next
    case (UnlockEntry q)
    have "effect_of ?c q bs = pending ?c (d_place t)" for bs
      using mark UnlockEntry small_count by (auto simp: pending_def)
    with r UnlockEntry over show ?thesis by (auto simp: write_step_def Let_def)
  qed (use r mark stay in \<open>auto simp: write_step_def flush_step_def Let_def pending_def bindR_Inr_iff
      split: if_splits\<close>)
qed

lemma other_log:
  assumes td: "d_todo t = c # cs'" and nw: "\<And>buf count. c \<noteq> SysWrite buf count" "\<And>n. c \<noteq> SysRead n"
    and r: "call_step env i c t s = Some (Inr (t', s'))" and log: "log_ok i cs (history s) t"
  shows "log_ok i cs (history s') t'"
proof -
  have pend: "pending c p = []" "effect_of c q bs = []" "mark_ok c p" for p q bs
    using nw by (cases c; simp add: pending_def)+
  have stay: ?thesis if "d_todo t' = d_todo t" "d_answers t' = d_answers t" "own i (history s') = own i (history s)"
    using that by (intro log_stay [OF log td]) (simp_all add: pend)
  have over: "log_ok i cs (history s') (reply q bs u)"
    if "own i (history s') = own i (history s)" "d_todo u = d_todo t" "d_answers u = d_answers t" for q bs u
    using that by (intro log_answer [OF log td]) (simp_all add: pend)
  show ?thesis
  proof (cases c)
    case (SysRead n)
    with nw show ?thesis by blast
  next
    case (SysLlseek off w)
    with r stay over show ?thesis
      by (cases "d_place t") (auto simp: llseek_step_def lock_step_def unlock_step_def Let_def split: if_splits)
  next
    case (SysIoctl cmd arg)
    with r stay over show ?thesis
      by (cases "d_place t") (auto simp: ioctl_step_def lock_step_def unlock_step_def Let_def
          split: if_splits option.splits)
  next
    case (SysWrite buf count)
    with nw show ?thesis by blast
  qed (use r over in \<open>auto simp: open_step_def release_step_def aesd_open_def aesd_release_def\<close>)
qed

lemma read_log:
  assumes st: "at_step env (SysRead n) t (kern s)" and td: "d_todo t = SysRead n # cs'"
    and r: "read_step env i n t s = Some (Inr (t', s'))" and log: "log_ok i cs (history s) t"
  shows "log_ok i cs (history s') t'"
proof -
  let ?k = "kern s" and ?c = "SysRead n"
  have ok: "d_place t = Entry \<or> read_at_ok ?k (d_place t)" using at_step_ok [OF st] by simp
  have inv: "holds_buff (d_place t) \<Longrightarrow> \<not> flushing (d_place t) \<Longrightarrow> dev_inv env ?k" and eo: "env_ok env"
    using st by (auto simp: at_step_def)
  have mark: "mark_ok ?c (d_place t)" using log td by (simp add: log_ok_def)
  show ?thesis
  proof (cases "d_place t")
    case Entry
    have "log_ok i cs (history s) (reply (- ERESTARTSYS) [] t)"
      using Entry by (intro log_answer [OF log td]) (simp_all add: pending_def)
    moreover have "log_ok i cs (history s) (t\<lparr>d_place := ReadFind\<rparr>)"
      using Entry by (intro log_stay [OF log td]) (simp_all add: pending_def)
    ultimately show ?thesis
      using r Entry by (auto simp: read_step_def lock_step_def Let_def split: if_splits)
  next
    case ReadFind
    have "log_ok i cs (history s @ [Delivered i pos n []]) (t\<lparr>d_place := UnlockBuff 0 []\<rparr>)" for pos
      using ReadFind by (intro log_stay [OF log td]) (simp_all add: pending_def)
    moreover have "log_ok i cs (history s) (t\<lparr>d_place := ReadCopy slot off pos\<rparr>)" for slot off pos
      using ReadFind by (intro log_stay [OF log td]) (simp_all add: pending_def)
    ultimately show ?thesis
      using r ReadFind by (auto simp: read_step_def Let_def split: option.splits)
  next
    case (ReadCopy slot off pos)
    then have inv: "dev_inv env ?k" and loc: "located (buff ?k) slot off pos"
      using inv ok by (simp_all add: read_at_ok_def)
    define e where "e = entry (buff ?k) ! slot"
    define m where "m = (if esize e - off < n then esize e - off else n)"
    define q where "q = m - not_copied env (clock ?k) m"
    obtain bytes where rd: "t' = t\<lparr>d_file := (d_file t)\<lparr>f_pos := f_pos (d_file t) + q\<rparr>,
        d_place := UnlockBuff q (take (unat q) bytes)\<rparr>"
      "history s' = history s @ [Delivered i pos n (take (unat q) bytes)]"
      using r ReadCopy unfolding m_def q_def e_def by (auto simp: read_step_def Let_def bindR_Inr_iff)
    have "e \<in> set (cb_items (buff ?k))" "unat off < unat (esize e)"
      using loc by (auto simp: located_def e_def)
    then have "unat (esize e) < 2 ^ 31" "unat off < unat (esize e)"
      using inv eo by (auto simp: dev_inv_def env_ok_def)
    moreover have "unat m \<le> unat (esize e - off)" by (simp add: m_def word_less_nat_alt)
    moreover have "unat q \<le> unat m" using eo by (simp add: q_def env_ok_def unat_sub word_le_nat_alt)
    ultimately have "unat q < 2 ^ 31" by (simp add: unat_sub word_le_nat_alt)
    then show ?thesis
      using ReadCopy by (intro log_stay [OF log td]) (simp_all add: rd pending_def)
  next
    case (UnlockBuff q bs)
    have "effect_of ?c q bs = pending ?c (d_place t)"
      using mark UnlockBuff small_count [of q] by (simp add: pending_def)
    then have "log_ok i cs (history s) (reply q bs t)"
      by (intro log_answer [OF log td]) simp_all
    with r UnlockBuff show ?thesis by (auto simp: read_step_def unlock_step_def Let_def)
  qed (use r in \<open>simp_all add: read_step_def Let_def\<close>)
qed

text \<open>A step of task \<open>i\<close> adds at most one event to the history, one of its own.\<close>

definition own_step :: "nat \<Rightarrow> event list \<Rightarrow> event list \<Rightarrow> bool" where
  "own_step i h h' \<longleftrightarrow> h' = h \<or> (\<exists>e. h' = h @ [e] \<and> (\<forall>j. j \<noteq> i \<longrightarrow> seen j e = []) \<and>
     (\<forall>x \<in> set (accepted [e]). fst x = i))"

lemma own_stepI [intro]:
  "own_step i h h" "own_step i h (h @ [Accepted i buf])" "own_step i h (h @ [Published l])"
  "own_step i h (h @ [Delivered i pos n bs])"
  by (auto simp: own_step_def)

lemma own_stepD:
  assumes "own_step i h h'"
  shows "j \<noteq> i \<Longrightarrow> own j h' = own j h" and "x \<in> set (accepted h') \<Longrightarrow> x \<in> set (accepted h) \<or> fst x = i"
  using assms by (auto simp: own_step_def)

lemma call_own_step:
  assumes "call_step env i c t s = Some (Inr (t', s'))"
  shows "own_step i (history s) (history s')"
proof (cases c)
  case (SysRead n)
  with assms show ?thesis
    by (cases "d_place t") (auto simp: read_step_def lock_step_def unlock_step_def Let_def bindR_Inr_iff
        split: if_splits option.splits)
next
  case (SysLlseek off w)
  with assms show ?thesis
    by (cases "d_place t") (auto simp: llseek_step_def lock_step_def unlock_step_def Let_def split: if_splits)
next
  case (SysIoctl cmd arg)
  with assms show ?thesis
    by (cases "d_place t") (auto simp: ioctl_step_def lock_step_def unlock_step_def Let_def
        split: if_splits option.splits)
next
  case (SysWrite buf count)
  with assms show ?thesis
    by (cases "d_place t") (auto simp: write_step_def flush_step_def lock_step_def Let_def bindR_Inr_iff
        split: if_splits)
qed (use assms in \<open>auto simp: open_step_def release_step_def aesd_open_def aesd_release_def\<close>)

definition logs_inv :: "dtask list \<Rightarrow> dtask list \<Rightarrow> shared \<Rightarrow> bool" where
  "logs_inv ts0 ts s \<longleftrightarrow> length ts = length ts0 \<and>
     (\<forall>i < length ts. log_ok i (d_todo (ts0 ! i)) (history s) (ts ! i)) \<and>
     (\<forall>x \<in> set (accepted (history s)). fst x < length ts)"

lemma logs_inv_step:
  assumes inv: "tasks_inv env ts s" and env: "env_ok env" and noalloc: "\<forall>n. \<not> kmalloc_fails env n"
    and log: "logs_inv ts0 ts s"
    and i: "i < length ts" and r: "driver_step env i (ts ! i) s = Some (Inr (t', s'))"
  shows "logs_inv ts0 (ts[i := t']) s'"
proof -
  let ?t = "ts ! i"
  obtain c cs where c: "d_todo ?t = c # cs" "call_step env i c ?t s = Some (Inr (t', s'))"
    using r by (auto simp: driver_step_def split: list.splits)
  have st: "at_step env c ?t (kern s)" by (rule tasks_at_step [OF inv env i c(1)])
  have old: "log_ok j (d_todo (ts0 ! j)) (history s) (ts ! j)" if "j < length ts" for j
    using log that by (simp add: logs_inv_def)
  have new: "log_ok i (d_todo (ts0 ! i)) (history s') t'"
  proof (cases c)
    case (SysWrite buf count)
    with st c show ?thesis by (intro write_log [OF _ _ _ old [OF i] noalloc]) simp_all
  next
    case (SysRead n)
    with st c show ?thesis by (intro read_log [OF _ _ _ old [OF i]]) simp_all
  qed (use other_log [OF c(1) _ _ c(2) old [OF i]] in simp_all)
  have own: "own_step i (history s) (history s')" by (rule call_own_step [OF c(2)])
  have "log_ok j (d_todo (ts0 ! j)) (history s') (ts[i := t'] ! j)" if "j < length ts" for j
  proof (cases "j = i")
    case True
    with new i show ?thesis by simp
  next
    case False
    then have same: "own j (history s') = own j (history s)" using own_stepD(1) [OF own] by simp
    show ?thesis using log_ok_own [OF same] old [OF that] False by simp
  qed
  moreover have "fst x < length ts" if "x \<in> set (accepted (history s'))" for x
  proof -
    have "x \<in> set (accepted (history s)) \<or> fst x = i" using own_stepD(2) [OF own that] .
    moreover have "\<forall>x \<in> set (accepted (history s)). fst x < length ts" using log unfolding logs_inv_def by blast
    ultimately show ?thesis using i by blast
  qed
  ultimately show ?thesis using log by (simp add: logs_inv_def)
qed

section \<open>Writes one after the other\<close>

lemma first_occurrence:
  "xs @ a # ys = xs' @ a # ys' \<Longrightarrow> a \<notin> set xs \<Longrightarrow> a \<notin> set xs' \<Longrightarrow> xs = xs' \<and> ys = ys'"
proof (induction xs arbitrary: xs')
  case Nil
  then show ?case by (cases xs') auto
next
  case (Cons x xs)
  then show ?case by (cases xs') auto
qed

lemma split_proper:
  "p0 @ xs = concat ls @ r \<Longrightarrow> NL \<notin> set p0 \<Longrightarrow> \<forall>l \<in> set ls. proper l \<Longrightarrow> NL \<notin> set r \<Longrightarrow>
     split_lines p0 xs = (ls, r)"
proof (induction p0 xs arbitrary: ls rule: split_lines.induct)
  case (1 cur)
  have "ls = []"
  proof (rule ccontr)
    assume "ls \<noteq> []"
    then have "NL \<in> set (concat ls)" using "1.prems"(3) by (cases ls) (auto simp: proper_def)
    then show False using "1.prems"(1,2) by (metis Un_iff append_Nil2 set_append)
  qed
  with "1.prems" show ?case by simp
next
  case (2 cur c cs)
  show ?case
  proof (cases "c = NL")
    case False
    with "2.IH"(2) [of ls] "2.prems" show ?thesis by simp
  next
    case True
    obtain l ls' where ls: "ls = l # ls'"
    proof (cases ls)
      case Nil
      then have "NL \<in> set r" using "2.prems"(1) True by (metis append_Nil concat.simps(1) in_set_conv_decomp)
      with "2.prems"(4) show ?thesis by blast
    qed
    then obtain x where x: "l = x @ [NL]" "NL \<notin> set x" using "2.prems"(3) by (auto simp: proper_def)
    have eq: "cur @ NL # cs = x @ NL # (concat ls' @ r)"
      using "2.prems"(1) ls x(1) True by simp
    then have "cur = x \<and> cs = concat ls' @ r"
      using first_occurrence [OF eq] "2.prems"(2) x(2) by blast
    then show ?thesis
      using "2.IH"(1) [OF True, of ls'] "2.prems"(3,4) ls x(1) True by simp
  qed
qed

section \<open>The specification\<close>

text \<open>
  The device as its users see it: the stored lines and the bytes that are accepted but not
  yet part of a line. A write adds its bytes in one step. A line moves over as a whole. A
  read is answered from the stored lines. \<open>None\<close>: the specification does not allow it.
\<close>

fun spec_run ::
    "kernel_env \<Rightarrow> byte list list \<Rightarrow> byte list \<Rightarrow> event list \<Rightarrow> (byte list list \<times> byte list) option" where
  "spec_run env ls u [] = Some (ls, u)"
| "spec_run env ls u (Accepted i buf # h) = spec_run env ls (u @ buf) h"
| "spec_run env ls u (Published l # h) =
     (if proper l \<and> take (length l) u = l then spec_run env (keep_last 10 (ls @ [l])) (drop (length l) u) h
      else None)"
| "spec_run env ls u (Delivered i pos n bs # h) =
     (if read_fits env ls pos n bs then spec_run env ls u h else None)"

lemma spec_run_append:
  "spec_run env ls u (h @ h') = Option.bind (spec_run env ls u h) (\<lambda>(ls, u). spec_run env ls u h')"
  by (induction env ls u h rule: spec_run.induct) auto

text \<open>What a history needs to be a run of the specification.\<close>

definition history_ok :: "kernel_env \<Rightarrow> byte list list \<Rightarrow> byte list \<Rightarrow> event list \<Rightarrow> bool" where
  "history_ok env ls p0 h \<longleftrightarrow> length ls \<le> 10 \<and> reads_fit env ls h \<and> (\<forall>l \<in> set (published h). proper l) \<and>
     (\<exists>z. p0 @ accepted_bytes h = concat (published h) @ z)"

definition unpublished :: "byte list \<Rightarrow> event list \<Rightarrow> byte list" where
  "unpublished p0 h = drop (length (concat (published h))) (p0 @ accepted_bytes h)"

definition spec_ok :: "kernel_env \<Rightarrow> byte list list \<Rightarrow> byte list \<Rightarrow> event list \<Rightarrow> bool" where
  "spec_ok env ls p0 h \<longleftrightarrow> spec_run env ls p0 h = Some (content ls h, unpublished p0 h)"

lemma accepted_bytes_simps [simp]:
  "accepted_bytes (h @ [Accepted i buf]) = accepted_bytes h @ buf"
  "accepted_bytes (h @ [Published l]) = accepted_bytes h"
  "accepted_bytes (h @ [Delivered i pos n bs]) = accepted_bytes h"
  "accepted_bytes [] = []"
  by (simp_all add: accepted_bytes_def)

lemma spec_extend:
  assumes old: "history_ok env ls p0 h" and new: "history_ok env ls p0 (h @ [e])" and sp: "spec_ok env ls p0 h"
  shows "spec_ok env ls p0 (h @ [e])"
proof -
  have len: "length (concat (published h)) \<le> length (p0 @ accepted_bytes h)"
    using old unfolding history_ok_def by (metis length_append le_add1)
  have run: "spec_run env ls p0 (h @ [e]) = spec_run env (content ls h) (unpublished p0 h) [e]"
    using sp by (simp add: spec_ok_def spec_run_append)
  show ?thesis
  proof (cases e)
    case (Accepted i buf)
    with len run show ?thesis by (simp add: spec_ok_def unpublished_def content_def)
  next
    case (Published l)
    then obtain z where "p0 @ accepted_bytes h = concat (published h) @ l @ z" "proper l"
      using new by (auto simp: history_ok_def)
    then have "unpublished p0 h = l @ z" "unpublished p0 (h @ [e]) = z"
      using Published by (simp_all add: unpublished_def)
    with run Published \<open>proper l\<close> show ?thesis
      by (simp add: spec_ok_def content_def keep_last_append)
  next
    case (Delivered i pos n bs)
    have "length ls \<le> 10" "reads_fit env ls (h @ [e])" using new by (simp_all add: history_ok_def)
    then have "read_fits env (content ls h) pos n bs" using Delivered by (simp add: reads_fit_snoc)
    with run Delivered show ?thesis by (simp add: spec_ok_def unpublished_def content_def)
  qed
qed

lemma order_history_ok:
  assumes "order_inv env ls p0 ts s" "quiet env"
  shows "history_ok env ls p0 (history s)"
proof -
  obtain b p where j: "journal env ls p0 (history s) (kern s) b p"
    using assms(1) by (auto simp: order_inv_def split: option.splits)
  have "\<forall>n. \<not> kmalloc_fails env n" using assms(2) by (simp add: quiet_def)
  with j assms show ?thesis
    by (auto simp: history_ok_def order_inv_def journal_def bytes_at_def proper_at_def)
qed

text \<open>Everything that is kept, in one invariant.\<close>

definition ordered :: "kernel_env \<Rightarrow> dtask list \<Rightarrow> shared \<Rightarrow> dtask list \<Rightarrow> shared \<Rightarrow> bool" where
  "ordered env ts0 s0 ts s \<longleftrightarrow>
     tasks_inv env ts s \<and> order_inv env (dev_lines (kern s0)) (dev_partial (kern s0)) ts s \<and>
     logs_inv ts0 ts s \<and> spec_ok env (dev_lines (kern s0)) (dev_partial (kern s0)) (history s)"

lemma ordered_step:
  assumes ord: "ordered env ts0 s0 ts s" and env: "env_ok env" "quiet env"
    and i: "i < length ts" and r: "driver_step env i (ts ! i) s = Some (Inr (t', s'))"
  shows "ordered env ts0 s0 (ts[i := t']) s'"
proof -
  let ?ls = "dev_lines (kern s0)" and ?p0 = "dev_partial (kern s0)"
  have inv: "tasks_inv env ts s" and old: "order_inv env ?ls ?p0 ts s" and log: "logs_inv ts0 ts s"
    and sp: "spec_ok env ?ls ?p0 (history s)"
    using ord by (simp_all add: ordered_def)
  have new: "order_inv env ?ls ?p0 (ts[i := t']) s'"
    by (rule order_inv_step [OF inv env(1) old i r])
  obtain c where c: "call_step env i c (ts ! i) s = Some (Inr (t', s'))"
    using r by (auto simp: driver_step_def split: list.splits)
  have "spec_ok env ?ls ?p0 (history s')"
    using call_own_step [OF c] sp order_history_ok [OF old env(2)] order_history_ok [OF new env(2)]
    by (auto simp: own_step_def intro: spec_extend)
  moreover have "tasks_inv env (ts[i := t']) s'" using tasks_inv_step [OF inv env(1) i r] by auto
  moreover have "logs_inv ts0 (ts[i := t']) s'"
    using env(2) by (intro logs_inv_step [OF inv env(1) _ log i r]) (simp add: quiet_def)
  ultimately show ?thesis using new by (simp add: ordered_def)
qed

text \<open>The start of the histories: no unfinished line has a newline, nothing is answered yet.\<close>

definition log_start :: "kernel_env \<Rightarrow> dtask list \<Rightarrow> shared \<Rightarrow> bool" where
  "log_start env ts s \<longleftrightarrow> tasks_start env ts s \<and> quiet env \<and> history s = [] \<and>
     NL \<notin> set (dev_partial (kern s)) \<and> (\<forall>t \<in> set ts. d_answers t = [])"

lemma start_ordered:
  assumes "log_start env ts s"
  shows "ordered env ts s ts s"
proof -
  let ?k = "kern s"
  have st: "tasks_start env ts s" and h: "history s = []" using assms by (simp_all add: log_start_def)
  have small: "length (dev_lines ?k) \<le> 10"
    using st length_cb_items_le [OF dev_inv_cb] by (auto simp: tasks_start_def length_dev_lines)
  have "find (\<lambda>t. holds_entry (d_place t)) ts = None"
    using st by (auto simp: find_None_iff tasks_start_def)
  then have "order_inv env (dev_lines ?k) (dev_partial ?k) ts s"
    using assms small by (simp add: order_inv_def h journal_defs content_small log_start_def accepted_bytes_def)
  moreover have "log_ok i (d_todo (ts ! i)) [] (ts ! i)" if "i < length ts" for i
  proof -
    have "d_answers (ts ! i) = []" "d_place (ts ! i) = Entry"
      using assms that by (auto simp: log_start_def tasks_start_def)
    moreover have "pending c Entry = []" "mark_ok c Entry" for c
      by (cases c; simp add: pending_def)+
    ultimately show ?thesis by (simp add: log_ok_def own_def split: list.split)
  qed
  then have "logs_inv ts ts s" by (simp add: logs_inv_def h)
  moreover have "spec_ok env (dev_lines ?k) (dev_partial ?k) (history s)"
    using small by (simp add: spec_ok_def h content_small unpublished_def)
  moreover have "tasks_inv env ts s" using start_safe [OF st] by (simp add: safe_tasks_def)
  ultimately show ?thesis by (simp add: ordered_def)
qed

lemma run_ordered:
  assumes "log_start env ts s" "run_schedule (driver_step env) sched ts s = Inr (ts', s')"
  shows "ordered env ts s ts' s'"
proof (rule run_schedule_keeps [where P = "ordered env ts s", OF _ start_ordered [OF assms(1)] assms(2)])
  have "env_ok env" "quiet env" using assms(1) by (simp_all add: log_start_def tasks_start_def)
  then show "ordered env ts s (us[i := t']) r'"
    if "ordered env ts s us r" "i < length us" "driver_step env i (us ! i) r = Some (Inr (t', r'))"
    for us r i t' r'
    using ordered_step that by blast
qed

text \<open>When every call is answered.\<close>

lemma ordered_rest:
  assumes ord: "ordered env ts0 s0 ts s" and rest: "\<forall>t \<in> set ts. d_todo t = []"
    and env: "quiet env"
  shows "dev_lines (kern s) = content (dev_lines (kern s0)) (history s)"
    "dev_partial (kern s) = unpublished (dev_partial (kern s0)) (history s)"
    "NL \<notin> set (dev_partial (kern s))"
    "dev_partial (kern s0) @ accepted_bytes (history s) = concat (published (history s)) @ dev_partial (kern s)"
    "i < length ts0 \<Longrightarrow> own i (history s) = effects (d_todo (ts0 ! i)) (d_answers (ts ! i))"
proof -
  have "\<forall>t \<in> set ts. d_place t = Entry"
    using ord rest by (auto simp: ordered_def tasks_inv_def task_ok_def)
  then have "find (\<lambda>t. holds_entry (d_place t)) ts = None" by (simp add: find_None_iff)
  then have j: "journal env (dev_lines (kern s0)) (dev_partial (kern s0)) (history s) (kern s) [] Entry"
    using ord by (simp add: ordered_def order_inv_def)
  have "\<forall>n. \<not> kmalloc_fails env n" using env by (simp add: quiet_def)
  with j env show
    "dev_lines (kern s) = content (dev_lines (kern s0)) (history s)"
    "dev_partial (kern s) = unpublished (dev_partial (kern s0)) (history s)"
    "NL \<notin> set (dev_partial (kern s))"
    "dev_partial (kern s0) @ accepted_bytes (history s) = concat (published (history s)) @ dev_partial (kern s)"
    by (simp_all add: journal_defs unpublished_def)
  show "own i (history s) = effects (d_todo (ts0 ! i)) (d_answers (ts ! i))" if "i < length ts0"
  proof -
    have "log_ok i (d_todo (ts0 ! i)) (history s) (ts ! i)" "length ts = length ts0"
      using ord that by (simp_all add: ordered_def logs_inv_def)
    with that rest show ?thesis by (simp add: log_ok_def)
  qed
qed


lemma demo_log_start: "log_start demo_env demo_tasks demo_shared"
proof -
  have "tasks_start demo_env demo_tasks demo_shared" by (rule demo_tasks_start [OF demo_env_ok(1)])
  then show ?thesis
    by (simp add: log_start_def demo_env_ok start_state_facts demo_shared_def) (simp add: demo_tasks_def demo_task_def)
qed

lemma demo_rounds:
  "fair_rounds (length demo_tasks) (replicate 120 [0..<3])"
  "sum_list (map todo_cost demo_tasks) \<le> length (replicate 120 [0..<(3::nat)])"
  by (auto simp: demo_tasks_def demo_task_def todo_cost_def fair_rounds_def)


text \<open>
  C8. Concurrent writes do not mix. Under the same conditions the writes that were answered
  with their count have taken effect one after the other: there is an order of them, in
  which those of each task are in the order of its calls, such that the stored lines at the
  end are the last ten of the lines at the start followed by the lines of all their input put
  together in this order, and the bytes after the last newline are the unfinished line.
\<close>

theorem concurrent_writes_serialise:
  assumes "log_start env ts s" and "fair_rounds (length ts) rounds"
    and "sum_list (map todo_cost ts) \<le> length rounds"
  shows "\<exists>ts' s' order ls r. run_schedule (driver_step env) (concat rounds) ts s = Inr (ts', s') \<and>
    (\<forall>i < length ts. map snd (filter (\<lambda>(j, buf). j = i) order)
       = map projl (filter isl (effects (d_todo (ts ! i)) (d_answers (ts' ! i))))) \<and>
    (\<forall>(j, buf) \<in> set order. j < length ts) \<and>
    split_lines (dev_partial (kern s)) (concat (map snd order)) = (ls, r) \<and>
    dev_lines (kern s') = keep_last 10 (dev_lines (kern s) @ ls) \<and> dev_partial (kern s') = r"
proof -
  have st: "tasks_start env ts s" and q: "quiet env" and p0: "NL \<notin> set (dev_partial (kern s))"
    using assms(1) by (simp_all add: log_start_def)
  obtain ts' s' where run: "run_schedule (driver_step env) (concat rounds) ts s = Inr (ts', s')"
    "\<forall>t \<in> set ts'. d_todo t = []"
    using driver_calls_end [OF st assms(2,3)] by blast
  have ord: "ordered env ts s ts' s'" by (rule run_ordered [OF assms(1) run(1)])
  note rest = ordered_rest [OF ord run(2) q]
  have "map snd (filter (\<lambda>(j, buf). j = i) (accepted h)) = map projl (filter isl (own i h))" for i h
    unfolding own_def by (induction h rule: accepted.induct) auto
  then have mine: "\<forall>i < length ts. map snd (filter (\<lambda>(j, buf). j = i) (accepted (history s')))
      = map projl (filter isl (effects (d_todo (ts ! i)) (d_answers (ts' ! i))))"
    using rest(5) by simp
  have "\<forall>l \<in> set (published (history s')). proper l"
    using order_history_ok [OF _ q] ord by (auto simp: ordered_def history_ok_def)
  then have "split_lines (dev_partial (kern s)) (concat (map snd (accepted (history s'))))
      = (published (history s'), dev_partial (kern s'))"
    using rest(3,4) p0 by (intro split_proper) (simp_all add: accepted_bytes_def)
  moreover have "\<forall>(j, buf) \<in> set (accepted (history s')). j < length ts"
    using ord by (auto simp: ordered_def logs_inv_def)
  ultimately show ?thesis
    using run(1) mine rest(1) unfolding content_def by blast
qed

theorem concurrent_writes_serialise_witness:
  "\<exists>ts' s' (order :: (nat \<times> byte list) list) ls r.
     run_schedule (driver_step demo_env) (concat (replicate 120 [0..<3])) demo_tasks demo_shared = Inr (ts', s') \<and>
     split_lines [] (concat (map snd order)) = (ls, r) \<and>
     dev_lines (kern s') = keep_last 10 ls \<and> dev_partial (kern s') = r"
proof -
  have "dev_lines (kern demo_shared) = []" "dev_partial (kern demo_shared) = []"
    by (simp_all add: demo_shared_def start_state_facts)
  then show ?thesis
    using concurrent_writes_serialise [OF demo_log_start demo_rounds]
    by (simp only: append_Nil) blast
qed

end
