(* ===== verification/Driver_Alone.thy ===== *)
theory Driver_Alone
  imports Driver_Calls
begin

text \<open>
  The steps of \<open>Driver_Tasks\<close> put together are the functions of \<open>Char_Device\<close>: a task whose
  call is not interleaved with others gets the result, and leaves the state, of the function.
\<close>

section \<open>One task at a time\<close>

text \<open>Task \<open>i\<close> makes steps and nobody else.\<close>

definition solo :: "kernel_env \<Rightarrow> nat \<Rightarrow> dtask \<Rightarrow> shared \<Rightarrow> dtask \<Rightarrow> shared \<Rightarrow> bool" where
  "solo env i t s t' s' \<longleftrightarrow>
     (\<lambda>(t, s) (t', s'). driver_step env i t s = Some (Inr (t', s')))\<^sup>*\<^sup>* (t, s) (t', s')"

lemma solo_refl [intro]: "solo env i t s t s"
  by (simp add: solo_def)

lemma solo_step:
  "driver_step env i t s = Some (Inr (t1, s1)) \<Longrightarrow> solo env i t1 s1 t' s' \<Longrightarrow> solo env i t s t' s'"
  unfolding solo_def by (rule converse_rtranclp_into_rtranclp) simp_all

lemma solo_trans [trans]:
  "solo env i t s t1 s1 \<Longrightarrow> solo env i t1 s1 t' s' \<Longrightarrow> solo env i t s t' s'"
  unfolding solo_def by (rule rtranclp_trans)

lemma solo_schedule:
  assumes "solo env i t s t' s'" "i < length ts" "ts ! i = t"
  shows "\<exists>n. run_schedule (driver_step env) (replicate n i) ts s = Inr (ts[i := t'], s')"
  using assms(1) unfolding solo_def
proof (induction rule: rtranclp_induct2)
  case refl
  show ?case using assms(2,3) by (intro exI [of _ 0]) auto
next
  case (step t1 s1 t2 s2)
  then obtain n where "run_schedule (driver_step env) (replicate n i) ts s = Inr (ts[i := t1], s1)" by blast
  then have "run_schedule (driver_step env) (replicate n i @ [i]) ts s = Inr (ts[i := t2], s2)"
    using step.hyps(2) assms(2) by (simp add: run_schedule_append)
  then show ?case by (metis replicate_Suc replicate_append_same)
qed

section \<open>The function of each call\<close>

fun alone :: "kernel_env \<Rightarrow> syscall \<Rightarrow> struct_file \<Rightarrow> kstate \<Rightarrow>
    (ssize_t \<times> byte list \<times> struct_file \<times> kstate) res" where
  "alone env SysOpen f k = bindR (aesd_open f k) (\<lambda>(r, f, k). Inr (r, [], f, k))"
| "alone env SysRelease f k = bindR (aesd_release f k) (\<lambda>(r, f, k). Inr (r, [], f, k))"
| "alone env (SysRead n) f k = aesd_read env f n k"
| "alone env (SysLlseek off w) f k = bindR (aesd_llseek env f off w k) (\<lambda>(r, k). Inr (r, [], f, k))"
| "alone env (SysIoctl cmd arg) f k = bindR (aesd_ioctl env f cmd arg k) (\<lambda>(r, k). Inr (r, [], f, k))"
| "alone env (SysWrite buf count) f k = bindR (aesd_write env f buf count k) (\<lambda>(r, k). Inr (r, [], f, k))"

text \<open>The call is over: the answer is given, and the history has grown in some way.\<close>

definition returns :: "kernel_env \<Rightarrow> nat \<Rightarrow> dtask \<Rightarrow> shared \<Rightarrow> ssize_t \<Rightarrow> byte list \<Rightarrow> struct_file \<Rightarrow> kstate \<Rightarrow> bool" where
  "returns env i t s r bs f k \<longleftrightarrow>
     (\<exists>h. solo env i t s (reply r bs (t\<lparr>d_file := f\<rparr>)) (s\<lparr>kern := k, history := h\<rparr>))"

lemma returns_now:
  "driver_step env i t s = Some (Inr (reply r bs (t\<lparr>d_file := f\<rparr>), s\<lparr>kern := k, history := h\<rparr>)) \<Longrightarrow>
     returns env i t s r bs f k"
  unfolding returns_def by (blast intro: solo_step)

lemma returns_step:
  assumes "driver_step env i t s = Some (Inr (t1, s1))" "returns env i t1 s1 r bs f k"
    and "reply r bs (t1\<lparr>d_file := f\<rparr>) = reply r bs (t\<lparr>d_file := f\<rparr>)"
    and "\<And>h. s1\<lparr>kern := k, history := h\<rparr> = s\<lparr>kern := k, history := h\<rparr>"
  shows "returns env i t s r bs f k"
proof -
  obtain h where "solo env i t1 s1 (reply r bs (t1\<lparr>d_file := f\<rparr>)) (s1\<lparr>kern := k, history := h\<rparr>)"
    using assms(2) by (auto simp: returns_def)
  then have "solo env i t1 s1 (reply r bs (t\<lparr>d_file := f\<rparr>)) (s\<lparr>kern := k, history := h\<rparr>)"
    using assms(3,4) by simp
  with assms(1) show ?thesis unfolding returns_def by (blast intro: solo_step)
qed

lemma returns_unlock:
  assumes "d_todo t = c # cs" "(\<exists>n. c = SysRead n) \<or> (\<exists>off w. c = SysLlseek off w) \<or> (\<exists>cmd arg. c = SysIoctl cmd arg)"
    and "d_place t = UnlockBuff r bs" "f = d_file t" "k = unlock_buff (kern s)"
  shows "returns env i t s r bs f k"
  using assms
  by (intro returns_now [where h = "history s"])
    (auto simp: driver_step_def read_step_def llseek_step_def ioctl_step_def unlock_step_def Let_def)

lemma lock_then:
  assumes "bindR (lock_buff env k) (\<lambda>(interrupted, k). if interrupted then Inr (- ERESTARTSYS, k) else g k) = Inr y"
  obtains (signal) "take_buff env k = Some (True, tick k)" "y = (- ERESTARTSYS, tick k)"
  | (locked) "take_buff env k = Some (False, (tick k)\<lparr>buffMutex := True\<rparr>)"
      "g ((tick k)\<lparr>buffMutex := True\<rparr>) = Inr y"
  using assms by (auto simp: lock_buff_def take_buff_def split: if_splits)

lemma read_alone:
  assumes t: "d_todo t = SysRead n # cs" "d_place t = Entry"
    and r: "aesd_read env (d_file t) n (kern s) = Inr (r, bs, f, k)"
  shows "returns env i t s r bs f k"
proof -
  let ?k = "(tick (kern s))\<lparr>buffMutex := True\<rparr>"
  let ?pos = "f_pos (d_file t) + lseekPos (kern s)"
  let ?t1 = "t\<lparr>d_place := ReadFind\<rparr>" and ?s1 = "s\<lparr>kern := ?k\<rparr>"
  have pd: "private_data (d_file t) \<noteq> None" using r by (auto simp: aesd_read_def split: if_splits)
  note defs = driver_step_def read_step_def Let_def lock_step_def
  show ?thesis
  proof (cases "lock_interrupted env (clock (kern s))")
    case True
    with r t pd show ?thesis
      by (intro returns_now [where h = "history s"]) (auto simp: defs aesd_read_def lock_buff_def take_buff_def)
  next
    case ni: False
    with r pd have nb: "\<not> buffMutex (kern s)" by (auto simp: aesd_read_def lock_buff_def)
    have lock: "driver_step env i t s = Some (Inr (?t1, ?s1))"
      using t pd ni nb by (simp add: defs take_buff_def)
    show ?thesis
    proof (cases "aesd_circular_buffer_find_entry_offset_for_fpos (buff ?k) ?pos")
      case None
      then have res: "r = 0" "bs = []" "f = d_file t" "k = unlock_buff ?k"
        using r pd ni nb by (simp_all add: aesd_read_def lock_buff_def)
      let ?s2 = "?s1\<lparr>history := history s @ [Delivered i ?pos n []]\<rparr>"
      have "returns env i (?t1\<lparr>d_place := UnlockBuff 0 []\<rparr>) ?s2 r bs f k"
        using t res by (intro returns_unlock [where cs = cs]) auto
      then have "returns env i ?t1 ?s1 r bs f k"
        by (rule returns_step [rotated]) (use None t in \<open>simp_all add: defs reply_def\<close>)
      with lock show ?thesis by (rule returns_step) (simp_all add: reply_def)
    next
      case (Some so)
      obtain slot off where so: "so = (slot, off)" by (cases so)
      let ?e = "entry (buff (kern s)) ! slot"
      define m where "m = (if esize ?e - off < n then esize ?e - off else n)"
      obtain bytes where rd: "kread (kheap (kern s)) (buffptr ?e) (unat off) (unat m) = Inr bytes"
        "r = m - not_copied env (clock ?k) m" "bs = take (unat r) bytes"
        "f = (d_file t)\<lparr>f_pos := f_pos (d_file t) + r\<rparr>" "k = unlock_buff (tick ?k)"
        using r pd ni nb Some so
        by (auto simp: aesd_read_def lock_buff_def Let_def bindR_Inr_iff m_def)
      let ?t2 = "?t1\<lparr>d_place := ReadCopy slot off ?pos\<rparr>"
      let ?t3 = "?t2\<lparr>d_file := f, d_place := UnlockBuff r bs\<rparr>"
      let ?s3 = "?s1\<lparr>kern := tick ?k, history := history s @ [Delivered i ?pos n bs]\<rparr>"
      have "returns env i ?t3 ?s3 r bs f k"
        using t rd by (intro returns_unlock [where cs = cs]) auto
      then have "returns env i ?t2 ?s1 r bs f k"
        by (rule returns_step [rotated])
          (use t rd in \<open>(cases "esize ?e - off < n"; simp add: defs m_def reply_def)+\<close>)
      then have "returns env i ?t1 ?s1 r bs f k"
        by (rule returns_step [rotated]) (use Some so t in \<open>simp_all add: defs reply_def\<close>)
      with lock show ?thesis by (rule returns_step) (simp_all add: reply_def)
    qed
  qed
qed

lemma llseek_alone:
  assumes t: "d_todo t = SysLlseek off w # cs" "d_place t = Entry"
    and r: "aesd_llseek env (d_file t) off w (kern s) = Inr (r, k)"
  shows "returns env i t s r [] (d_file t) k"
proof -
  let ?k = "(tick (kern s))\<lparr>buffMutex := True\<rparr>"
  have pd: "private_data (d_file t) \<noteq> None" using r by (auto simp: aesd_llseek_def split: if_splits)
  note defs = driver_step_def llseek_step_def Let_def lock_step_def
  show ?thesis
  proof (cases "lock_interrupted env (clock (kern s))")
    case True
    with r t pd show ?thesis
      by (intro returns_now [where h = "history s"]) (auto simp: defs aesd_llseek_def lock_buff_def take_buff_def)
  next
    case ni: False
    with r pd have nb: "\<not> buffMutex (kern s)" by (auto simp: aesd_llseek_def lock_buff_def)
    define k1 where "k1 = (if w = SEEK_SET then ?k\<lparr>lseekPos := off\<rparr>
      else if w = SEEK_CUR then ?k\<lparr>lseekPos := lseekPos ?k + off\<rparr>
      else if w = SEEK_END then ?k\<lparr>lseekPos := aesd_circular_buffer_get_size (buff ?k)\<rparr> else ?k)"
    have res: "r = lseekPos k1" "k = unlock_buff k1"
      using r pd ni nb by (simp_all add: aesd_llseek_def lock_buff_def k1_def Let_def)
    let ?t1 = "t\<lparr>d_place := SeekSet\<rparr>" and ?s1 = "s\<lparr>kern := ?k\<rparr>" and ?s2 = "s\<lparr>kern := k1\<rparr>"
    have "returns env i (?t1\<lparr>d_place := UnlockBuff r []\<rparr>) ?s2 r [] (d_file t) k"
      using t res by (intro returns_unlock [where cs = cs]) auto
    then have "returns env i (?t1\<lparr>d_place := SeekGet\<rparr>) ?s2 r [] (d_file t) k"
      by (rule returns_step [rotated]) (use t res in \<open>simp_all add: defs reply_def\<close>)
    then have "returns env i ?t1 ?s1 r [] (d_file t) k"
      by (rule returns_step [rotated]) (use t in \<open>simp_all add: defs k1_def reply_def\<close>)
    then show ?thesis
      by (rule returns_step [rotated]) (use t pd ni nb in \<open>simp_all add: defs take_buff_def reply_def\<close>)
  qed
qed

lemma ioctl_alone:
  assumes t: "d_todo t = SysIoctl cmd arg # cs" "d_place t = Entry"
    and r: "aesd_ioctl env (d_file t) cmd arg (kern s) = Inr (r, k)"
  shows "returns env i t s r [] (d_file t) k"
proof -
  note defs = driver_step_def ioctl_step_def Let_def lock_step_def
  show ?thesis
  proof (cases "cmd = AESDCHAR_IOCSEEKTO \<and> user_seekto env (clock (kern s)) arg \<noteq> None")
    case False
    with r t show ?thesis
      by (intro returns_now [where h = "history s"])
        (auto simp: defs aesd_ioctl_def IOCSEEKTO_accepted split: if_splits)
  next
    case True
    then obtain st where st: "cmd = AESDCHAR_IOCSEEKTO" "user_seekto env (clock (kern s)) arg = Some st" by blast
    let ?copied = "tick (kern s)"
    let ?locked = "(tick ?copied)\<lparr>buffMutex := True\<rparr>"
    let ?t0 = "t\<lparr>d_place := IoctlLock st\<rparr>" and ?s0 = "s\<lparr>kern := ?copied\<rparr>"
    have pd: "private_data (d_file t) \<noteq> None"
      using r st by (auto simp: aesd_ioctl_def IOCSEEKTO_accepted split: if_splits)
    have "returns env i ?t0 ?s0 r [] (d_file t) k"
    proof (cases "lock_interrupted env (clock ?copied)")
      case True
      with r t pd st show ?thesis
        by (intro returns_now [where h = "history s"])
          (auto simp: defs aesd_ioctl_def IOCSEEKTO_accepted lock_buff_def take_buff_def reply_def)
    next
      case ni: False
      with r pd st have nb: "\<not> buffMutex ?copied" by (auto simp: aesd_ioctl_def IOCSEEKTO_accepted lock_buff_def)
      let ?t1 = "?t0\<lparr>d_place := IoctlSeek st\<rparr>" and ?s1 = "s\<lparr>kern := ?locked\<rparr>"
      have seek: "\<exists>k1. driver_step env i ?t1 ?s1 = Some (Inr (?t1\<lparr>d_place := UnlockBuff r []\<rparr>, s\<lparr>kern := k1\<rparr>)) \<and>
          k = unlock_buff k1"
        using r pd st ni nb t
        by (auto simp: aesd_ioctl_def IOCSEEKTO_accepted lock_buff_def defs split: if_splits)
      then obtain k1 where k1: "k = unlock_buff k1"
        "driver_step env i ?t1 ?s1 = Some (Inr (?t1\<lparr>d_place := UnlockBuff r []\<rparr>, s\<lparr>kern := k1\<rparr>))" by blast
      have "returns env i (?t1\<lparr>d_place := UnlockBuff r []\<rparr>) (s\<lparr>kern := k1\<rparr>) r [] (d_file t) k"
        using t k1(1) by (intro returns_unlock [where cs = cs]) auto
      with k1(2) have "returns env i ?t1 ?s1 r [] (d_file t) k"
        by (rule returns_step) (simp_all add: reply_def)
      then show ?thesis
        by (rule returns_step [rotated]) (use t pd ni nb in \<open>simp_all add: defs take_buff_def reply_def\<close>)
    qed
    then show ?thesis
      by (rule returns_step [rotated]) (use t st in \<open>simp_all add: defs IOCSEEKTO_accepted reply_def\<close>)
  qed
qed

section \<open>Write\<close>

text \<open>\<open>FlushPartial\<close> in steps, whatever it returns.\<close>

lemma flush_alone:
  assumes t: "d_todo t = SysWrite buf count # cs" "d_place t = FlushLock b" and k: "kern s = k"
    and r: "FlushPartial env k = Inr (q, k')"
  shows "\<exists>h. solo env i t s (t\<lparr>d_place := Scan 0 b\<rparr>) (s\<lparr>kern := k', history := h\<rparr>)"
proof -
  note defs = driver_step_def write_step_def flush_step_def Let_def
  let ?fin = "t\<lparr>d_place := Scan 0 b\<rparr>"
  show ?thesis
  proof (cases "lock_interrupted env (clock k)")
    case True
    then have "driver_step env i t s = Some (Inr (?fin, s\<lparr>kern := k', history := history s\<rparr>))"
      using r t k by (simp add: FlushPartial_def lock_buff_def defs take_buff_def)
    then show ?thesis by (blast intro: solo_step)
  next
    case ni: False
    with r have nb: "\<not> buffMutex k" by (auto simp: FlushPartial_def lock_buff_def)
    let ?locked = "(tick k)\<lparr>buffMutex := True\<rparr>"
    let ?t1 = "t\<lparr>d_place := FlushAdd b\<rparr>" and ?s1 = "s\<lparr>kern := ?locked\<rparr>"
    have lock: "driver_step env i t s = Some (Inr (?t1, ?s1))"
      using t k ni nb by (simp add: defs take_buff_def)
    have "\<exists>h. solo env i ?t1 ?s1 ?fin (s\<lparr>kern := k', history := h\<rparr>)"
    proof (cases "buffPtr (stage k) = None")
      case True
      then have "driver_step env i ?t1 ?s1 = Some (Inr (?fin, s\<lparr>kern := k', history := history s\<rparr>))"
        using r t ni nb by (auto simp: FlushPartial_def lock_buff_def defs)
      then show ?thesis by (blast intro: solo_step)
    next
      case some: False
      obtain rb p hp where rb: "aesd_circular_buffer_add_entry (buff k)
          \<lparr>buffptr = buffPtr (stage k), esize = endIdx (stage k)\<rparr> = Inr (rb, p)"
        "kfree (kheap k) p = Inr hp"
        "k' = unlock_buff (?locked\<lparr>buff := rb, kheap := hp, stage := (stage k)\<lparr>buffPtr := None, endIdx := 0\<rparr>\<rparr>)"
        using r some ni nb by (auto simp: FlushPartial_def lock_buff_def bindR_Inr_iff)
      let ?h = "history s @ [Published (dev_partial ?locked)]"
      let ?s2 = "s\<lparr>kern := ?locked\<lparr>buff := rb\<rparr>, history := ?h\<rparr>"
      let ?s3 = "s\<lparr>kern := ?locked\<lparr>buff := rb, kheap := hp\<rparr>, history := ?h\<rparr>"
      let ?s4 = "s\<lparr>kern := ?locked\<lparr>buff := rb, kheap := hp, stage := (stage k)\<lparr>buffPtr := None, endIdx := 0\<rparr>\<rparr>,
        history := ?h\<rparr>"
      have "driver_step env i ?t1 ?s1 = Some (Inr (t\<lparr>d_place := FlushFree b p\<rparr>, ?s2))"
        "driver_step env i (t\<lparr>d_place := FlushFree b p\<rparr>) ?s2 = Some (Inr (t\<lparr>d_place := FlushReset b\<rparr>, ?s3))"
        "driver_step env i (t\<lparr>d_place := FlushReset b\<rparr>) ?s3 = Some (Inr (t\<lparr>d_place := FlushUnlock b\<rparr>, ?s4))"
        "driver_step env i (t\<lparr>d_place := FlushUnlock b\<rparr>) ?s4 = Some (Inr (?fin, s\<lparr>kern := k', history := ?h\<rparr>))"
        using t some rb by (auto simp: defs)
      then show ?thesis by (blast intro: solo_step)
    qed
    with lock show ?thesis by (blast intro: solo_step)
  qed
qed

text \<open>Where the scan leads, from the result of \<open>write_loop\<close>.\<close>

definition scan_end :: "size_t \<Rightarrow> nat option \<Rightarrow> dplace" where
  "scan_end count x = (case x of None \<Rightarrow> UnlockEntry (- ENOMEM)
     | Some b \<Rightarrow> if b < unat count then Tail b else UnlockEntry count)"

lemma scan_alone:
  "write_loop env buf n j b k = Inr (x, k') \<Longrightarrow> n = unat count \<Longrightarrow>
   d_todo t = SysWrite buf count # cs \<Longrightarrow> d_place t = Scan j b \<Longrightarrow> kern s = k \<Longrightarrow>
   \<exists>h. solo env i t s (t\<lparr>d_place := scan_end count x\<rparr>) (s\<lparr>kern := k', history := h\<rparr>)"
proof (induction env buf n j b k arbitrary: t s rule: write_loop.induct)
  case (1 env buf n j b k)
  note pre = "1.prems"
  note defs = driver_step_def write_step_def Let_def
  show ?case
  proof (cases "b + j < n")
    case False
    then have "x = Some b" "k' = k" using pre(1) by (simp_all add: write_loop.simps)
    then have "driver_step env i t s = Some (Inr (t\<lparr>d_place := scan_end count x\<rparr>, s\<lparr>kern := k', history := history s\<rparr>))"
      using False pre(2-5) by (simp add: defs scan_end_def)
    then show ?thesis by (blast intro: solo_step)
  next
    case lt: True
    then have len: "b + j < length buf" using pre(1) by (simp add: write_loop.simps split: if_splits)
    show ?thesis
    proof (cases "buf ! (b + j) = NL")
      case False
      have "write_loop env buf n (Suc j) b k = Inr (x, k')"
        using pre(1) lt len False by (subst (asm) write_loop.simps) simp
      moreover have "\<not> \<not> b + j < length buf" using len by simp
      ultimately obtain h where "solo env i (t\<lparr>d_place := Scan (Suc j) b\<rparr>) s
          (t\<lparr>d_place := scan_end count x\<rparr>) (s\<lparr>kern := k', history := h\<rparr>)"
        using "1.IH"(2) [OF lt _ False, of "t\<lparr>d_place := Scan (Suc j) b\<rparr>" s] pre(2-5) by auto
      moreover have "driver_step env i t s = Some (Inr (t\<lparr>d_place := Scan (Suc j) b\<rparr>, s))"
        using lt len False pre(2-5) by (simp add: defs)
      ultimately show ?thesis by (blast intro: solo_step)
    next
      case nl: True
      let ?t1 = "t\<lparr>d_place := Store (Suc j) b\<rparr>"
      have first: "driver_step env i t s = Some (Inr (?t1, s))"
        using lt len nl pre(2-5) by (simp add: defs)
      obtain q k1 where sp: "StorePartial env (drop b buf) (of_nat (Suc j)) k = Inr (q, k1)"
        using pre(1) lt len nl by (subst (asm) write_loop.simps) (auto simp: bindR_Inr_iff)
      show ?thesis
      proof (cases "q = 0")
        case False
        then have "x = None" "k' = k1"
          using pre(1) lt len nl sp by (simp_all add: write_loop.simps [of env buf n j])
        then have "driver_step env i ?t1 s
            = Some (Inr (t\<lparr>d_place := scan_end count x\<rparr>, s\<lparr>kern := k', history := history s\<rparr>))"
          using False sp pre(3-5) by (simp add: defs scan_end_def)
        with first show ?thesis by (blast intro: solo_step)
      next
        case True
        obtain e k2 where fl: "FlushPartial env k1 = Inr (e, k2)"
          "write_loop env buf n 0 (b + Suc j) k2 = Inr (x, k')"
          using pre(1) lt len nl sp True
          by (auto simp: write_loop.simps [of env buf n j] bindR_Inr_iff simp del: add_Suc_right)
        let ?t2 = "t\<lparr>d_place := FlushLock (b + Suc j)\<rparr>" and ?s2 = "s\<lparr>kern := k1\<rparr>"
        have second: "driver_step env i ?t1 s = Some (Inr (?t2, ?s2))"
          using True sp pre(3-5) by (simp add: defs)
        obtain h where fa: "solo env i ?t2 ?s2 (?t2\<lparr>d_place := Scan 0 (b + Suc j)\<rparr>) (?s2\<lparr>kern := k2, history := h\<rparr>)"
          using flush_alone [OF _ _ _ fl(1), of ?t2 buf count cs "b + Suc j" ?s2 i] pre(3) by auto
        let ?t3 = "t\<lparr>d_place := Scan 0 (b + Suc j)\<rparr>" and ?s3 = "s\<lparr>kern := k2, history := h\<rparr>"
        have nn: "\<not> \<not> b + j < length buf" "\<not> q \<noteq> 0" using len True by simp_all
        obtain h2 where "solo env i ?t3 ?s3 (t\<lparr>d_place := scan_end count x\<rparr>) (s\<lparr>kern := k', history := h2\<rparr>)"
          using "1.IH"(1) [OF lt nn(1) nl sp refl nn(2) fl(1) refl fl(2), of ?t3 ?s3] pre(2,3) by auto
        with fa have "solo env i ?t2 ?s2 (t\<lparr>d_place := scan_end count x\<rparr>) (s\<lparr>kern := k', history := h2\<rparr>)"
          by (auto intro: solo_trans)
        with first second show ?thesis by (blast intro: solo_step)
      qed
    qed
  qed
qed

text \<open>What follows the loop, and what follows the entry into the mutex.\<close>

lemma unlock_alone:
  "d_todo t = SysWrite buf count # cs \<Longrightarrow>
     returns env i (t\<lparr>d_place := UnlockEntry q\<rparr>) (s\<lparr>kern := k, history := h\<rparr>) q [] (d_file t) (unlock_entry k)"
  by (intro returns_now [where h = h]) (simp add: driver_step_def write_step_def Let_def reply_def)

lemma write_tail_alone:
  assumes t: "d_todo t = SysWrite buf count # cs"
    and rest: "(case x of None \<Rightarrow> Inr (- ENOMEM, unlock_entry k)
      | Some b \<Rightarrow> if b < unat count
          then bindR (StorePartial env (drop b buf) (count - of_nat b) k) (\<lambda>(_, s). Inr (count, unlock_entry s))
          else Inr (count, unlock_entry k)) = Inr (r, k')"
  shows "returns env i (t\<lparr>d_place := scan_end count x\<rparr>) (s\<lparr>kern := k, history := h\<rparr>) r [] (d_file t) k'"
proof (cases "\<exists>b. x = Some b \<and> b < unat count")
  case False
  then have "scan_end count x = UnlockEntry r" "k' = unlock_entry k"
    using rest by (cases x; auto simp: scan_end_def)+
  with unlock_alone [OF t] show ?thesis by simp
next
  case True
  then obtain b where b: "x = Some b" "b < unat count" by blast
  then obtain q k1 where sp: "StorePartial env (drop b buf) (count - of_nat b) k = Inr (q, k1)"
    "count = r" "k' = unlock_entry k1"
    using rest by (auto simp: bindR_Inr_iff)
  have step: "driver_step env i (t\<lparr>d_place := Tail b\<rparr>) (s\<lparr>kern := k, history := h\<rparr>)
      = Some (Inr (t\<lparr>d_place := UnlockEntry count\<rparr>, s\<lparr>kern := k1, history := h\<rparr>))"
    using t sp(1) by (simp add: driver_step_def write_step_def Let_def)
  from returns_step [OF step, of r "[]" "d_file t" k'] unlock_alone [OF t, where q = count and s = s and k = k1 and h = h and i = i and env = env] sp(2,3) b
  show ?thesis by (simp add: reply_def scan_end_def)
qed

lemma write_checked_alone:
  assumes t: "d_todo t = SysWrite buf count # cs"
    and body: "(if count > stage_size (stage k) \<or> endIdx (stage k) + count > stage_size (stage k)
      then Inr (- ENOMEM, unlock_entry k)
      else bindR (write_loop env buf (unat count) 0 0 k) (\<lambda>(r, s).
        case r of None \<Rightarrow> Inr (- ENOMEM, unlock_entry s)
        | Some b \<Rightarrow> if b < unat count
            then bindR (StorePartial env (drop b buf) (count - of_nat b) s) (\<lambda>(_, s). Inr (count, unlock_entry s))
            else Inr (count, unlock_entry s))) = Inr (r, k')"
  shows "returns env i (t\<lparr>d_place := WriteCheck\<rparr>) (s\<lparr>kern := k\<rparr>) r [] (d_file t) k'"
proof -
  note defs = driver_step_def write_step_def Let_def
  let ?t1 = "t\<lparr>d_place := WriteCheck\<rparr>" and ?s1 = "s\<lparr>kern := k\<rparr>"
  show ?thesis
  proof (cases "count > stage_size (stage k) \<or> endIdx (stage k) + count > stage_size (stage k)")
    case True
    then have res: "r = - ENOMEM" "k' = unlock_entry k" using body by auto
    have step: "driver_step env i ?t1 ?s1
        = Some (Inr (t\<lparr>d_place := UnlockEntry (- ENOMEM)\<rparr>, s\<lparr>kern := k, history := history s\<rparr>))"
      using True t by (auto simp: defs)
    from returns_step [OF step, of r "[]" "d_file t" k'] unlock_alone [OF t, where q = "- ENOMEM" and s = s and k = k and h = "history s" and i = i and env = env] res
    show ?thesis by (simp add: reply_def)
  next
    case fits: False
    obtain x k2 where loop: "write_loop env buf (unat count) 0 0 k = Inr (x, k2)"
      using body fits by (auto simp: bindR_Inr_iff)
    let ?t2 = "t\<lparr>d_place := Scan 0 0\<rparr>" and ?s2 = "s\<lparr>kern := k, history := history s @ [Accepted i buf]\<rparr>"
    obtain h where scan: "solo env i ?t2 ?s2 (t\<lparr>d_place := scan_end count x\<rparr>) (s\<lparr>kern := k2, history := h\<rparr>)"
      using scan_alone [OF loop refl, of ?t2 cs ?s2 i] t by auto
    have "returns env i (t\<lparr>d_place := scan_end count x\<rparr>) (s\<lparr>kern := k2, history := h\<rparr>) r [] (d_file t) k'"
      using body fits loop by (intro write_tail_alone [OF t]) auto
    then obtain h2 where "solo env i ?t2 ?s2 (reply r [] t) (s\<lparr>kern := k', history := h2\<rparr>)"
      using scan by (auto simp: returns_def reply_def intro: solo_trans)
    moreover have "driver_step env i ?t1 ?s1 = Some (Inr (?t2, ?s2))"
      using fits t by (simp add: defs)
    ultimately have "solo env i ?t1 ?s1 (reply r [] t) (s\<lparr>kern := k', history := h2\<rparr>)"
      by (blast intro: solo_step)
    then show ?thesis by (auto simp: returns_def reply_def)
  qed
qed

lemma write_alone:
  assumes t: "d_todo t = SysWrite buf count # cs" "d_place t = Entry"
    and r: "aesd_write env (d_file t) buf count (kern s) = Inr (r, k)"
  shows "returns env i t s r [] (d_file t) k"
proof -
  note defs = driver_step_def write_step_def Let_def
  have pd: "private_data (d_file t) \<noteq> None" using r by (auto simp: aesd_write_def split: if_splits)
  define k0 where "k0 = (kern s)\<lparr>stage := (stage (kern s))\<lparr>stage_size := KMALLOC_MAX_SIZE env\<rparr>\<rparr>"
  let ?t0 = "t\<lparr>d_place := WriteLock\<rparr>" and ?s0 = "s\<lparr>kern := k0\<rparr>"
  have enter: "driver_step env i t s = Some (Inr (?t0, ?s0))"
    using t pd by (simp add: defs k0_def)
  have "returns env i ?t0 ?s0 r [] (d_file t) k"
  proof (cases "lock_interrupted env (clock k0)")
    case True
    have res: "r = - ERESTARTSYS" "k = tick k0"
      using r pd True by (simp_all add: aesd_write_def lock_entry_def k0_def)
    show ?thesis
      using t True by (intro returns_now [where h = "history s"])
        (simp_all add: defs lock_step_def take_entry_def reply_def res)
  next
    case ni: False
    then have nb: "\<not> entryMutex k0" using r pd by (auto simp: aesd_write_def lock_entry_def k0_def)
    let ?k1 = "(tick k0)\<lparr>entryMutex := True\<rparr>"
    have "returns env i (t\<lparr>d_place := WriteCheck\<rparr>) (s\<lparr>kern := ?k1\<rparr>) r [] (d_file t) k"
      using r pd ni nb by (intro write_checked_alone [OF t(1)]) (auto simp: aesd_write_def lock_entry_def k0_def Let_def split: if_splits)
    moreover have "driver_step env i ?t0 ?s0 = Some (Inr (t\<lparr>d_place := WriteCheck\<rparr>, s\<lparr>kern := ?k1\<rparr>))"
      using t ni nb by (simp add: defs lock_step_def take_entry_def)
    ultimately show ?thesis by (auto intro: returns_step simp: reply_def)
  qed
  with enter show ?thesis by (rule returns_step) (simp_all add: reply_def)
qed

section \<open>Agreement\<close>

lemma call_alone:
  assumes "d_todo t = c # cs" "d_place t = Entry" "alone env c (d_file t) (kern s) = Inr (r, bs, f, k)"
  shows "returns env i t s r bs f k"
proof (cases c)
  case SysOpen
  with assms show ?thesis
    by (intro returns_now [where h = "history s"])
      (auto simp: driver_step_def open_step_def aesd_open_def)
next
  case SysRelease
  with assms show ?thesis
    by (intro returns_now [where h = "history s"])
      (auto simp: driver_step_def release_step_def aesd_release_def)
next
  case (SysRead n)
  with assms show ?thesis by (auto intro: read_alone)
next
  case (SysLlseek off w)
  with assms show ?thesis by (auto simp: bindR_Inr_iff intro: llseek_alone)
next
  case (SysIoctl cmd arg)
  with assms show ?thesis by (auto simp: bindR_Inr_iff intro: ioctl_alone)
next
  case (SysWrite buf count)
  with assms show ?thesis by (auto simp: bindR_Inr_iff intro: write_alone)
qed

text \<open>
  C9. The steps of an operation add up to the operation: when the tasks are at rest and one
  of them makes a call that no other interrupts, the schedule that runs only this task
  gives it the answer that the function of the call returns, with the same bytes, the same
  open file and the same state of the device; nobody else is changed. So what is proved of
  \<open>aesd_read\<close>, \<open>aesd_write\<close>, \<open>aesd_llseek\<close>, \<open>aesd_ioctl\<close>, \<open>aesd_open\<close> and
  \<open>aesd_release\<close> as functions holds of the calls in steps.
\<close>

theorem uninterrupted_call_agrees:
  assumes "i < length ts" and "d_place (ts ! i) = Entry" and "d_todo (ts ! i) = c # cs"
    and "alone env c (d_file (ts ! i)) (kern s) = Inr (r, bs, f, k)"
  shows "\<exists>n h. run_schedule (driver_step env) (replicate n i) ts s =
    Inr (ts[i := (ts ! i)\<lparr>d_file := f, d_todo := cs, d_answers := d_answers (ts ! i) @ [(r, bs)]\<rparr>],
      s\<lparr>kern := k, history := h\<rparr>)"
proof -
  obtain h where "solo env i (ts ! i) s (reply r bs ((ts ! i)\<lparr>d_file := f\<rparr>)) (s\<lparr>kern := k, history := h\<rparr>)"
    using call_alone [OF assms(3,2,4)] by (auto simp: returns_def)
  from solo_schedule [OF this assms(1) refl] obtain n where
    run: "run_schedule (driver_step env) (replicate n i) ts s
      = Inr (ts[i := reply r bs ((ts ! i)\<lparr>d_file := f\<rparr>)], s\<lparr>kern := k, history := h\<rparr>)" by blast
  have "reply r bs ((ts ! i)\<lparr>d_file := f\<rparr>)
      = (ts ! i)\<lparr>d_file := f, d_todo := cs, d_answers := d_answers (ts ! i) @ [(r, bs)]\<rparr>"
    using assms(2,3) by (cases "ts ! i") (simp add: reply_def)
  with run show ?thesis by (simp only:) blast
qed

theorem uninterrupted_call_agrees_witness:
  "\<exists>n h k'. aesd_write demo_env demo_file demo_input 7 start_state = Inr (7, k') \<and>
     run_schedule (driver_step demo_env) (replicate n 0) demo_tasks demo_shared =
       Inr (demo_tasks[0 := (demo_task [])\<lparr>d_answers := [(7, [])]\<rparr>], demo_shared\<lparr>kern := k', history := h\<rparr>)"
proof -
  have pd: "private_data demo_file \<noteq> None" by (simp add: demo_file_def)
  have len: "length demo_input = unat (7 :: size_t)" by simp
  have fits: "fits_stage demo_env start_state 7"
    by (simp add: fits_stage_def start_state_facts demo_env_def)
  obtain k' where w: "aesd_write demo_env demo_file demo_input 7 start_state = Inr (7, k')"
    using aesd_write_lines [OF start_state_inv start_state_facts(1) demo_env_ok pd len fits] by fastforce
  have t: "0 < length demo_tasks" "d_place (demo_tasks ! 0) = Entry"
    "d_todo (demo_tasks ! 0) = SysWrite demo_input 7 # []"
    by (simp_all add: demo_tasks_def demo_task_def)
  have "alone demo_env (SysWrite demo_input 7) (d_file (demo_tasks ! 0)) (kern demo_shared) = Inr (7, [], demo_file, k')"
    using w by (simp add: demo_tasks_def demo_task_def demo_shared_def)
  from uninterrupted_call_agrees [OF t this] obtain n h where
    "run_schedule (driver_step demo_env) (replicate n 0) demo_tasks demo_shared =
      Inr (demo_tasks[0 := (demo_tasks ! 0)\<lparr>d_file := demo_file, d_todo := [],
        d_answers := d_answers (demo_tasks ! 0) @ [(7, [])]\<rparr>], demo_shared\<lparr>kern := k', history := h\<rparr>)" by blast
  then show ?thesis using w by (auto simp: demo_tasks_def demo_task_def)
qed

end
