(* ===== verification/Driver_Races.thy ===== *)
theory Driver_Races
  imports Driver_Alone
begin

text \<open>
  What the mutexes of \<open>aesd-char-driver/main.c\<close> do not protect. The seek position is one for
  the whole device, and \<open>aesd_release\<close> sets it back without a mutex, so that closing one open
  file changes what another one reads. And a write of several lines is not one step for
  readers.
\<close>

section \<open>Closing a file moves the position of another\<close>

lemma call_then:
  assumes "i < length ts" "d_place (ts ! i) = Entry" "d_todo (ts ! i) = c # cs"
    and "alone env c (d_file (ts ! i)) k = Inr (r, bs, f, k')"
  shows "\<exists>n h'. run_schedule (driver_step env) (replicate n i) ts \<lparr>kern = k, history = h\<rparr> =
    Inr (ts[i := (ts ! i)\<lparr>d_file := f, d_todo := cs, d_answers := d_answers (ts ! i) @ [(r, bs)]\<rparr>],
      \<lparr>kern = k', history = h'\<rparr>)"
proof -
  obtain h' where "solo env i (ts ! i) \<lparr>kern = k, history = h\<rparr> (reply r bs ((ts ! i)\<lparr>d_file := f\<rparr>))
      \<lparr>kern = k', history = h'\<rparr>"
    using call_alone [OF assms(3,2), of env "\<lparr>kern = k, history = h\<rparr>" r bs f k' i] assms(4)
    by (auto simp: returns_def)
  from solo_schedule [OF this assms(1) refl] show ?thesis
    using assms(2,3) by (cases "ts ! i") (auto simp: reply_def)
qed

text \<open>The last call of task 0, among two, after a call that was answered \<open>0\<close>.\<close>

lemma read_last:
  assumes "d_place A = Entry" "d_todo A = [SysRead count]" "d_answers A = [(0, [])]"
    and "aesd_read env (d_file A) count k = Inr (r, bs, f, k')"
  shows "\<exists>m ts s. run_schedule (driver_step env) (replicate m 0) [A, B] \<lparr>kern = k, history = h\<rparr> = Inr (ts, s) \<and>
    map snd (d_answers (ts ! 0)) = [[], bs]"
proof -
  have "alone env (SysRead count) (d_file ([A, B] ! 0)) k = Inr (r, bs, f, k')" using assms(4) by simp
  from call_then [OF _ _ _ this, of "[]" h] assms(1-3) show ?thesis by fastforce
qed

lemma close_once:
  "d_place B = Entry \<Longrightarrow> d_todo B = [SysRelease] \<Longrightarrow>
     \<exists>B'. run_schedule (driver_step env) [1] [A, B] \<lparr>kern = k, history = h\<rparr>
       = Inr ([A, B'], \<lparr>kern = k\<lparr>lseekPos := 0\<rparr>, history = h\<rparr>)"
  by (simp add: driver_step_def release_step_def aesd_release_def)

text \<open>
  The close of one open file undoes the seek of another. A task that seeks to a stored
  write command with the \<open>ioctl\<close> and then reads gets the rest of that write from the offset
  on if nobody is in between; if another task closes its own file between the two calls,
  the same read succeeds as well but delivers from the very start of the data.
\<close>

theorem release_undoes_seek:
  fixes A B :: dtask
  assumes dev: "dev_inv env k" "idle k" "env_ok env"
    and quiet: "\<forall>n. \<not> lock_interrupted env n" "\<forall>n m. not_copied env n m = 0"
    and A: "d_place A = Entry" "d_todo A = [SysIoctl AESDCHAR_IOCSEEKTO arg, SysRead count]"
      "private_data (d_file A) \<noteq> None" "f_pos (d_file A) = 0" "d_answers A = []"
    and B: "d_place B = Entry" "d_todo B = [SysRelease]"
    and seek: "user_seekto env (clock k) arg = Some st" "unat (write_cmd st) < length (dev_lines k)"
      "unat (write_cmd_offset st) < length (dev_lines k ! unat (write_cmd st))" "0 < unat count"
  shows "(\<exists>n m ts s. run_schedule (driver_step env) (replicate n 0 @ replicate m 0) [A, B] \<lparr>kern = k, history = h\<rparr>
      = Inr (ts, s) \<and> map snd (d_answers (ts ! 0)) =
      [[], take (unat count) (drop (unat (write_cmd_offset st)) (dev_lines k ! unat (write_cmd st)))]) \<and>
    (\<exists>n m ts s bs. run_schedule (driver_step env) (replicate n 0 @ [1] @ replicate m 0) [A, B] \<lparr>kern = k, history = h\<rparr>
      = Inr (ts, s) \<and> map snd (d_answers (ts ! 0)) = [[], bs] \<and>
      bs \<noteq> [] \<and> bs = take (length bs) (concat (dev_lines k)))" (is "?alone \<and> ?closed")
proof -
  let ?io = "SysIoctl AESDCHAR_IOCSEEKTO arg" and ?f = "d_file A"
  have ni: "\<not> lock_interrupted env (Suc (clock k))" using quiet(1) by blast
  have lim: "seek_limit k (unat (write_cmd st)) = Some (length (dev_lines k ! unat (write_cmd st)))"
    using seek(2) by (simp add: seek_limit_def)
  obtain k1 where k1: "aesd_ioctl env ?f AESDCHAR_IOCSEEKTO arg k = Inr (0, k1)" "dev_inv env k1" "idle k1"
    "dev_lines k1 = dev_lines k"
    using seekto_spec [OF dev A(3) seek(1) ni] seek(3) by (auto simp: lim)
  let ?A1 = "A\<lparr>d_file := ?f, d_todo := [SysRead count], d_answers := [(0, [])]\<rparr>"
  have "alone env ?io (d_file ([A, B] ! 0)) k = Inr (0, [], ?f, k1)" using k1(1) by simp
  from call_then [OF _ _ _ this, of "[SysRead count]" h] A obtain n h1 where
    first: "run_schedule (driver_step env) (replicate n 0) [A, B] \<lparr>kern = k, history = h\<rparr>
      = Inr ([?A1, B], \<lparr>kern = k1, history = h1\<rparr>)" by auto
  have A1: "d_place ?A1 = Entry" "d_todo ?A1 = [SysRead count]" "d_answers ?A1 = [(0, [])]"
    using A(1) by simp_all
  have ?alone
  proof -
    let ?rest = "take (unat count) (drop (unat (write_cmd_offset st)) (dev_lines k ! unat (write_cmd st)))"
    obtain ret f' k2 where "aesd_read env (d_file ?A1) count k1 = Inr (ret, ?rest, f', k2)"
      using seek_then_read [OF dev A(3) seek(1) ni seek(2,3) A(4) quiet, of count] k1(1) by auto
    from read_last [OF A1 this, of B h1] obtain m ts s where
      "run_schedule (driver_step env) (replicate m 0) [?A1, B] \<lparr>kern = k1, history = h1\<rparr> = Inr (ts, s)"
      "map snd (d_answers (ts ! 0)) = [[], ?rest]" by (elim exE conjE) (rule that)
    with first show ?thesis
      by (intro exI [of _ n] exI [of _ m] exI [of _ ts] exI [of _ s])
        (simp only: run_schedule_append bindR_simps prod.case simp_thms)
  qed
  moreover have ?closed
  proof -
    let ?k2 = "k1\<lparr>lseekPos := 0\<rparr>"
    obtain B1 where close: "run_schedule (driver_step env) [1] [?A1, B] \<lparr>kern = k1, history = h1\<rparr>
        = Inr ([?A1, B1], \<lparr>kern = ?k2, history = h1\<rparr>)" using close_once [OF B] by blast
    have inv2: "dev_inv env ?k2" "idle ?k2" using k1(2,3) by (simp_all add: idle_def)
    have ni2: "\<not> lock_interrupted env (clock ?k2)" using quiet(1) by blast
    have "concat (dev_lines k) \<noteq> []"
      using seek(2) dev_lines_nonempty [OF dev(1) nth_mem [OF seek(2)]] by force
    then obtain bs f' k3 where rd: "aesd_read env (d_file ?A1) count ?k2 = Inr (of_nat (length bs), bs, f', k3)"
      "bs = take (length bs) (concat (dev_lines k))" "bs \<noteq> []"
      using read_prefix [OF inv2 dev(3) A(3) ni2, of count] A(4) k1(4) quiet(2) seek(4)
      by (auto simp: unat_eq_zero)
    obtain m ts s where "run_schedule (driver_step env) (replicate m 0) [?A1, B1] \<lparr>kern = ?k2, history = h1\<rparr>
        = Inr (ts, s)" "map snd (d_answers (ts ! 0)) = [[], bs]"
      using read_last [OF A1 rd(1), of B1 h1] by (elim exE conjE) (rule that)
    moreover from this have "run_schedule (driver_step env) (replicate n 0 @ [1] @ replicate m 0) [A, B]
        \<lparr>kern = k, history = h\<rparr> = Inr (ts, s)"
      using first close by (simp only: run_schedule_append bindR_simps prod.case)
    ultimately show ?thesis
      using rd(2,3) by (intro exI [of _ n] exI [of _ m] exI [of _ ts] exI [of _ s] exI [of _ bs] conjI)
  qed
  ultimately show ?thesis ..
qed

theorem release_undoes_seek_witness:
  "\<exists>k n m ts s bs. dev_lines k = [[CHR ''a'', CHR ''b'', NL], [CHR ''c'', CHR ''d'', NL]] \<and> bs \<noteq> [] \<and>
     bs = take (length bs) [CHR ''a'', CHR ''b'', NL, CHR ''c'', CHR ''d'', NL] \<and>
     run_schedule (driver_step demo_env) (replicate n 0 @ [1] @ replicate m 0)
       [demo_task [SysIoctl AESDCHAR_IOCSEEKTO 4096, SysRead 100], demo_task [SysRelease]]
       \<lparr>kern = k, history = []\<rparr> = Inr (ts, s) \<and> map snd (d_answers (ts ! 0)) = [[], bs]"
proof -
  obtain k where k: "dev_inv demo_env k" "idle k"
    "dev_lines k = [[CHR ''a'', CHR ''b'', NL], [CHR ''c'', CHR ''d'', NL]]" "lseekPos k = 0"
    using demo_written by blast
  have env: "\<forall>n. \<not> lock_interrupted demo_env n" "\<forall>n m. not_copied demo_env n m = 0"
    "user_seekto demo_env (clock k) 4096 = Some \<lparr>write_cmd = 1, write_cmd_offset = 1\<rparr>"
    by (simp_all add: demo_env_def)
  let ?A = "demo_task [SysIoctl AESDCHAR_IOCSEEKTO 4096, SysRead 100]" and ?B = "demo_task [SysRelease]"
  have A: "d_place ?A = Entry" "d_todo ?A = [SysIoctl AESDCHAR_IOCSEEKTO 4096, SysRead 100]"
    "private_data (d_file ?A) \<noteq> None" "f_pos (d_file ?A) = 0" "d_answers ?A = []"
    and B: "d_place ?B = Entry" "d_todo ?B = [SysRelease]"
    by (simp_all add: demo_task_def demo_file_def)
  let ?st = "\<lparr>write_cmd = 1, write_cmd_offset = 1\<rparr> :: aesd_seekto"
  have seek: "unat (write_cmd ?st) < length (dev_lines k)"
    "unat (write_cmd_offset ?st) < length (dev_lines k ! unat (write_cmd ?st))" "0 < unat (100 :: size_t)"
    by (simp_all add: k(3))
  have data: "concat (dev_lines k) = [CHR ''a'', CHR ''b'', NL, CHR ''c'', CHR ''d'', NL]" by (simp add: k(3))
  note run = release_undoes_seek [OF k(1,2) demo_env_ok(1) env(1,2) A B env(3) seek, of "[]", THEN conjunct2]
  obtain n m ts s bs where r: "run_schedule (driver_step demo_env) (replicate n 0 @ [1] @ replicate m 0) [?A, ?B]
      \<lparr>kern = k, history = []\<rparr> = Inr (ts, s)" "map snd (d_answers (ts ! 0)) = [[], bs]"
    "bs \<noteq> []" "bs = take (length bs) [CHR ''a'', CHR ''b'', NL, CHR ''c'', CHR ''d'', NL]"
    using run unfolding data by (elim exE conjE) (rule that)
  show ?thesis by (intro exI conjI) (rule k(3) r)+
qed

text \<open>
  The position that \<open>llseek\<close> returns need not be the one it has set: the other task's close
  can come between the two, although \<open>aesd_llseek\<close> holds \<open>buffMutex\<close> all the time.
\<close>

lemma llseek_returns_other_position:
  assumes "\<not> lock_interrupted env (clock k)" "\<not> buffMutex k"
    and "d_place A = Entry" "d_todo A = [SysLlseek off SEEK_SET]" "private_data (d_file A) \<noteq> None" "d_answers A = []"
    and "d_place B = Entry" "d_todo B = [SysRelease]"
  shows "\<exists>ts s. run_schedule (driver_step env) [0, 0, 1, 0, 0] [A, B] \<lparr>kern = k, history = h\<rparr> = Inr (ts, s) \<and>
    d_answers (ts ! 0) = [(0, [])]"
  using assms
  by (simp add: driver_step_def llseek_step_def release_step_def lock_step_def take_buff_def unlock_step_def
      aesd_release_def reply_def Let_def seek_defs)

section \<open>A write of several lines is not one step\<close>

text \<open>
  A reader can see the first line of a \<open>write\<close> without the second, since each line is published
  under its own lock of \<open>buffMutex\<close>: the task writes the bytes of \<open>demo_input\<close> in one call,
  which returns 7, and the reader gets the first three of them.
\<close>

lemma half_a_write_is_read:
  "map_sum id (\<lambda>(ts, s). map d_answers ts)
     (run_schedule (driver_step demo_env) (replicate 12 0 @ replicate 4 1 @ replicate 40 0)
       [demo_task [SysWrite demo_input 7], demo_task [SysRead 100]] demo_shared)
   = Inr [[(7, [])], [(3, [CHR ''a'', CHR ''b'', NL])]]"
  by code_simp

end
