(* ===== verification/Threading.thy ===== *)
theory Threading
  imports Prelude "HOL-Library.Signed_Division"
begin

text \<open>
  The threading exercise, \<open>examples/threading/threading.c\<close>: sleeping for a number of
  milliseconds across signals, and threads that sleep, take a mutex, sleep and release
  it. The threads run interleaved: one step of one thread at a time, in any order.
\<close>

section \<open>\<open>millisleep\<close>\<close>

text \<open>\<open>long\<close> and \<open>time_t\<close> have 64 bits; \<open>tv_nsec\<close> is a \<open>long\<close>.\<close>

record timespec =
  tv_sec :: "64 word"
  tv_nsec :: "64 word"

definition EINTR :: int where "EINTR = 4"
definition NANOSLEEP_EINVAL :: int where "NANOSLEEP_EINVAL = 22"

text \<open>The length of a period in nanoseconds, and the period of a length.\<close>

definition nanoseconds :: "timespec \<Rightarrow> int" where
  "nanoseconds ts = sint (tv_sec ts) * 1000000000 + sint (tv_nsec ts)"

definition timespec_of :: "int \<Rightarrow> timespec" where
  "timespec_of n = \<lparr>tv_sec = of_int (n div 1000000000), tv_nsec = of_int (n mod 1000000000)\<rparr>"

text \<open>
  \<open>nanosleep(ts, ts)\<close>: its result, \<open>errno\<close> when that is -1, the period it leaves in
  \<open>ts\<close>, and how long it has slept. A signal that arrives before the end interrupts it.
\<close>

definition nanosleep :: "timespec \<Rightarrow> int option \<Rightarrow> int \<times> int \<times> timespec \<times> int" where
  "nanosleep ts signal =
     (if sint (tv_sec ts) < 0 \<or> sint (tv_nsec ts) < 0 \<or> sint (tv_nsec ts) > 999999999
      then (- 1, NANOSLEEP_EINVAL, ts, 0)
      else (case signal of
          None \<Rightarrow> (0, 0, ts, nanoseconds ts)
        | Some d \<Rightarrow>
            if nanoseconds ts \<le> d then (0, 0, ts, nanoseconds ts)
            else (- 1, EINTR, timespec_of (nanoseconds ts - d), d)))"

text \<open>
  \<open>signals\<close> lists, for each signal that arrives while the thread sleeps, after how many
  nanoseconds of the current call it does. The result of the loop and the time slept.
\<close>

fun millisleep_loop :: "int list \<Rightarrow> timespec \<Rightarrow> int \<Rightarrow> int \<times> int" where
  "millisleep_loop [] ts slept = (let (res, err, ts, t) = nanosleep ts None in (res, slept + t))"
| "millisleep_loop (d # signals) ts slept =
     (let (res, err, ts, t) = nanosleep ts (Some d) in
      if res \<noteq> 0 \<and> err = EINTR then millisleep_loop signals ts (slept + t)
      else (res, slept + t))"

definition millisleep :: "int list \<Rightarrow> 64 word \<Rightarrow> int \<times> int" where
  "millisleep signals milliseconds =
     millisleep_loop signals
       \<lparr>tv_sec = of_int (sint milliseconds sdiv 1000),
        tv_nsec = of_int (sint milliseconds smod 1000) * 1000000\<rparr> 0"

section \<open>Threads\<close>

text \<open>The structure that is allocated for a thread; a mutex is named by its address.\<close>

record thread_data =
  thread_complete_success :: bool
  wait_to_obtain_ms :: "32 word"
  wait_to_release_ms :: "32 word"
  mutex :: nat

text \<open>Where a thread is in \<open>threadfunc\<close>.\<close>

datatype place = FirstSleep | Locking | SecondSleep | Unlocking | Finishing | Returned

text \<open>
  The blocks allocated for the threads, who holds which mutex, and for every thread its
  argument and its place.
\<close>

record thread_state =
  blocks :: "nat \<rightharpoonup> thread_data"
  holder :: "nat \<rightharpoonup> nat"
  threads :: "nat \<rightharpoonup> nat \<times> place"

definition goto :: "nat \<Rightarrow> place \<Rightarrow> thread_state \<Rightarrow> thread_state" where
  "goto t pl s = s\<lparr>threads := (threads s)(t := map_option (\<lambda>(a, _). (a, pl)) (threads s t))\<rparr>"

text \<open>
  The next step of thread \<open>t\<close>; \<open>None\<close> when it has none: it waits for the mutex, or has
  returned. A sleep is a step: \<open>millisleep\<close> returns, and its result is not looked at.
\<close>

definition threadfunc :: "nat \<Rightarrow> thread_state \<Rightarrow> thread_state res option" where
  "threadfunc t s = (case threads s t of
     None \<Rightarrow> None
   | Some (a, pl) \<Rightarrow>
       (case blocks s a of
          None \<Rightarrow> Some (Inl UseAfterFree)
        | Some d \<Rightarrow>
            (case pl of
               FirstSleep \<Rightarrow> Some (Inr (goto t Locking s))
             | Locking \<Rightarrow>
                 (case holder s (mutex d) of
                    None \<Rightarrow> Some (Inr (goto t SecondSleep (s\<lparr>holder := (holder s)(mutex d \<mapsto> t)\<rparr>)))
                  | Some t' \<Rightarrow> if t' = t then Some (Inl SelfDeadlock) else None)
             | SecondSleep \<Rightarrow> Some (Inr (goto t Unlocking s))
             | Unlocking \<Rightarrow> Some (Inr (goto t Finishing (s\<lparr>holder := (holder s)(mutex d := None)\<rparr>)))
             | Finishing \<Rightarrow> Some (Inr (goto t Returned
                 (s\<lparr>blocks := (blocks s)(a \<mapsto> d\<lparr>thread_complete_success := True\<rparr>)\<rparr>)))
             | Returned \<Rightarrow> None)))"

text \<open>
  \<open>new\<close> is what \<open>malloc\<close> returns, \<open>created\<close> the new thread, if \<open>pthread_create\<close> succeeds.
  When it fails the block stays allocated.
\<close>

definition start_thread_obtaining_mutex ::
    "ptr \<Rightarrow> nat option \<Rightarrow> nat \<Rightarrow> 32 word \<Rightarrow> 32 word \<Rightarrow> thread_state \<Rightarrow> (bool \<times> thread_state) res" where
  "start_thread_obtaining_mutex new created m obtain_ms release_ms s = (case new of
     None \<Rightarrow> Inl NullDeref
   | Some a \<Rightarrow>
       (let threadData = \<lparr>thread_complete_success = False, wait_to_obtain_ms = obtain_ms,
              wait_to_release_ms = release_ms, mutex = m\<rparr>;
            s = s\<lparr>blocks := (blocks s)(a \<mapsto> threadData)\<rparr>
        in case created of
             None \<Rightarrow> Inr (False, s)
           | Some t \<Rightarrow> Inr (True, s\<lparr>threads := (threads s)(t \<mapsto> (a, FirstSleep))\<rparr>)))"

text \<open>
  One step of the system: a thread moves, or another one is started, with a fresh block
  and a fresh identifier.
\<close>

inductive thread_step :: "thread_state \<Rightarrow> thread_state \<Rightarrow> bool" where
  run: "threadfunc t s = Some (Inr s') \<Longrightarrow> thread_step s s'"

inductive system_step :: "thread_state \<Rightarrow> thread_state \<Rightarrow> bool" where
  thread: "thread_step s s' \<Longrightarrow> system_step s s'"
| start: "a \<notin> dom (blocks s) \<Longrightarrow> (\<And>t. created = Some t \<Longrightarrow> t \<notin> dom (threads s)) \<Longrightarrow>
     start_thread_obtaining_mutex (Some a) created m w1 w2 s = Inr (r, s') \<Longrightarrow> system_step s s'"

inductive_cases thread_stepE: "thread_step s s'"
inductive_cases system_stepE: "system_step s s'"

inductive system_reachable :: "thread_state \<Rightarrow> bool" where
  initial: "system_reachable \<lparr>blocks = Map.empty, holder = Map.empty, threads = Map.empty\<rparr>"
| step: "system_reachable s \<Longrightarrow> system_step s s' \<Longrightarrow> system_reachable s'"

section \<open>The sleep takes the whole time\<close>

lemma sint_of_int_64: "- (2 ^ 63) \<le> k \<Longrightarrow> k < 2 ^ 63 \<Longrightarrow> sint (of_int k :: 64 word) = k"
  by (simp add: signed_of_int signed_take_bit_int_eq_self)

definition short :: "int \<Rightarrow> bool" where
  "short n \<longleftrightarrow> 0 \<le> n \<and> n div 1000000000 < 2 ^ 63"

lemma timespec_of_facts:
  assumes "short n"
  shows "nanoseconds (timespec_of n) = n" "\<not> sint (tv_sec (timespec_of n)) < 0"
    "\<not> sint (tv_nsec (timespec_of n)) < 0" "\<not> 999999999 < sint (tv_nsec (timespec_of n))"
proof -
  have n: "0 \<le> n div 1000000000" "n div 1000000000 < 2 ^ 63" "0 \<le> n mod 1000000000"
    "n mod 1000000000 < 1000000000"
    using assms by (simp_all add: short_def pos_imp_zdiv_nonneg_iff)
  have s: "sint (tv_sec (timespec_of n)) = n div 1000000000"
    unfolding timespec_of_def using n by (simp add: sint_of_int_64)
  have m: "sint (tv_nsec (timespec_of n)) = n mod 1000000000"
    unfolding timespec_of_def using n(3,4) by (simp add: sint_of_int_64)
  show "nanoseconds (timespec_of n) = n" unfolding nanoseconds_def s m by simp
  show "\<not> sint (tv_sec (timespec_of n)) < 0" "\<not> sint (tv_nsec (timespec_of n)) < 0"
    "\<not> 999999999 < sint (tv_nsec (timespec_of n))"
    unfolding s m using n by simp_all
qed

lemma millisleep_loop_sleeps:
  "short n \<Longrightarrow> \<forall>d \<in> set signals. 0 \<le> d \<Longrightarrow> millisleep_loop signals (timespec_of n) slept = (0, slept + n)"
proof (induction signals arbitrary: n slept)
  case Nil
  then show ?case by (simp add: nanosleep_def timespec_of_facts)
next
  case (Cons d signals)
  show ?case
  proof (cases "n \<le> d")
    case True
    then show ?thesis
      using Cons.prems(1) by (simp add: nanosleep_def timespec_of_facts EINTR_def)
  next
    case False
    have "(n - d) div 1000000000 \<le> n div 1000000000"
      using Cons.prems(2) by (intro zdiv_mono1) simp_all
    then have "short (n - d)" using False Cons.prems(1) by (auto simp: short_def)
    from Cons.IH [OF this] False Cons.prems show ?thesis
      by (simp add: nanosleep_def timespec_of_facts)
  qed
qed

lemma millisleep_timespec:
  assumes "0 \<le> sint (ms :: 64 word)"
  shows "\<lparr>tv_sec = of_int (sint ms sdiv 1000), tv_nsec = of_int (sint ms smod 1000) * 1000000\<rparr>
      = timespec_of (sint ms * 1000000)" "short (sint ms * 1000000)"
proof -
  let ?k = "sint ms"
  have k: "?k sdiv 1000 = ?k div 1000" "?k smod 1000 = ?k mod 1000"
    using assms by (cases "?k = 0"; simp add: signed_divide_int_def signed_modulo_int_def)+
  have d: "?k * 1000000 div 1000000000 = ?k div 1000" "?k * 1000000 mod 1000000000 = ?k mod 1000 * 1000000"
    using div_mult_mult1 [of 1000000 ?k 1000] mult_mod_right [of 1000000 ?k 1000] by (simp_all add: mult.commute)
  show "\<lparr>tv_sec = of_int (?k sdiv 1000), tv_nsec = of_int (?k smod 1000) * 1000000\<rparr>
      = timespec_of (?k * 1000000)"
    by (simp add: timespec_of_def k d)
  have "?k < 2 ^ 63" using sint_lt [of ms] by simp
  then have "?k div 1000 < 2 ^ 63" using assms by linarith
  then show "short (?k * 1000000)" using assms by (simp add: short_def d)
qed

section \<open>The threads\<close>

text \<open>Thread \<open>t\<close> is between taking and releasing mutex \<open>m\<close>.\<close>

definition inside :: "nat \<Rightarrow> nat \<Rightarrow> thread_state \<Rightarrow> bool" where
  "inside t m s \<longleftrightarrow> (case threads s t of None \<Rightarrow> False
     | Some (a, pl) \<Rightarrow> map_option mutex (blocks s a) = Some m \<and> pl \<in> {SecondSleep, Unlocking})"

definition threads_inv :: "thread_state \<Rightarrow> bool" where
  "threads_inv s \<longleftrightarrow> finite (dom (threads s)) \<and>
     (\<forall>t a pl. threads s t = Some (a, pl) \<longrightarrow>
        (\<exists>d. blocks s a = Some d \<and> (pl = Returned \<longrightarrow> thread_complete_success d))) \<and>
     (\<forall>t t' a pl pl'. threads s t = Some (a, pl) \<longrightarrow> threads s t' = Some (a, pl') \<longrightarrow> t = t') \<and>
     (\<forall>m t. holder s m = Some t \<longleftrightarrow> inside t m s)"

lemma threads_invD:
  assumes "threads_inv s"
  shows "finite (dom (threads s))"
    and "threads s t = Some (a, pl) \<Longrightarrow> \<exists>d. blocks s a = Some d \<and> (pl = Returned \<longrightarrow> thread_complete_success d)"
    and "threads s t = Some (a, pl) \<Longrightarrow> threads s t' = Some (a, pl') \<Longrightarrow> t = t'"
    and "holder s m = Some t \<longleftrightarrow> inside t m s"
  using assms unfolding threads_inv_def by blast+

lemma threads_invI:
  assumes "finite (dom (threads s))"
    and "\<And>t a pl. threads s t = Some (a, pl) \<Longrightarrow>
      \<exists>d. blocks s a = Some d \<and> (pl = Returned \<longrightarrow> thread_complete_success d)"
    and "\<And>t t' a pl pl'. threads s t = Some (a, pl) \<Longrightarrow> threads s t' = Some (a, pl') \<Longrightarrow> t = t'"
    and "\<And>m t. holder s m = Some t \<longleftrightarrow> inside t m s"
  shows "threads_inv s"
  unfolding threads_inv_def using assms by blast

lemma goto_simps [simp]:
  "blocks (goto t pl s) = blocks s" "holder (goto t pl s) = holder s"
  "threads s t = Some (a, pl') \<Longrightarrow> threads (goto t pl s) = (threads s)(t \<mapsto> (a, pl))"
  by (simp_all add: goto_def)

text \<open>The five moves of a thread, as they change the state.\<close>

lemma threadfunc_cases:
  assumes "threadfunc t s = Some (Inr s')"
  obtains a d pl pl' b where "threads s t = Some (a, pl)" "blocks s a = Some d"
    "threads s' = (threads s)(t \<mapsto> (a, pl'))"
    "pl = FirstSleep \<and> pl' = Locking \<and> b = holder s \<and> blocks s' = blocks s
     \<or> pl = Locking \<and> pl' = SecondSleep \<and> holder s (mutex d) = None \<and> b = (holder s)(mutex d \<mapsto> t) \<and>
       blocks s' = blocks s
     \<or> pl = SecondSleep \<and> pl' = Unlocking \<and> b = holder s \<and> blocks s' = blocks s
     \<or> pl = Unlocking \<and> pl' = Finishing \<and> b = (holder s)(mutex d := None) \<and> blocks s' = blocks s
     \<or> pl = Finishing \<and> pl' = Returned \<and> b = holder s \<and>
       blocks s' = (blocks s)(a \<mapsto> d\<lparr>thread_complete_success := True\<rparr>)"
    "holder s' = b"
proof -
  obtain a pl where t: "threads s t = Some (a, pl)"
    using assms by (auto simp: threadfunc_def split: option.splits)
  obtain d where d: "blocks s a = Some d"
    using assms t by (auto simp: threadfunc_def split: option.splits)
  show thesis
    using assms t d by (cases pl) (auto simp: threadfunc_def goto_def split: option.splits if_splits intro: that)
qed

lemma inside_upd:
  "threads s' = (threads s)(t \<mapsto> (a, pl)) \<Longrightarrow> blocks s a = Some d \<Longrightarrow>
   (\<And>x. map_option mutex (blocks s' x) = map_option mutex (blocks s x)) \<Longrightarrow>
     inside t' m s' = (if t' = t then mutex d = m \<and> pl \<in> {SecondSleep, Unlocking} else inside t' m s)"
  by (simp add: inside_def split: option.split)

lemma threadfunc_inv:
  assumes inv: "threads_inv s" and step: "threadfunc t s = Some (Inr s')"
  shows "threads_inv s'"
proof -
  note invD = threads_invD [OF inv]
  obtain a d pl pl' b where t: "threads s t = Some (a, pl)" and d: "blocks s a = Some d"
    and th: "threads s' = (threads s)(t \<mapsto> (a, pl'))"
    and mv: "pl = FirstSleep \<and> pl' = Locking \<and> b = holder s \<and> blocks s' = blocks s
     \<or> pl = Locking \<and> pl' = SecondSleep \<and> holder s (mutex d) = None \<and> b = (holder s)(mutex d \<mapsto> t) \<and>
       blocks s' = blocks s
     \<or> pl = SecondSleep \<and> pl' = Unlocking \<and> b = holder s \<and> blocks s' = blocks s
     \<or> pl = Unlocking \<and> pl' = Finishing \<and> b = (holder s)(mutex d := None) \<and> blocks s' = blocks s
     \<or> pl = Finishing \<and> pl' = Returned \<and> b = holder s \<and>
       blocks s' = (blocks s)(a \<mapsto> d\<lparr>thread_complete_success := True\<rparr>)"
    and h: "holder s' = b"
    by (rule threadfunc_cases [OF step])
  have mut: "map_option mutex (blocks s' x) = map_option mutex (blocks s x)" for x
    using mv d by auto
  have ins': "inside t' m s' = (if t' = t then mutex d = m \<and> pl' \<in> {SecondSleep, Unlocking} else inside t' m s)"
    for t' m using inside_upd [where s = s and s' = s', OF th d mut] .
  have ins: "inside t m s \<longleftrightarrow> mutex d = m \<and> pl \<in> {SecondSleep, Unlocking}" for m
    using t d by (simp add: inside_def)
  have blk: "\<exists>d'. blocks s' x = Some d' \<and> (y = Returned \<longrightarrow> thread_complete_success d')"
    if "threads s' u = Some (x, y)" for u x y
  proof (cases "u = t")
    case True
    with that th mv d show ?thesis by auto
  next
    case False
    with that th have "threads s u = Some (x, y)" by simp
    with invD(2) [OF this] mv d show ?thesis by auto
  qed
  have hold: "holder s' m = Some u \<longleftrightarrow> inside u m s'" for m u
  proof -
    have only: "holder s (mutex d) = Some t" if "pl = Unlocking"
      using that ins [of "mutex d"] invD(4) [of "mutex d" t] by simp
    show ?thesis
      unfolding ins' h using mv invD(4) [of m u] ins [of m] only
      by (cases "u = t"; cases "m = mutex d") auto
  qed
  have inj: "u = u'" if "threads s' u = Some (x, y)" "threads s' u' = Some (x, y')" for u u' x y y'
    using that invD(3) t unfolding th by (fastforce split: if_splits)
  have "finite (dom (threads s'))" using invD(1) unfolding th by simp
  then show ?thesis using blk inj hold by (rule threads_invI)
qed

lemma threadfunc_no_fault: "threads_inv s \<Longrightarrow> threadfunc t s \<noteq> Some (Inl e)"
proof
  assume inv: "threads_inv s" and "threadfunc t s = Some (Inl e)"
  then obtain a pl where t: "threads s t = Some (a, pl)" by (auto simp: threadfunc_def split: option.splits)
  obtain d where d: "blocks s a = Some d" using threads_invD(2) [OF inv t] by blast
  have "pl = Locking" "holder s (mutex d) = Some t"
    using \<open>threadfunc t s = Some (Inl e)\<close> t d
    by (auto simp: threadfunc_def split: option.splits place.splits if_splits)
  then show False using threads_invD(4) [OF inv] t d by (simp add: inside_def)
qed

lemma start_inv:
  assumes inv: "threads_inv s" and a: "a \<notin> dom (blocks s)"
    and fresh: "\<And>t. created = Some t \<Longrightarrow> t \<notin> dom (threads s)"
    and st: "start_thread_obtaining_mutex (Some a) created m w1 w2 s = Inr (r, s')"
  shows "threads_inv s'"
proof -
  note invD = threads_invD [OF inv]
  define d where "d = \<lparr>thread_complete_success = False, wait_to_obtain_ms = w1, wait_to_release_ms = w2, mutex = m\<rparr>"
  have s': "blocks s' = (blocks s)(a \<mapsto> d)" "holder s' = holder s"
    "threads s' = (case created of None \<Rightarrow> threads s | Some t \<Rightarrow> (threads s)(t \<mapsto> (a, FirstSleep)))"
    using st by (auto simp: start_thread_obtaining_mutex_def d_def Let_def split: option.splits)
  have old: "x \<noteq> a" if "threads s u = Some (x, y)" for u x y using invD(2) [OF that] a by auto
  have th: "threads s' u = (if created = Some u then Some (a, FirstSleep) else threads s u)" for u
    unfolding s' by (auto split: option.split)
  have ins: "inside u k s' = inside u k s" for u k
  proof (cases "created = Some u")
    case True
    with fresh have "threads s u = None" by auto
    with True show ?thesis by (simp add: inside_def th)
  next
    case False
    then show ?thesis using old by (auto simp: inside_def th s'(1) split: option.splits)
  qed
  have "finite (dom (threads s'))" using invD(1) unfolding s' by (auto split: option.split)
  moreover have "\<exists>d. blocks s' x = Some d \<and> (y = Returned \<longrightarrow> thread_complete_success d)"
    if "threads s' u = Some (x, y)" for u x y
    using that invD(2) old by (fastforce simp: th s'(1) split: if_splits)
  moreover have "u = u'" if "threads s' u = Some (x, y)" "threads s' u' = Some (x, y')" for u u' x y y'
    using that invD(3) old by (fastforce simp: th split: if_splits)
  moreover have "holder s' k = Some u \<longleftrightarrow> inside u k s'" for k u
    using invD(4) by (simp add: ins s'(2))
  ultimately show ?thesis by (rule threads_invI)
qed

lemma initial_inv: "threads_inv \<lparr>blocks = Map.empty, holder = Map.empty, threads = Map.empty\<rparr>"
  by (simp add: threads_inv_def inside_def)

lemma thread_step_inv: "thread_step s s' \<Longrightarrow> threads_inv s \<Longrightarrow> threads_inv s'"
  by (auto elim!: thread_stepE intro: threadfunc_inv)

lemma system_inv: "system_reachable s \<Longrightarrow> threads_inv s"
proof (induction rule: system_reachable.induct)
  case initial
  show ?case by (rule initial_inv)
next
  case (step s s')
  from step.hyps(2) show ?case
  proof (cases rule: system_step.cases)
    case thread
    with step.IH show ?thesis by (rule thread_step_inv [rotated])
  next
    case (start a created m w1 w2 r)
    show ?thesis by (rule start_inv [OF step.IH start])
  qed
qed

section \<open>Every run ends\<close>

primrec places_left :: "place \<Rightarrow> nat" where
  "places_left FirstSleep = 5"
| "places_left Locking = 4"
| "places_left SecondSleep = 3"
| "places_left Unlocking = 2"
| "places_left Finishing = 1"
| "places_left Returned = 0"

definition work :: "thread_state \<Rightarrow> nat" where
  "work s = (\<Sum>t \<in> dom (threads s). places_left (snd (the (threads s t))))"

lemma thread_step_work:
  assumes "threads_inv s" "thread_step s s'"
  shows "work s = Suc (work s')" "dom (threads s') = dom (threads s)"
proof -
  obtain t where step: "threadfunc t s = Some (Inr s')" using assms(2) by (rule thread_stepE)
  then obtain a pl pl' where t: "threads s t = Some (a, pl)"
    and th: "threads s' = (threads s)(t \<mapsto> (a, pl'))" and left: "places_left pl = Suc (places_left pl')"
    by (rule threadfunc_cases) auto
  have fin: "finite (dom (threads s))" using threads_invD(1) [OF assms(1)] .
  have dom: "dom (threads s') = dom (threads s)" "t \<in> dom (threads s)" using t th by auto
  let ?f = "\<lambda>s u. places_left (snd (the (threads s u)))"
  have "work s = ?f s t + (\<Sum>u \<in> dom (threads s) - {t}. ?f s u)"
    unfolding work_def using fin dom(2) by (rule sum.remove)
  moreover have "work s' = ?f s' t + (\<Sum>u \<in> dom (threads s) - {t}. ?f s' u)"
    unfolding work_def dom(1) using fin dom(2) by (rule sum.remove)
  moreover have "(\<Sum>u \<in> dom (threads s) - {t}. ?f s u) = (\<Sum>u \<in> dom (threads s) - {t}. ?f s' u)"
    by (rule sum.cong) (auto simp: th)
  moreover have "?f s t = Suc (?f s' t)" using t th left by simp
  ultimately show "work s = Suc (work s')" by linarith
  show "dom (threads s') = dom (threads s)" by (rule dom(1))
qed

text \<open>As long as a thread has not returned, some thread can move: there is no deadlock.\<close>

lemma thread_progress:
  assumes inv: "threads_inv s" and t: "threads s t = Some (a, pl)" and "pl \<noteq> Returned"
  shows "\<exists>s'. thread_step s s'"
proof -
  obtain d where d: "blocks s a = Some d" using threads_invD(2) [OF inv t] by blast
  show ?thesis
  proof (cases "pl = Locking \<and> holder s (mutex d) \<noteq> None")
    case False
    then have "\<exists>s'. threadfunc t s = Some (Inr s')"
      using t d assms(3) by (cases pl) (auto simp: threadfunc_def split: option.split)
    then show ?thesis by (blast intro: thread_step.run)
  next
    case True
    then obtain u where "inside u (mutex d) s" using threads_invD(4) [OF inv] by auto
    then obtain b q e where u: "threads s u = Some (b, q)" "blocks s b = Some e" "q \<in> {SecondSleep, Unlocking}"
      by (auto simp: inside_def split: option.splits)
    then have "\<exists>s'. threadfunc u s = Some (Inr s')" by (auto simp: threadfunc_def)
    then show ?thesis by (blast intro: thread_step.run)
  qed
qed

lemma run_inv: "(thread_step ^^ k) s s' \<Longrightarrow> threads_inv s \<Longrightarrow>
   threads_inv s' \<and> work s = k + work s' \<and> dom (threads s') = dom (threads s)"
proof (induction k arbitrary: s')
  case 0
  then show ?case by simp
next
  case (Suc k)
  then obtain s1 where s1: "(thread_step ^^ k) s s1" "thread_step s1 s'" by auto
  with Suc.IH [OF s1(1) Suc.prems(2)] thread_step_inv [OF s1(2)] thread_step_work [of s1 s'] show ?case
    by auto
qed

section \<open>Properties\<close>

lemma millisleep_negative:
  assumes "sint (ms :: 64 word) < 0"
  shows "millisleep signals ms = (- 1, 0)"
proof -
  let ?k = "sint ms"
  let ?ts = "\<lparr>tv_sec = of_int (?k sdiv 1000), tv_nsec = of_int (?k smod 1000) * 1000000\<rparr> :: timespec"
  have k: "?k sdiv 1000 = - (- ?k div 1000)" "?k smod 1000 = - (- ?k mod 1000)"
    using assms by (simp_all add: signed_divide_int_def signed_modulo_int_def)
  have low: "- (2 ^ 63) \<le> ?k" using sint_ge [of ms] by simp
  have nsec: "tv_nsec ?ts = of_int (- (- ?k mod 1000) * 1000000)"
    unfolding k by simp
  have bounds: "- ?k div 1000 \<ge> 0" "- ?k div 1000 < 2 ^ 63" "- ?k mod 1000 < 1000" "- ?k mod 1000 \<ge> 0"
    using assms low by (simp_all add: pos_imp_zdiv_nonneg_iff)
  have s: "sint (tv_sec ?ts) = - (- ?k div 1000)"
    using bounds(1,2) by (simp only: timespec.simps k) (rule sint_of_int_64; simp)
  have n: "sint (tv_nsec ?ts) = - (- ?k mod 1000) * 1000000"
    unfolding nsec using bounds(3,4) by (intro sint_of_int_64; simp; linarith)
  have "sint (tv_sec ?ts) < 0 \<or> sint (tv_nsec ?ts) < 0"
    unfolding s n using assms bounds div_mult_mod_eq [of "- ?k" 1000] by linarith
  then have bad: "nanosleep ?ts sg = (- 1, NANOSLEEP_EINVAL, ?ts, 0)" for sg
    by (auto simp: nanosleep_def)
  show ?thesis
    unfolding millisleep_def
    by (cases signals) (simp_all add: bad NANOSLEEP_EINVAL_def EINTR_def)
qed

text \<open>
  However many signals interrupt it, and whenever they arrive, \<open>millisleep\<close> returns 0
  after sleeping exactly the requested time in all, for every non-negative \<open>long\<close>: the rest
  of an interrupted period is slept by the next call, and nothing overflows. A negative
  number of milliseconds is refused at once with -1, without sleeping.
\<close>

theorem millisleep_sleeps_whole_time:
  assumes "\<forall>d \<in> set signals. 0 \<le> d"
  shows "millisleep signals ms =
    (if 0 \<le> sint ms then (0, sint ms * 1000000) else (- 1, 0))"
proof (cases "0 \<le> sint ms")
  case True
  have "millisleep signals ms = millisleep_loop signals (timespec_of (sint ms * 1000000)) 0"
    unfolding millisleep_def millisleep_timespec(1) [OF True] ..
  with millisleep_loop_sleeps [OF millisleep_timespec(2) [OF True] assms] True show ?thesis by simp
next
  case False
  then show ?thesis by (simp add: millisleep_negative)
qed

theorem millisleep_sleeps_whole_time_witness:
  "millisleep [400000, 0, 1200000000] 1500 = (0, 1500000000)"
proof -
  have "sint (1500 :: 64 word) = 1500" by (simp add: sint_eq_unat_64)
  with millisleep_sleeps_whole_time [of "[400000, 0, 1200000000]" 1500] show ?thesis by simp
qed

text \<open>
  In every reachable state of any number of threads on any number of mutexes, started
  at any time: two threads are never both between taking and releasing the same mutex, a
  mutex is marked as held exactly by the thread that is between, no thread uses a block
  that is not allocated or waits for a mutex it holds, and a thread that has returned has
  set its success flag.
\<close>

theorem threads_exclude_each_other:
  assumes "system_reachable s"
  shows "(holder s m = Some t \<longleftrightarrow> inside t m s) \<and> (inside t m s \<and> inside t' m s \<longrightarrow> t = t') \<and>
    threadfunc t s \<noteq> Some (Inl e) \<and>
    (threads s t = Some (a, Returned) \<longrightarrow> (\<exists>d. blocks s a = Some d \<and> thread_complete_success d))"
proof -
  have inv: "threads_inv s" by (rule system_inv [OF assms])
  have h: "holder s m = Some u \<longleftrightarrow> inside u m s" for u using threads_invD(4) [OF inv] .
  show ?thesis
    using h [of t] h [of t'] threadfunc_no_fault [OF inv] threads_invD(2) [OF inv, of t a Returned]
    by auto
qed

text \<open>Two threads on one mutex.\<close>

definition two_threads :: thread_state where
  "two_threads = \<lparr>blocks = [1 \<mapsto> \<lparr>thread_complete_success = False, wait_to_obtain_ms = 5,
       wait_to_release_ms = 7, mutex = 0\<rparr>, 2 \<mapsto> \<lparr>thread_complete_success = False,
       wait_to_obtain_ms = 5, wait_to_release_ms = 7, mutex = 0\<rparr>],
     holder = Map.empty, threads = [10 \<mapsto> (1, FirstSleep), 11 \<mapsto> (2, FirstSleep)]\<rparr>"

lemma two_threads_reachable: "system_reachable two_threads"
proof -
  let ?d = "\<lparr>thread_complete_success = False, wait_to_obtain_ms = 5, wait_to_release_ms = 7, mutex = 0\<rparr>"
  let ?s1 = "\<lparr>blocks = [1 \<mapsto> ?d], holder = Map.empty, threads = [10 \<mapsto> (1, FirstSleep)]\<rparr>"
  have "system_reachable ?s1"
    by (rule system_reachable.step [OF system_reachable.initial],
        rule system_step.start [where a = 1 and created = "Some 10" and m = 0 and ?w1.0 = 5 and ?w2.0 = 7])
       (simp_all add: start_thread_obtaining_mutex_def)
  then show ?thesis
    by (rule system_reachable.step,
        intro system_step.start [where a = 2 and created = "Some 11" and m = 0 and ?w1.0 = 5 and ?w2.0 = 7])
       (auto simp: start_thread_obtaining_mutex_def two_threads_def)
qed

theorem threads_exclude_each_other_witness:
  "threadfunc 10 two_threads \<noteq> Some (Inl SelfDeadlock) \<and> (holder two_threads 0 = Some 10 \<longleftrightarrow> inside 10 0 two_threads)"
  using threads_exclude_each_other [OF two_threads_reachable, of 0 10 11 SelfDeadlock 1] by blast

text \<open>
  C21. The threads always come to an end: from a reachable state they can make no more
  steps than five for each thread, in whatever order they run, and when none can move any
  more, every one of them has returned with success and every mutex is free. In
  particular there is no deadlock.
\<close>

theorem threads_terminate:
  assumes "system_reachable s" and "(thread_step ^^ k) s s'"
  shows "k \<le> 5 * card (dom (threads s)) \<and>
    ((\<exists>s''. thread_step s' s'') \<or>
     (\<forall>t \<in> dom (threads s). \<exists>a d. threads s' t = Some (a, Returned) \<and> blocks s' a = Some d \<and>
        thread_complete_success d) \<and> holder s' = Map.empty)"
proof -
  have inv: "threads_inv s" by (rule system_inv [OF assms(1)])
  have r: "threads_inv s'" "work s = k + work s'" "dom (threads s') = dom (threads s)"
    using run_inv [OF assms(2) inv] by auto
  have "places_left pl \<le> 5" for pl by (cases pl) simp_all
  then have "work s \<le> card (dom (threads s)) * 5"
    unfolding work_def by (intro sum_bounded_above [where 'a = nat, simplified])
  moreover have "(\<forall>t \<in> dom (threads s). \<exists>a d. threads s' t = Some (a, Returned) \<and> blocks s' a = Some d \<and>
        thread_complete_success d) \<and> holder s' = Map.empty" if stuck: "\<nexists>s''. thread_step s' s''"
  proof
    have ret: "pl = Returned" if "threads s' t = Some (a, pl)" for t a pl
      using thread_progress [OF r(1) that] stuck by blast
    show "\<forall>t \<in> dom (threads s). \<exists>a d. threads s' t = Some (a, Returned) \<and> blocks s' a = Some d \<and>
        thread_complete_success d"
    proof
      fix t assume "t \<in> dom (threads s)"
      then have "t \<in> dom (threads s')" unfolding r(3) .
      then obtain a pl where t: "threads s' t = Some (a, pl)" by auto
      with ret threads_invD(2) [OF r(1) t] show "\<exists>a d. threads s' t = Some (a, Returned) \<and>
          blocks s' a = Some d \<and> thread_complete_success d" by blast
    qed
    show "holder s' = Map.empty"
    proof
      fix m
      show "holder s' m = None"
      proof (rule ccontr)
        assume "holder s' m \<noteq> None"
        then obtain u where "inside u m s'" using threads_invD(4) [OF r(1)] by auto
        then show False using ret by (auto simp: inside_def split: option.splits)
      qed
    qed
  qed
  ultimately show ?thesis using r(2) by auto
qed

theorem threads_terminate_witness:
  "\<exists>s. (thread_step ^^ 1) two_threads s \<and> 1 \<le> 5 * card (dom (threads two_threads)) \<and>
     (\<exists>s'. thread_step s s')"
proof -
  let ?s = "goto 10 Locking two_threads"
  have "(thread_step ^^ 1) two_threads ?s"
    by (simp del: relpowp.simps add: relpowp_1) (rule thread_step.run [where t = 10], simp add: threadfunc_def two_threads_def)
  from threads_terminate [OF two_threads_reachable this] this show ?thesis
    by (intro exI [of _ ?s]) (auto simp: two_threads_def goto_def split: if_splits)
qed

end
