(* ===== verification/Systemcalls.thy ===== *)
theory Systemcalls
  imports Prelude
begin

text \<open>
  Running commands: \<open>examples/systemcalls/systemcalls.c\<close>. A fork splits a run in two, the
  parent and the child; the model of a function therefore returns what becomes of both.
  What the operating system answers is a parameter.
\<close>

section \<open>Processes\<close>

text \<open>A C string is a HOL string; an argument vector ends with NULL.\<close>

type_synonym argv = "string option list"

text \<open>
  The open file descriptors of a process, with what they refer to; descriptor 1 is the
  standard output.
\<close>

datatype file_ref = Inherited nat | FileAt string

type_synonym fd_table = "nat \<rightharpoonup> file_ref"

text \<open>
  A wait status: the low seven bits are the signal that killed the process (0 if none),
  the next byte the exit code.
\<close>

definition exit_status :: "int \<Rightarrow> int" where
  "exit_status code = (code mod 256) * 256"

text \<open>
  The operating system: the result of \<open>system\<close>; whether \<open>fork\<close>, \<open>waitpid\<close>, \<open>open\<close> and
  \<open>dup2\<close> succeed (the process number, the new descriptor); and what a program does when
  it is executed with some arguments and descriptors: \<open>None\<close> if \<open>execv\<close> fails, else the
  wait status it ends with.
\<close>

record os =
  system_result :: "string option \<Rightarrow> int"
  fork_pid :: "int option"
  waitpid_ok :: bool
  open_fd :: "string \<Rightarrow> nat option"
  dup2_ok :: bool
  program :: "string option \<Rightarrow> argv \<Rightarrow> fd_table \<Rightarrow> int option"

text \<open>What becomes of a child: a program took its place, it left, or it went back to the caller.\<close>

datatype child_end =
    Ran string argv fd_table int
  | Left int
  | ReturnedToCaller bool fd_table

section \<open>The functions\<close>

definition do_system :: "os \<Rightarrow> string option \<Rightarrow> bool" where
  "do_system os cmd \<longleftrightarrow> system_result os cmd = 0"

text \<open>
  Collecting the variable arguments: the loop over \<open>count\<close>, then the terminating NULL.
  Fewer arguments than \<open>count\<close>, or a negative \<open>count\<close>, is undefined behaviour.
\<close>

fun collect_loop :: "nat \<Rightarrow> string option list \<Rightarrow> argv \<Rightarrow> argv res" where
  "collect_loop 0 args command = Inr command"
| "collect_loop (Suc n) [] command = Inl OutOfBounds"
| "collect_loop (Suc n) (a # args) command = collect_loop n args (command @ [a])"

definition collect_arguments :: "32 word \<Rightarrow> string option list \<Rightarrow> argv res" where
  "collect_arguments count args =
     (if count <s 0 then Inl OutOfBounds
      else bindR (collect_loop (nat (sint count)) args []) (\<lambda>command. Inr (command @ [None])))"

text \<open>\<open>execv\<close>; it comes back only when it fails, and then the child exits.\<close>

definition exec_or_exit :: "os \<Rightarrow> argv \<Rightarrow> fd_table \<Rightarrow> child_end" where
  "exec_or_exit os command fds = (case (hd command, program os (hd command) command fds) of
     (Some name, Some st) \<Rightarrow> Ran name command fds st
   | _ \<Rightarrow> Left (- 1))"

definition child_status :: "child_end \<Rightarrow> int option" where
  "child_status c = (case c of
     Ran name command fds st \<Rightarrow> Some st
   | Left code \<Rightarrow> Some (exit_status code)
   | ReturnedToCaller b fds \<Rightarrow> None)"

text \<open>
  The parent: \<open>childStatus\<close> keeps its initial value -1 if \<open>waitpid\<close> fails. A child that
  went back to the caller goes on running the caller's code; \<open>later\<close> is the wait status
  it ends with in the end.
\<close>

definition wait_for_child :: "os \<Rightarrow> int \<Rightarrow> child_end \<Rightarrow> int" where
  "wait_for_child os later c =
     (if waitpid_ok os then (case child_status c of Some st \<Rightarrow> st | None \<Rightarrow> later) else - 1)"

text \<open>The result in the parent, and what becomes of the child if there is one.\<close>

definition do_exec :: "os \<Rightarrow> 32 word \<Rightarrow> string option list \<Rightarrow> fd_table \<Rightarrow> (bool \<times> child_end option) res" where
  "do_exec os count args fds =
     bindR (collect_arguments count args) (\<lambda>command.
       case fork_pid os of
         None \<Rightarrow> Inr (False, None)
       | Some pid \<Rightarrow>
           (let child = exec_or_exit os command fds;
                childStatus = wait_for_child os 0 child
            in Inr (childStatus = 0, Some child)))"

text \<open>
  With the output redirected. \<open>later\<close> is the wait status of a child that goes back to the
  caller. Also returns the parent's descriptors afterwards. \<open>execFailed\<close> is a variable of
  the child only: in the parent it stays false.
\<close>

definition redirect_child :: "os \<Rightarrow> argv \<Rightarrow> nat \<Rightarrow> fd_table \<Rightarrow> child_end" where
  "redirect_child os command fd fds =
     (if \<not> dup2_ok os then ReturnedToCaller False fds
      else exec_or_exit os command ((fds(1 := fds fd))(fd := None)))"

definition do_exec_redirect ::
    "os \<Rightarrow> int \<Rightarrow> string \<Rightarrow> 32 word \<Rightarrow> string option list \<Rightarrow> fd_table
      \<Rightarrow> (bool \<times> child_end option \<times> fd_table) res" where
  "do_exec_redirect os later outputfile count args fds =
     bindR (collect_arguments count args) (\<lambda>command.
       case open_fd os outputfile of
         None \<Rightarrow> Inr (False, None, fds)
       | Some fd \<Rightarrow>
           (let fds = fds(fd \<mapsto> FileAt outputfile) in
            case fork_pid os of
              None \<Rightarrow> Inr (False, None, fds)
            | Some pid \<Rightarrow>
                (let child = redirect_child os command fd fds;
                     execFailed = False;
                     fds = fds(fd := None);
                     childStatus = wait_for_child os later child
                 in Inr (childStatus = 0 \<and> \<not> execFailed, Some child, fds))))"

section \<open>Arguments\<close>

lemma collect_loop_takes:
  "collect_loop n args command =
     (if n \<le> length args then Inr (command @ take n args) else Inl OutOfBounds)"
  by (induction n args command rule: collect_loop.induct) auto

lemma collect_arguments_takes:
  assumes "0 \<le>s count" "nat (sint count) \<le> length args"
  shows "collect_arguments count args = Inr (take (nat (sint count)) args @ [None])"
  using assms by (simp add: collect_arguments_def collect_loop_takes word_sless_alt word_sle_eq)

lemma exit_minus_one: "exit_status (- 1) = 65280"
  by (simp add: exit_status_def)

lemma status_of_exec:
  "child_status (exec_or_exit os command fds) = Some (case (hd command, program os (hd command) command fds) of
     (Some name, Some st) \<Rightarrow> st | _ \<Rightarrow> 65280)"
  by (auto simp: exec_or_exit_def child_status_def exit_minus_one split: option.split)

text \<open>The program named by the first argument ran with these arguments and ended with status 0.\<close>

definition succeeds :: "os \<Rightarrow> argv \<Rightarrow> fd_table \<Rightarrow> bool" where
  "succeeds os args fds \<longleftrightarrow> args \<noteq> [] \<and> hd args \<noteq> None \<and>
     program os (hd args) (args @ [None]) fds = Some 0"

lemma exec_succeeds_iff:
  "wait_for_child os later (exec_or_exit os (args @ [None]) fds) = 0
     \<longleftrightarrow> waitpid_ok os \<and> succeeds os args fds"
proof (cases args)
  case Nil
  then show ?thesis by (simp add: wait_for_child_def status_of_exec succeeds_def)
next
  case (Cons a as)
  then show ?thesis
    by (cases a) (auto simp: wait_for_child_def status_of_exec succeeds_def split: option.split)
qed

lemma exec_never_returns:
  "exec_or_exit os command fds = Left (- 1) \<or> (\<exists>name st. exec_or_exit os command fds = Ran name command fds st)"
  by (auto simp: exec_or_exit_def split: option.split)

section \<open>Properties\<close>

text \<open>
  C28. \<open>do_exec\<close> is true exactly if the fork succeeded, the child could be waited for, and
  the program named by the first argument could be executed, was given exactly the first
  \<open>count\<close> arguments and a NULL, and ended with exit code 0 and no signal. Whatever happens,
  the child never goes back to the caller: it runs the program or leaves. Too few
  arguments, or a negative count, read outside the argument list.
\<close>

theorem do_exec_reports_success:
  "do_exec os count args fds =
    (if count <s 0 \<or> length args < nat (sint count) then Inl OutOfBounds
     else if fork_pid os = None then Inr (False, None)
     else Inr (waitpid_ok os \<and> succeeds os (take (nat (sint count)) args) fds,
       Some (exec_or_exit os (take (nat (sint count)) args @ [None]) fds))) \<and>
   child_status (exec_or_exit os (take (nat (sint count)) args @ [None]) fds) \<noteq> None"
proof (cases "count <s 0 \<or> length args < nat (sint count)")
  case True
  then show ?thesis
    by (auto simp: do_exec_def collect_arguments_def collect_loop_takes status_of_exec)
next
  case False
  then have "collect_arguments count args = Inr (take (nat (sint count)) args @ [None])"
    by (intro collect_arguments_takes) (simp_all add: word_sless_alt word_sle_eq)
  with False show ?thesis
    by (auto simp: do_exec_def exec_succeeds_iff status_of_exec Let_def split: option.split)
qed

text \<open>
  \<open>do_exec_redirect\<close> with enough arguments: when the output file cannot be opened, or
  the fork fails, it is false. Otherwise, if the descriptor can be duplicated, it is true
  exactly if the program ran with the file as its standard output and ended with success;
  the child keeps no other descriptor for the file, and the parent has closed its own.
\<close>

theorem do_exec_redirect_reports_success:
  assumes "0 \<le>s count" and "nat (sint count) \<le> length args" and "dup2_ok os"
    and "open_fd os outputfile = Some fd" and "fork_pid os = Some pid" and "fd \<noteq> 1"
  shows "\<exists>child. do_exec_redirect os later outputfile count args fds =
      Inr (waitpid_ok os \<and> succeeds os (take (nat (sint count)) args)
             (fds(1 \<mapsto> FileAt outputfile, fd := None)),
           Some child, fds(fd := None)) \<and>
    child = exec_or_exit os (take (nat (sint count)) args @ [None]) (fds(1 \<mapsto> FileAt outputfile, fd := None)) \<and>
    child_status child \<noteq> None"
proof -
  have fds: "(fds(fd \<mapsto> FileAt outputfile, 1 \<mapsto> FileAt outputfile))(fd := None)
      = fds(1 \<mapsto> FileAt outputfile, fd := None)"
    by (auto simp: fun_eq_iff)
  show ?thesis
    using assms collect_arguments_takes [OF assms(1,2)]
    by (simp add: do_exec_redirect_def redirect_child_def fds exec_succeeds_iff status_of_exec Let_def)
qed

text \<open>A system on which only \<open>/bin/true\<close> exists.\<close>

definition demo_os :: os where
  "demo_os = \<lparr>system_result = (\<lambda>_. 0), fork_pid = Some 42, waitpid_ok = True,
     open_fd = (\<lambda>_. Some 3), dup2_ok = True,
     program = (\<lambda>name command fds. if name = Some ''/bin/true'' then Some 0 else None)\<rparr>"

theorem do_exec_redirect_reports_success_witness:
  "\<exists>child. do_exec_redirect demo_os 0 ''out.txt'' 2 [Some ''/bin/true'', Some ''x''] Map.empty
     = Inr (True, Some child, Map.empty(3 := None))"
  using do_exec_redirect_reports_success [of 2 "[Some ''/bin/true'', Some ''x'']" demo_os "''out.txt''" 3 42 0 Map.empty]
  by (simp add: demo_os_def succeeds_def word_sle_eq sint_eq_unat_32)

text \<open>
  The error paths of \<open>do_exec_redirect\<close>. When the descriptor cannot be duplicated, the
  child does not leave: it goes back to the caller with false, so that from then on two
  processes run the caller's code; and the parent's result depends on how that copy of the
  caller ends, so it is true if the copy ends with status 0, although nothing was
  executed. When the fork fails, the output file stays open in the caller.
\<close>

theorem do_exec_redirect_error_paths:
  assumes "0 \<le>s count" and "nat (sint count) \<le> length args" and "open_fd os outputfile = Some fd"
  shows "(fork_pid os = None \<longrightarrow> do_exec_redirect os later outputfile count args fds
      = Inr (False, None, fds(fd \<mapsto> FileAt outputfile))) \<and>
    (fork_pid os \<noteq> None \<and> \<not> dup2_ok os \<longrightarrow> do_exec_redirect os later outputfile count args fds
      = Inr (waitpid_ok os \<and> later = 0,
             Some (ReturnedToCaller False (fds(fd \<mapsto> FileAt outputfile))), fds(fd := None)))"
  using collect_arguments_takes [OF assms(1,2)] assms(3)
  by (auto simp: do_exec_redirect_def redirect_child_def wait_for_child_def child_status_def Let_def)

theorem do_exec_redirect_error_paths_witness:
  "do_exec_redirect (demo_os\<lparr>dup2_ok := False\<rparr>) 0 ''out.txt'' 1 [Some ''/bin/false''] Map.empty
     = Inr (True, Some (ReturnedToCaller False [3 \<mapsto> FileAt ''out.txt'']), Map.empty(3 := None))"
  using do_exec_redirect_error_paths [of 1 "[Some ''/bin/false'']" "demo_os\<lparr>dup2_ok := False\<rparr>" "''out.txt''" 3 0 Map.empty]
  by (simp add: demo_os_def word_sle_eq)

end
