(* ===== verification/Writer.thy ===== *)
theory Writer
  imports Prelude
begin

text \<open>
  The program \<open>finder-app/writer.c\<close>, which writes a string to a file. It tests \<open>errno\<close>
  after calls that may have succeeded, so the model threads \<open>errno\<close> through every call.
\<close>

section \<open>The environment\<close>

text \<open>
  \<open>log_errno e\<close> is the value of \<open>errno\<close> after a call of the logging functions, when it was
  \<open>e\<close> before: a successful call leaves it or sets it, and never clears it to report success.
  \<open>open_errno\<close>, \<open>write_result\<close> and \<open>close_errno\<close> say how the calls on the file end: with an
  error number, or, for \<open>write\<close>, with the number of bytes taken.
\<close>

record writer_env =
  log_errno :: "int \<Rightarrow> int"
  open_errno :: "string \<Rightarrow> int option"
  write_result :: "nat \<Rightarrow> int + nat"
  close_errno :: "int option"

type_synonym files = "string \<rightharpoonup> byte list"

text \<open>Documented behaviour of the calls: error numbers are positive, \<open>write\<close> takes at most what it is given.\<close>

definition writer_env_ok :: "writer_env \<Rightarrow> bool" where
  "writer_env_ok env \<longleftrightarrow>
     (\<forall>f e. open_errno env f = Some e \<longrightarrow> 0 < e) \<and> (\<forall>e. close_errno env = Some e \<longrightarrow> 0 < e) \<and>
     (\<forall>n. case write_result env n of Inl e \<Rightarrow> 0 < e | Inr k \<Rightarrow> k \<le> n)"

section \<open>\<open>main\<close>\<close>

text \<open>The write and the close, with the \<open>errno\<close> they meet; the exit status and the files.\<close>

definition write_and_close :: "writer_env \<Rightarrow> string \<Rightarrow> byte list \<Rightarrow> int \<Rightarrow> files \<Rightarrow> int \<times> files" where
  "write_and_close env writeFile writeStr errno fs =
     (let (errno, fs) = (case write_result env (length writeStr) of
          Inl e \<Rightarrow> (e, fs)
        | Inr k \<Rightarrow> (errno, fs(writeFile \<mapsto> take k writeStr))) in
      if errno \<noteq> 0 then (1, fs)
      else
        (let errno = (case close_errno env of Some e \<Rightarrow> e | None \<Rightarrow> errno) in
         if errno \<noteq> 0 then (1, fs) else (0, fs)))"

text \<open>
  \<open>args\<close> is \<open>argv\<close>, whose length is \<open>argc\<close>. \<open>errno\<close> is 0 when the program starts. The
  first call of \<open>open\<close> truncates the file or creates it.
\<close>

definition writer_main :: "writer_env \<Rightarrow> string list \<Rightarrow> files \<Rightarrow> int \<times> files" where
  "writer_main env args fs =
     (let errno = log_errno env 0 in
      if length args \<noteq> 3 then (1, fs)
      else
        (let writeFile = args ! 1;
             writeStr = args ! 2 in
         case open_errno env writeFile of
           Some e \<Rightarrow> (1, fs)
         | None \<Rightarrow>
             (let errno = log_errno env errno
              in write_and_close env writeFile writeStr errno (fs(writeFile \<mapsto> [])))))"

section \<open>Properties\<close>

text \<open>
  C38. What the program does and what it reports. With a wrong number of arguments, or a
  file that cannot be opened, it returns 1 and touches nothing. Otherwise no other file
  changes, the file holds the bytes \<open>write\<close> took, and the status is 0 exactly if \<open>write\<close>
  and \<open>close\<close> reported no error and the logging calls had left \<open>errno\<close> at 0. So a string
  that is written only in part is reported as success, and one written in full is reported
  as a failure when the logging left \<open>errno\<close> set.
\<close>

theorem writer_reports_errno:
  assumes "writer_env_ok env"
  shows "case args of
      [prog, writeFile, writeStr] \<Rightarrow>
        (if open_errno env writeFile \<noteq> None then writer_main env args fs = (1, fs)
         else \<exists>status. writer_main env args fs = (status,
             fs(writeFile \<mapsto> (case write_result env (length writeStr) of Inl e \<Rightarrow> [] | Inr k \<Rightarrow> take k writeStr))) \<and>
           status \<in> {0, 1} \<and>
           (status = 0 \<longleftrightarrow> (\<exists>k. write_result env (length writeStr) = Inr k) \<and> close_errno env = None \<and>
              log_errno env (log_errno env 0) = 0))
    | _ \<Rightarrow> writer_main env args fs = (1, fs)"
proof (cases "length args = 3")
  case False
  then show ?thesis
    by (auto simp: writer_main_def Let_def split: list.split)
next
  case True
  then obtain p f s where args: "args = [p, f, s]"
    by (auto simp: numeral_3_eq_3 length_Suc_conv)
  have pos: "close_errno env = Some e \<Longrightarrow> e \<noteq> 0" "write_result env (length s) = Inl e \<Longrightarrow> e \<noteq> 0" for e
    using assms unfolding writer_env_ok_def by (fastforce split: sum.splits)+
  show ?thesis
    unfolding args
    using pos by (auto simp: writer_main_def write_and_close_def Let_def split: option.splits sum.splits)
qed

definition short_write_env :: writer_env where
  "short_write_env = \<lparr>log_errno = (\<lambda>e. e), open_errno = (\<lambda>_. None),
     write_result = (\<lambda>n. Inr (min n 3)), close_errno = None\<rparr>"

theorem writer_reports_errno_witness:
  "writer_main short_write_env [''writer'', ''f'', ''hello''] Map.empty = (0, [''f'' \<mapsto> ''hel''])"
proof -
  have "writer_env_ok short_write_env" by (simp add: writer_env_ok_def short_write_env_def)
  from writer_reports_errno [OF this, of "[''writer'', ''f'', ''hello'']" Map.empty]
  show ?thesis by (auto simp: short_write_env_def)
qed

end
