(* ===== verification/Validation.thy ===== *)
theory Validation
  imports Prelude
begin

text \<open>
  The first exercise of the course: \<open>examples/autotest-validate\<close> and its test
  \<open>student-test/assignment1/Test_validate_username.c\<close>. The reader of the configuration file
  and the assertion of the test framework are not part of the sources; they are parameters.
\<close>

section \<open>The functions\<close>

definition this_function_returns_true :: bool where
  "this_function_returns_true = True"

definition this_function_returns_false :: bool where
  "this_function_returns_false = False"

definition my_username :: string where
  "my_username = ''nintendoeats''"

text \<open>A user name that nothing reads.\<close>

definition git_username :: string where
  "git_username = ''akshita-bhasin''"

definition validate_main :: string where
  "validate_main =
     ''this_function_returns_true returned '' @ (if this_function_returns_true then ''true'' else ''false'') @ [NL] @
     ''this_function_returns_false returned '' @ (if this_function_returns_false then ''true'' else ''false'') @ [NL]"

section \<open>The test\<close>

text \<open>
  \<open>malloc_username_from_conf_file\<close> gives NULL or a block with a string in it. The assertion
  of the test framework ends the test when it fails, so that the block is not freed then:
  the result is whether the test passes, and the heap.
\<close>

definition test_validate_my_username ::
    "(string \<Rightarrow> ptr \<Rightarrow> heap \<Rightarrow> bool) \<Rightarrow> (heap \<Rightarrow> ptr \<times> heap) \<Rightarrow> heap \<Rightarrow> bool \<times> heap" where
  "test_validate_my_username assert_equal malloc_username_from_conf_file h =
     (let usernameHardPtr = my_username;
          (usernameConfPtr, h) = malloc_username_from_conf_file h
      in if assert_equal usernameHardPtr usernameConfPtr h
         then (True, case usernameConfPtr of None \<Rightarrow> h | Some a \<Rightarrow> h(a := None))
         else (False, h))"

text \<open>What the framework documents of its assertion: it compares the strings.\<close>

definition compares :: "(string \<Rightarrow> ptr \<Rightarrow> heap \<Rightarrow> bool) \<Rightarrow> bool" where
  "compares assert_equal \<longleftrightarrow> (\<forall>x p h. assert_equal x p h \<longleftrightarrow> (\<exists>a. p = Some a \<and> h a = Some x))"

section \<open>What they do\<close>

text \<open>
  The test passes exactly if the configuration file names the user of the source, and
  leaves no block behind; a failing test does.
\<close>

lemma username_test:
  assumes "compares assert_equal" and "h a = None"
  shows "test_validate_my_username assert_equal (\<lambda>h. (Some a, h(a \<mapsto> conf))) h
    = (if conf = ''nintendoeats'' then (True, h) else (False, h(a \<mapsto> conf)))"
  using assms by (auto simp: test_validate_my_username_def compares_def my_username_def fun_upd_idem)

lemma username_test_witness:
  "test_validate_my_username (\<lambda>x p h. \<exists>a. p = Some a \<and> h a = Some x)
     (\<lambda>h. (Some 0, h(0 \<mapsto> ''nintendoeats''))) Map.empty = (True, Map.empty)"
  using username_test [of "\<lambda>x p h. \<exists>a. p = Some a \<and> h a = Some x" Map.empty 0 "''nintendoeats''"]
  by (simp add: compares_def)

lemma validate_output:
  "validate_main = ''this_function_returns_true returned true'' @ [NL] @ ''this_function_returns_false returned false'' @ [NL]"
  by (simp add: validate_main_def this_function_returns_true_def this_function_returns_false_def)

lemma usernames_differ: "git_username \<noteq> my_username"
  by (simp add: git_username_def my_username_def)

end
