(* ===== verification/Spec2Isabelle.thy ===== *)
theory Spec2Isabelle
  imports Sessions Concurrent_Requests Server_System Driver_Order Driver_Races Threading Systemcalls
    Writer Validation
begin

text \<open>
  A model of the program of this repository and what makes it correct: a character device
  that keeps the last ten lines written to it (\<open>aesd-char-driver/\<close>), a socket server on top
  of it (\<open>server/\<close>), and smaller programs (\<open>finder-app/writer.c\<close>, \<open>examples/threading/\<close>,
  \<open>examples/systemcalls/\<close>, \<open>examples/autotest-validate/\<close>, \<open>student-test/\<close>).

  \<^bold>\<open>How the parts work together.\<close> The main thread of the server (\<open>aesdsocket.c\<close>) binds the
  port, becomes a daemon if asked to, starts the receiver thread and waits for a signal. The
  receiver thread (\<open>connectionReceiverThread.c\<close>) accepts connections, keeps them in a list
  (\<open>connectionlist.c\<close>) and starts one handler thread for each (\<open>connectionHandlerThread.c\<close>).
  A handler cuts what it receives into lines; under a mutex it writes a line to the device,
  or turns a seek command into an \<open>ioctl\<close>, and sends back what it reads. The driver
  (\<open>main.c\<close>) stages partial writes and keeps finished ones in a ring
  (\<open>aesd-circular-buffer.c\<close>). \<open>localsocket.c\<close> is meant to carry a closing message to the
  receiver; \<open>timestamper.c\<close> is used instead of the device's history when the server is built
  for a regular file.

  \<^bold>\<open>Theories, in the order of their imports.\<close>
  \<^item> \<open>Prelude\<close>: machine types, faults (\<open>fault\<close>), results (\<open>res\<close>), calls that may not return
    (\<open>call\<close>), lemmas on lists and words.
  \<^item> \<open>Circular_Buffer\<close>: the ring, with its 8-bit offsets. Interface \<open>bounded_log\<close>, which the
    ring interprets: adding refines keeping the last ten; lookups are indexing into the
    concatenation.
  \<^item> \<open>Char_Device\<close>, \<open>Device_Ops\<close>, \<open>Device_Module\<close>: state \<open>kstate\<close> (the device structure and
    the kernel heap), the file operations, loading and unloading. Invariant \<open>dev_inv\<close>;
    abstraction \<open>dev_lines\<close>, \<open>dev_partial\<close>. What each operation stores, returns and
    refuses, that none faults whatever the kernel answers, and the reachable states of any
    number of clients.
  \<^item> \<open>Interleaving\<close>: schedules of many tasks over one shared state, fair rounds. Interface
    \<open>interleaved_tasks\<close>, with what follows for every schedule.
  \<^item> \<open>Driver_Tasks\<close>, \<open>Driver_Safety\<close>, \<open>Driver_Calls\<close>, \<open>Driver_Alone\<close>, \<open>Driver_Order\<close>,
    \<open>Driver_Races\<close>: the calls of the driver cut into steps between which other tasks run
    (\<open>write_step\<close>, \<open>read_step\<close>, \<open>flush_step\<close> and so on): no fault and one holder for each
    mutex whatever the kernel answers; every call returns under a fair schedule; a call that
    is not interrupted computes what its function does; all tasks together do what an
    abstract line log does; and the races that releases and seeks have.
  \<^item> \<open>Seek_Command\<close>, \<open>Handler\<close>, \<open>Device_File\<close>: \<open>FindSeek\<close> with its part of \<open>sscanf\<close>;
    \<open>ProcessBuffer\<close> and the loop of the handler thread over any file; the file being the
    driver. Interface \<open>line_file\<close> (what the handler needs of its file), interpreted by the
    driver.
  \<^item> \<open>Runs\<close>: interface \<open>measured_system\<close>: an invariant and a well-founded measure on steps
    give that runs keep the one and end by the other.
  \<^item> \<open>Concurrent\<close>: many handler threads at once, interleaved at every call: lines are never
    mixed, every run ends, and one thread alone does what \<open>Handler\<close> says. Interface
    \<open>handler_steps\<close>, an instance of \<open>measured_system\<close>: what an invariant owes at each place of
    a handler; interpreted here and in \<open>Concurrent_Requests\<close>.
  \<^item> \<open>Concurrent_Requests\<close>: the same threads when peers also send seek commands, and how
    the close of one connection undoes the seek of another.
  \<^item> \<open>Connection_List\<close>: the linked list on an explicit heap with its mutex. Interface
    \<open>connection_store\<close>, interpreted by the list: every thread is joined exactly once.
  \<^item> \<open>Receiver\<close>, \<open>Sessions\<close>: the receiver thread over a list of turns; whole connections.
  \<^item> \<open>Local_Socket\<close>, \<open>Timestamper\<close>, \<open>Server_Main\<close>: the interthread socket, the build on a
    regular file with its time stamps, and the main thread: its calls in order, its exits,
    and the race between the signal handler and the wait.
  \<^item> \<open>Server_System\<close>: the main thread, the receiver and the handlers as one process, with
    signals at any time (state \<open>server\<close>, events \<open>server_event\<close>): what every handler serves and
    closes, the race between shutdown and the start of a handler, and the end of the process.
  \<^item> \<open>Threading\<close>, \<open>Systemcalls\<close>, \<open>Writer\<close>, \<open>Validation\<close>: the smaller programs.

  \<^bold>\<open>Correspondence.\<close> Definitions have the names of the functions and structures of the source;
  a loop is a function of its own (\<open>find_loop\<close>, \<open>write_loop\<close>, \<open>process_loop\<close>,
  \<open>receiver_loop\<close>). Integers have their width, pointers are block numbers or NULL, and what
  C leaves undefined is a fault. What is not under \<open>src/\<close> is a parameter: the kernel
  (\<open>kernel_env\<close>: failures of locks, allocations and copies), the peers and the system calls
  of the server (events, turns, \<open>main_env\<close>), the operating system (\<open>os\<close>, \<open>writer_env\<close>).

  \<^bold>\<open>Termination.\<close> There is no fuel. Loops over an array or a buffer recurse with a measure.
  Loops over links or over a file (\<open>find_connection_loop\<close>, \<open>find_end_loop\<close>,
  \<open>destroy_loop\<close>, \<open>echo_loop\<close>) are partial functions, and the lemmas prove that they
  return. Loops that wait for the outside run over the list of what happens; when it is used
  up the thread is still waiting. The interleaved systems of \<open>Threading\<close>, \<open>Concurrent\<close> and
  \<open>Concurrent_Requests\<close> are proved to have no infinite run; the calls of \<open>Driver_Calls\<close> to
  be answered by every schedule that is fair for long enough; the process of
  \<open>Server_System\<close> to end after six rounds once its flag is seen.

  \<^bold>\<open>What the theorems show that is not as intended.\<close> A line that arrives in two pieces loses
  its start; a full buffer is read past its end; seek commands are accepted one past the
  end; the rest of a write that cannot be staged is lost without an error; handler threads
  are never joined, because the return code of \<open>pthread_create\<close> is kept in place of the
  thread; the closing message is never delivered and could not be read; a signal between
  test and wait is lost; closing on an empty list leaves it locked; a close on one
  connection undoes the seek of another; a shutdown frees the list and the mutex that
  handlers may still use, and cuts off their answers; a regular file keeps only the last
  line. Each is a theorem next to the positive ones.

  \<^bold>\<open>Not modelled.\<close> Log messages and peer names; the layout of socket addresses other than
  that of the local socket; threads that never end when they are joined; tasks that share
  one open file of the driver (the server opens its own for each piece of input, and
  \<open>f_pos\<close> is then local to a task); within \<open>Driver_Tasks\<close> the staging of a partial write is
  one step, because it runs under its own mutex; the messages of the interthread socket in
  \<open>Server_System\<close> (\<open>Local_Socket\<close> shows that none arrives); shell scripts and makefiles,
  which are not in C. Beyond that only declarations, includes, debug output and the module
  parameters of the driver are left out of the C code.
\<close>

section \<open>Properties that span the components\<close>

text \<open>
  C4. Connections that are served one after another share the device: whatever lines each
  peer sends before it closes, the device holds the last ten lines of all of them in order,
  each line is answered on its own connection with the whole content at that moment,
  including the lines of earlier connections, and every connection is closed exactly once.
\<close>

theorem connections_share_the_device:
  assumes "device_shut env (target w) ls" and "length ls \<le> 10" and "\<not> FileMutex w"
    and "length stack1 = 400" and "NUL \<in> set (drop m stack1)"
    and "\<forall>(cfd, ks) \<in> set ss. \<forall>k \<in> set ks. plain k \<and> length k \<le> m"
  shows "\<exists>w'. run_calls (serve env stack1 stack2) ss w = Some (Inr w') \<and>
    device_shut env (target w') (keep_last 10 (ls @ concat (map snd ss))) \<and>
    closed w' = closed w @ map fst ss \<and> sent_bytes (sends w') = sent_bytes (sends w) @ answers ls ss"
  using serve_all_sessions [OF assms(4,5,1-3,6), of stack2] by blast

theorem connections_share_the_device_witness:
  "\<exists>w'. run_calls (serve server_env (replicate 400 NUL) (replicate 400 NUL))
      [(4, [''a'' @ [NL]]), (5, [''b'' @ [NL]])] server_world = Some (Inr w') \<and>
    closed w' = [4, 5] \<and>
    sent_bytes (sends w') = [(4, CHR ''a''), (4, NL), (5, CHR ''a''), (5, NL), (5, CHR ''b''), (5, NL)]"
proof -
  have "\<forall>(cfd, ks) \<in> set [(4 :: cint, [''a'' @ [NL]]), (5, [''b'' @ [NL]])]. \<forall>k \<in> set ks. plain k \<and> length k \<le> 20"
    by (simp add: plain_def is_line_def AESD_SOCKET_IOC_STRING_def)
  from connections_share_the_device [OF server_world_facts(1) _ server_world_facts(2) _ _ this,
      of "replicate 400 NUL" "replicate 400 NUL"]
  show ?thesis by (auto simp: server_world_def sent_bytes_def keep_last_def)
qed

text \<open>
  From \<open>accept\<close> to the answer: the item that the receiver thread adds for a connection
  is the one its handler thread is given, it holds the accepted descriptor, and the handler
  that reads it serves that connection: the lines are stored after those of the device, the
  answers go to that descriptor, and that descriptor is closed.
\<close>

theorem accepted_connection_is_served:
  assumes "ready (connections r) cs" and "fresh_alloc (new_item renv)"
    and "t_accept t \<noteq> - 1" and "t_create t = 0"
    and "device_shut env (target w) ls" and "length ls \<le> 10" and "\<not> FileMutex w"
    and "length stack1 = 400" and "NUL \<in> set (drop m stack1)"
    and "\<forall>k \<in> set ks. plain k \<and> length k \<le> m"
  shows "\<exists>r' p it w'. accept_event renv t r = Some (Inr r') \<and> started r' = started r @ [(t_new t, p)] \<and>
    item_at (connections r') p = Some (Inr it) \<and>
    serve env stack1 stack2 (m_connectionFD (m_connection it), ks) w = Some (Inr w') \<and>
    device_shut env (target w') (keep_last 10 (ls @ ks)) \<and> closed w' = closed w @ [t_accept t] \<and>
    sent_bytes (sends w') = sent_bytes (sends w) @ map (Pair (t_accept t)) (concat (contents_after ls ks))"
proof -
  obtain r' a it where "accept_event renv t r = Some (Inr r')" "started r' = started r @ [(t_new t, Some a)]"
    "item_at (connections r') (Some a) = Some (Inr it)" "m_connectionFD (m_connection it) = t_accept t"
    using accept_event_adds [OF assms(1-3)] assms(4) by (auto simp: conn_of_def)
  moreover obtain w' where "serve env stack1 stack2 (t_accept t, ks) w = Some (Inr w')"
    "device_shut env (target w') (keep_last 10 (ls @ ks))" "closed w' = closed w @ [t_accept t]"
    "sent_bytes (sends w') = sent_bytes (sends w) @ map (Pair (t_accept t)) (concat (contents_after ls ks))"
    using serve_session [OF assms(5-10), of stack2 "t_accept t"] by blast
  ultimately show ?thesis by metis
qed

theorem accepted_connection_is_served_witness:
  "\<exists>r' p it w'. accept_event demo_receiver (idle_turn\<lparr>t_accept := 7, t_new := 101\<rparr>)
      \<lparr>connections = fresh_list, watched = [3, 5], event_fd = 3, started = []\<rparr> = Some (Inr r') \<and>
    started r' = [(101, p)] \<and> item_at (connections r') p = Some (Inr it) \<and>
    serve server_env (replicate 400 NUL) (replicate 400 NUL) (m_connectionFD (m_connection it), demo_lines)
      server_world = Some (Inr w') \<and> closed w' = [7]"
proof -
  have "ready (connections \<lparr>connections = fresh_list, watched = [3, 5], event_fd = 3, started = []\<rparr>) []"
    by (simp add: fresh_list_facts)
  moreover have "t_accept (idle_turn\<lparr>t_accept := 7, t_new := 101\<rparr>) \<noteq> - 1"
    "t_create (idle_turn\<lparr>t_accept := 7, t_new := 101\<rparr>) = 0" by (simp_all add: idle_turn_def)
  ultimately show ?thesis
    using accepted_connection_is_served [OF _ demo_receiver_fresh _ _ server_world_facts(1) _
        server_world_facts(2) _ _ demo_lines_plain, of _ "[]" "idle_turn\<lparr>t_accept := 7, t_new := 101\<rparr>"
        "replicate 400 NUL" "replicate 400 NUL"]
    by (fastforce simp: server_world_def)
qed

end
